(* ===== verification/PI_Prelude.thy ===== *)
theory PI_Prelude
  imports Main "HOL-Library.Word" "HOL-Library.Monad_Syntax"
begin

text \<open>
  Shared vocabulary of the development: the machine integer types the C sources use, the
  cyclic distance that linear probing is about, and the facts on words and lists that the
  component theories need.  Nothing here models code of the repository; the collections
  declared first are filled by the theories that do.
\<close>

unbundle bit_operations_syntax

named_theorems kh_defs \<open>definitions of the hash table operations\<close>
named_theorems kh_word \<open>machine words of the hash table read as natural numbers\<close>
named_theorems circ \<open>unfolding of cyclic distances into linear arithmetic\<close>

subsection \<open>Machine integers\<close>

type_synonym u8 = "8 word"
type_synonym u32 = "32 word"
type_synonym u64 = "64 word"

lemma two_power_less_32: "b < 32 \<Longrightarrow> (2::nat) ^ b < 2 ^ 32"
  by (rule power_strict_increasing) simp_all

lemma unat_less_32: "unat (x::u32) < 2 ^ 32"
  using unsigned_less [where 'a = nat and w = x] by simp

lemma unat_push_bit_one [kh_word]:
  assumes "b < 32"
  shows "unat (push_bit b (1::u32)) = 2 ^ b"
proof -
  have "take_bit 32 ((2::nat) ^ b) = 2 ^ b"
    using two_power_less_32 [OF assms] by (simp only: take_bit_nat_eq_self_iff)
  then show ?thesis by (subst unsigned_push_bit_eq) simp
qed

lemma push_bit_one_minus_one [kh_word]: "push_bit b (1::u32) - 1 = mask b"
  by (simp add: mask_eq_decr_exp push_bit_eq_mult)

lemma uint_succ_and_mask:
  fixes i :: u32
  shows "uint ((i + 1) AND mask b) = (uint i + 1) mod 2 ^ min b 32"
proof -
  have "uint ((i + 1) AND mask b) = take_bit b (uint (i + 1))"
    by (simp add: unsigned_take_bit_eq flip: take_bit_eq_mask)
  also have "uint (i + 1) = take_bit 32 (uint i + 1)"
    by (simp add: uint_word_ariths take_bit_eq_mod)
  finally show ?thesis by (simp add: take_bit_eq_mod [symmetric])
qed

lemma unat_succ_and_mask [kh_word]:
  fixes i :: u32
  assumes "b < 32"
  shows "unat ((i + 1) AND mask b) = (unat i + 1) mod 2 ^ b"
  using assms
  by (simp only: unat_eq_nat_uint uint_succ_and_mask)
    (simp add: nat_mod_distrib nat_add_distrib nat_power_eq)

lemma unat_succ [kh_word]:
  fixes j n :: u32
  assumes "j < n"
  shows "unat (j + 1) = Suc (unat j)"
proof -
  have "unat j + 1 < 2 ^ 32"
    using assms unat_less_32 [of n] by (simp add: word_less_nat_alt)
  then show ?thesis by (simp add: unat_word_ariths)
qed

lemma unat_drop_bit_32_minus_less:
  fixes x bits :: u32
  shows "unat (drop_bit (unat (32 - bits)) x) < 2 ^ min (unat bits) 32"
proof (cases "unat bits \<le> 32")
  case True
  then have "bits \<le> 32" by (simp add: word_le_nat_alt)
  then have "unat (32 - bits) = 32 - unat bits" by (simp add: unat_sub)
  moreover have "unat x < 2 ^ 32" using unat_less_32 [of x] by simp
  ultimately have "unat x div 2 ^ (32 - unat bits) < 2 ^ unat bits" using True
    by (intro less_mult_imp_div_less) (simp flip: power_add)
  with \<open>unat (32 - bits) = _\<close> True show ?thesis
    by (simp add: unat_drop_bit_eq drop_bit_eq_div [of _ "unat x"])
next
  case False
  have "unat x < 2 ^ 32" using unat_less_32 [of x] by simp
  moreover have "unat (drop_bit (unat (32 - bits)) x) \<le> unat x"
    by (simp add: unat_drop_bit_eq drop_bit_eq_div [of _ "unat x"])
  ultimately show ?thesis using False by simp
qed

lemma pred_mod_eq:
  fixes x n :: int
  assumes "0 < n" and "x mod n \<noteq> 0"
  shows "(x - 1) mod n = x mod n - 1"
proof -
  have "0 \<le> x mod n" "x mod n < n" using assms by simp_all
  then have "0 \<le> x mod n - 1" "x mod n - 1 < n" using assms by linarith+
  moreover have "(x - 1) mod n = (x mod n - 1) mod n" by (simp add: mod_diff_left_eq)
  ultimately show ?thesis by (simp add: mod_pos_pos_trivial)
qed

lemma bit_leading:
  fixes x :: u32
  assumes "2 ^ e \<le> unat x" and "unat x < 2 ^ Suc e"
  shows "bit x e"
proof -
  have "unat x div 2 ^ e = 1" using assms by (intro div_nat_eqI) simp_all
  then have "bit (unat x) e" by (simp add: bit_nat_def)
  then show ?thesis by (simp add: bit_unsigned_iff)
qed

lemma and_pred_eq_0_iff:
  fixes x :: u32
  assumes "2 ^ e \<le> unat x" and "unat x < 2 ^ Suc e"
  shows "x AND (x - 1) = 0 \<longleftrightarrow> unat x = 2 ^ e"
proof (cases "unat x = 2 ^ e")
  case True
  then have "(2::nat) ^ e < 2 ^ 32" using unat_less_32 [of x] by simp
  then have "e < 32" by (simp only: power_strict_increasing_iff)
  then have "x = push_bit e 1"
    using True by (simp only: word_unat_eq_iff unat_push_bit_one)
  then have "x AND (x - 1) = push_bit e 1 AND mask e"
    by (simp only: push_bit_one_minus_one)
  also have "\<dots> = 0" by (intro bit_eqI) (auto simp: bit_and_iff bit_mask_iff bit_exp_iff)
  finally show ?thesis using True by simp
next
  case False
  then have gt: "2 ^ e < unat x" using assms(1) by simp
  then have "1 \<le> x" by (simp add: word_le_nat_alt)
  then have "unat (x - 1) = unat x - 1" by (simp add: unat_sub)
  then have "bit (x - 1) e" using gt assms(2) by (intro bit_leading) simp_all
  moreover have "bit x e" using assms by (rule bit_leading)
  ultimately have "bit (x AND (x - 1)) e" by (simp add: bit_and_iff)
  then show ?thesis using False by auto
qed

subsection \<open>Cyclic distance\<close>

text \<open>
  \<open>cdist n a b\<close> is the number of steps from slot \<open>a\<close> to slot \<open>b\<close> of a circular array of
  \<open>n\<close> slots; \<open>on_path n a x b\<close> says that a probe from \<open>a\<close> meets \<open>x\<close> not later than \<open>b\<close>.
\<close>

definition cdist :: "nat \<Rightarrow> nat \<Rightarrow> nat \<Rightarrow> nat" where
  "cdist n a b = (if a \<le> b then b - a else b + n - a)"

definition on_path :: "nat \<Rightarrow> nat \<Rightarrow> nat \<Rightarrow> nat \<Rightarrow> bool" where
  "on_path n a x b \<longleftrightarrow> cdist n a x \<le> cdist n a b"

definition cnext :: "nat \<Rightarrow> nat \<Rightarrow> nat" where
  "cnext n i = (if i + 1 = n then 0 else i + 1)"

lemmas circ_defs [circ] = cdist_def on_path_def cnext_def

lemma cdist_less: "a < n \<Longrightarrow> b < n \<Longrightarrow> cdist n a b < n"
  by (auto simp: cdist_def)

lemma cdist_self [simp]: "cdist n a a = 0"
  by (simp add: cdist_def)

lemma on_path_refl [simp]: "on_path n a x x"
  by (simp add: on_path_def)

lemma on_path_start [simp]: "on_path n a a x"
  by (simp add: on_path_def)

lemma cnext_less: "i < n \<Longrightarrow> cnext n i < n"
  by (auto simp: cnext_def)

lemma cdist_cnext:
  assumes "a < n" "i < n" "cnext n i \<noteq> a"
  shows "cdist n a (cnext n i) = Suc (cdist n a i)"
  using assms by (auto simp: circ split: if_splits)

lemma on_path_cnext:
  assumes "a < n" "i < n" "x < n" "cnext n i \<noteq> a"
  shows "on_path n a x (cnext n i) \<longleftrightarrow> on_path n a x i \<or> x = cnext n i"
  using assms by (auto simp: circ split: if_splits)

lemma on_path_last:
  assumes "a < n" "i < n" "x < n" "cnext n i = a"
  shows "on_path n a x i"
  using assms by (auto simp: circ split: if_splits)

text \<open>
  \<open>passed n V p i\<close>: every slot a probe from \<open>p\<close> meets strictly before \<open>i\<close> satisfies \<open>V\<close>.
\<close>

definition passed :: "nat \<Rightarrow> (nat \<Rightarrow> bool) \<Rightarrow> nat \<Rightarrow> nat \<Rightarrow> bool" where
  "passed n V p i \<longleftrightarrow> (\<forall>x<n. on_path n p x i \<longrightarrow> x \<noteq> i \<longrightarrow> V x)"

lemma passedD: "passed n V p i \<Longrightarrow> x < n \<Longrightarrow> on_path n p x i \<Longrightarrow> x \<noteq> i \<Longrightarrow> V x"
  by (auto simp: passed_def)

lemma passed_start: "p < n \<Longrightarrow> passed n V p p"
  by (auto simp: passed_def circ split: if_splits)

lemma passed_next:
  assumes "passed n V p i" "V i" "p < n" "i < n" "cnext n i \<noteq> p"
  shows "passed n V p (cnext n i)"
  using assms by (auto simp: passed_def on_path_cnext)

lemma passed_all:
  assumes "passed n V p i" "V i" "p < n" "i < n" "cnext n i = p" "x < n"
  shows "V x"
proof (cases "x = i")
  case False
  have "on_path n p x i" using assms by (intro on_path_last) auto
  with False assms show ?thesis by (auto simp: passed_def)
qed (use assms in simp)

lemma on_path_total: "on_path n p x y \<or> on_path n p y x"
  by (auto simp: on_path_def)

lemma cdist_rotate: "s < n \<Longrightarrow> h < n \<Longrightarrow> p < n \<Longrightarrow> cdist n h p = cdist n (cdist n s h) (cdist n s p)"
  by (auto simp: cdist_def)

lemma cdist_bound: "s < n \<Longrightarrow> h < n \<Longrightarrow> cdist n s h < n"
  by (auto simp: cdist_def)

lemma on_path_beyond_0:
  assumes "h < n" "a < e" "e < p \<or> p < a" "p < n" "on_path n h a p" "e < n"
  shows "on_path n h e p"
  using assms(3)
proof
  assume "e < p"
  then show ?thesis using assms(1,2,4-6) by (auto simp: circ split: if_splits)
next
  assume "p < a"
  then show ?thesis using assms(1,2,4-6) by (auto simp: circ split: if_splits)
qed

lemma on_path_beyond:
  assumes "h < n" "a < n" "e < n" "p < n" "s < n"
    and "cdist n s a < cdist n s e" and "cdist n s e < cdist n s p \<or> cdist n s p < cdist n s a"
    and "on_path n h a p"
  shows "on_path n h e p"
proof -
  have rot: "on_path n h x p \<longleftrightarrow> on_path n (cdist n s h) (cdist n s x) (cdist n s p)" if "x < n" for x
    unfolding on_path_def
    by (simp only: cdist_rotate [OF assms(5,1) that] cdist_rotate [OF assms(5,1,4)])
  have "on_path n (cdist n s h) (cdist n s a) (cdist n s p)" using assms(2,8) rot by simp
  then have "on_path n (cdist n s h) (cdist n s e) (cdist n s p)"
    using on_path_beyond_0 [OF cdist_bound [OF assms(5,1)] assms(6,7) cdist_bound [OF assms(5,4)]]
      cdist_bound [OF assms(5,3)] by blast
  then show ?thesis using assms(3) rot by simp
qed

lemma on_path_trans: "on_path n h x a \<Longrightarrow> on_path n h a b \<Longrightarrow> on_path n h x b"
  by (simp add: on_path_def)

lemma on_path_antisym:
  "h < n \<Longrightarrow> a < n \<Longrightarrow> b < n \<Longrightarrow> on_path n h a b \<Longrightarrow> on_path n h b a \<Longrightarrow> a = b"
  by (auto simp: circ split: if_splits)

lemma cdist_inj: "s < n \<Longrightarrow> a < n \<Longrightarrow> b < n \<Longrightarrow> cdist n s a = cdist n s b \<Longrightarrow> a = b"
  by (auto simp: circ split: if_splits)

lemma on_path_iff_between:
  assumes "k < n" "i < n" "j < n" "i \<noteq> j"
  shows "on_path n k i j \<longleftrightarrow>
           (i < j \<and> (k \<le> i \<or> j < k)) \<or> (j < i \<and> (k \<le> i \<and> j < k))"
  using assms by (auto simp: circ)

lemma ex_first:
  assumes "e < n" "\<not> U e" "p < n"
  obtains f where "f < n" "\<not> U f" "passed n U p f"
proof -
  obtain f where f: "f < n \<and> \<not> U f" "\<forall>y. y < n \<and> \<not> U y \<longrightarrow> cdist n p f \<le> cdist n p y"
    using assms ex_has_least_nat [of "\<lambda>x. x < n \<and> \<not> U x" e "cdist n p"] by blast
  have "U x" if "x < n" "on_path n p x f" "x \<noteq> f" for x
  proof (rule ccontr)
    assume "\<not> U x"
    with f(2) that have "cdist n p x = cdist n p f" by (auto simp: on_path_def intro: antisym)
    with assms(3) that f(1) show False by (auto dest: cdist_inj)
  qed
  then show thesis using that [of f] f(1) by (auto simp: passed_def)
qed

subsection \<open>Results that may be an error\<close>

definition sum_bind :: "'e + 'a \<Rightarrow> ('a \<Rightarrow> 'e + 'b) \<Rightarrow> 'e + 'b" where
  "sum_bind r f = (case r of Inl e \<Rightarrow> Inl e | Inr x \<Rightarrow> f x)"

lemma sum_bind_simps [simp]:
  "sum_bind (Inl e) f = Inl e" "sum_bind (Inr x) f = f x"
  by (simp_all add: sum_bind_def)

lemma sum_bind_Inr_iff: "sum_bind r f = Inr y \<longleftrightarrow> (\<exists>x. r = Inr x \<and> f x = Inr y)"
  by (cases r) auto

lemma sum_bind_cong [fundef_cong]:
  "r = r' \<Longrightarrow> (\<And>x. r' = Inr x \<Longrightarrow> f x = f' x) \<Longrightarrow> sum_bind r f = sum_bind r' f'"
  by (cases r') auto

end
