(* ===== verification/Khashl.thy ===== *)
theory Khashl
  imports PI_Prelude
begin

text \<open>
  The open-addressing hash table of \<open>khashl.h\<close>: the macros \<open>__KHASHL_TYPE\<close> and
  \<open>__KHASHL_IMPL_*\<close>, instantiated by the program for the search cache and for the
  root-to-id map.  A table is a bit array of used slots and an array of buckets; collisions
  are resolved by linear probing, deletion shifts the following run back, and a resize moves
  the buckets inside one array by kicking out the occupant of each target slot.
\<close>

subsection \<open>Private functions on the flag words\<close>

type_synonym khint = u32

definition kh_used :: "khint list \<Rightarrow> khint \<Rightarrow> bool" where
  "kh_used flag i \<longleftrightarrow> drop_bit (unat (i AND 0x1f)) (flag ! unat (drop_bit 5 i)) AND 1 \<noteq> 0"

definition kh_set_used :: "khint list \<Rightarrow> khint \<Rightarrow> khint list" where
  "kh_set_used flag i =
     flag[unat (drop_bit 5 i) := flag ! unat (drop_bit 5 i) OR push_bit (unat (i AND 0x1f)) 1]"

definition kh_set_unused :: "khint list \<Rightarrow> khint \<Rightarrow> khint list" where
  "kh_set_unused flag i =
     flag[unat (drop_bit 5 i) :=
            flag ! unat (drop_bit 5 i) AND NOT (push_bit (unat (i AND 0x1f)) 1)]"

definition kh_fsize :: "khint \<Rightarrow> khint" where
  "kh_fsize m = (if m < 32 then 1 else drop_bit 5 m)"

text \<open>The shift \<open>(khint_t)1U << bits\<close>, which the code writes out wherever it needs the size.\<close>

definition kh_pow :: "khint \<Rightarrow> khint" where
  "kh_pow bits = push_bit (unat bits) 1"

definition kh_h2b :: "khint \<Rightarrow> khint \<Rightarrow> khint" where
  "kh_h2b hash bits = drop_bit (unat (32 - bits)) (hash * 2654435769)"

subsection \<open>The table\<close>

text \<open>
  A null \<open>used\<close> or \<open>keys\<close> pointer is the empty list: what the code allocates has at least
  one flag word and four buckets.  Memory that \<open>xreallocarray\<close> adds is indeterminate; the
  operations that may grow the array take the value \<open>junk\<close> found there as an argument, and
  every theorem holds for all of them.  Running out of memory ends the process in \<open>xcalloc\<close>
  and \<open>xreallocarray\<close>, so it is not a result of the operations.
\<close>

record 'b khtab =
  kh_bits :: khint
  kh_count :: khint
  kh_usedv :: "khint list"
  kh_keys :: "'b list"

definition kh_init :: "'b khtab" where
  "kh_init = \<lparr>kh_bits = 0, kh_count = 0, kh_usedv = [], kh_keys = []\<rparr>"

definition kh_capacity :: "'b khtab \<Rightarrow> khint" where
  "kh_capacity h = (if kh_keys h \<noteq> [] then kh_pow (kh_bits h) else 0)"

definition kh_end :: "'b khtab \<Rightarrow> khint" where
  "kh_end h = kh_capacity h"

definition kh_exist :: "'b khtab \<Rightarrow> khint \<Rightarrow> bool" where
  "kh_exist h x = kh_used (kh_usedv h) x"

definition kh_bucket :: "'b khtab \<Rightarrow> khint \<Rightarrow> 'b" where
  "kh_bucket h x = kh_keys h ! unat x"

definition kh_clear :: "'b khtab \<Rightarrow> 'b khtab" where
  "kh_clear h =
     (if kh_usedv h \<noteq> [] then
        let n_buckets = kh_pow (kh_bits h);
            m = unat (kh_fsize n_buckets)
        in h\<lparr>kh_usedv := replicate m 0 @ drop m (kh_usedv h), kh_count := 0\<rparr>
      else h)"

subsection \<open>Lookup\<close>

text \<open>
  The probe loop of \<open>getp_core\<close> and of \<open>putp_core\<close>: from the home slot of the hash, step
  until a free slot or a slot with an equal key; the flag says that the probe came back to
  where it began.
\<close>

function kh_probe :: "('b \<Rightarrow> 'b \<Rightarrow> bool) \<Rightarrow> 'b khtab \<Rightarrow> 'b \<Rightarrow> khint \<Rightarrow> khint \<Rightarrow> khint \<times> bool" where
  "kh_probe eq h key hash i =
     (let mask = kh_pow (kh_bits h) - 1; last = kh_h2b hash (kh_bits h)
      in if kh_used (kh_usedv h) i \<and> \<not> eq (kh_keys h ! unat i) key then
           let i' = (i + 1) AND mask
           in if i' = last then (i', True) else kh_probe eq h key hash i'
         else (i, False))"
  by pat_completeness auto

lemma uint_kh_h2b_less: "uint (kh_h2b hash bits) < 2 ^ min (unat bits) 32"
proof -
  have "int (unat (kh_h2b hash bits)) < int (2 ^ min (unat bits) 32)"
    unfolding kh_h2b_def of_nat_less_iff by (rule unat_drop_bit_32_minus_less)
  then show ?thesis by simp
qed

definition kh_left :: "khint \<Rightarrow> khint \<Rightarrow> khint \<Rightarrow> nat" where
  "kh_left hash bits i =
     nat ((uint (kh_h2b hash bits) - uint i - 1) mod 2 ^ min (unat bits) 32)"

lemma kh_probe_step_decreases:
  assumes "(i + 1) AND (kh_pow bits - 1) \<noteq> kh_h2b hash bits"
  shows "kh_left hash bits ((i + 1) AND (kh_pow bits - 1)) < kh_left hash bits i"
proof -
  let ?N = "2 ^ min (unat bits) 32 :: int"
  let ?x = "uint (kh_h2b hash bits) - uint i - 1"
  let ?i' = "(i + 1) AND (kh_pow bits - 1)"
  have i': "uint ?i' = (uint i + 1) mod ?N"
    unfolding kh_pow_def push_bit_one_minus_one by (rule uint_succ_and_mask)
  have "?x mod ?N \<noteq> 0"
  proof
    assume "?x mod ?N = 0"
    then have "uint (kh_h2b hash bits) mod ?N = (uint i + 1) mod ?N"
      by (simp add: mod_eq_dvd_iff dvd_eq_mod_eq_0 algebra_simps)
    with i' uint_kh_h2b_less [of hash bits] have "uint ?i' = uint (kh_h2b hash bits)"
      by simp
    with assms show False by (simp only: word_uint_eq_iff)
  qed
  then have "(?x - 1) mod ?N = ?x mod ?N - 1" by (intro pred_mod_eq) simp_all
  moreover have "(uint (kh_h2b hash bits) - uint ?i' - 1) mod ?N = (?x - 1) mod ?N"
    using mod_diff_right_eq [of "uint (kh_h2b hash bits) - 1" "uint i + 1" ?N]
    unfolding i' by (simp add: diff_diff_eq add.commute)
  moreover have "0 < ?x mod ?N"
    using \<open>?x mod ?N \<noteq> 0\<close> by (simp add: order.not_eq_order_implies_strict)
  ultimately show ?thesis by (simp add: kh_left_def)
qed

termination kh_probe
  by (relation "measure (\<lambda>(eq, h, key, hash, i). kh_left hash (kh_bits h) i)")
    (simp_all add: kh_probe_step_decreases)

declare kh_probe.simps [simp del]

definition kh_getp_core :: "('b \<Rightarrow> 'b \<Rightarrow> bool) \<Rightarrow> 'b khtab \<Rightarrow> 'b \<Rightarrow> khint \<Rightarrow> khint" where
  "kh_getp_core eq h key hash =
     (if kh_keys h = [] then 0
      else let n_buckets = kh_pow (kh_bits h);
               (i, wrapped) = kh_probe eq h key hash (kh_h2b hash (kh_bits h))
           in if wrapped then n_buckets
              else if \<not> kh_used (kh_usedv h) i then n_buckets else i)"

definition kh_getp :: "('b \<Rightarrow> khint) \<Rightarrow> ('b \<Rightarrow> 'b \<Rightarrow> bool) \<Rightarrow> 'b khtab \<Rightarrow> 'b \<Rightarrow> khint" where
  "kh_getp hf eq h key = kh_getp_core eq h key (hf key)"

subsection \<open>Resize\<close>

text \<open>
  The loop \<open>while ((x >>= 1) != 0) ++j\<close>, then the choice of \<open>new_bits\<close>: the logarithm of
  the requested size, rounded up, and at least 2.
\<close>

function kh_log2 :: "khint \<Rightarrow> khint \<Rightarrow> khint" where
  "kh_log2 x j = (let x' = drop_bit 1 x in if x' \<noteq> 0 then kh_log2 x' (j + 1) else j)"
  by pat_completeness auto
lemma unat_shift_one_less:
  assumes "drop_bit 1 (x::khint) \<noteq> 0"
  shows "unat (drop_bit 1 x) < unat x"
proof -
  from assms have "0 < unat x" by (metis drop_bit_of_0 unat_gt_0)
  then show ?thesis
    by (simp add: unat_drop_bit_eq drop_bit_eq_div [of _ "unat x"])
qed

termination kh_log2
  by (relation "measure (\<lambda>(x, j). unat x)") (simp, simp only: in_measure split, rule unat_shift_one_less)

declare kh_log2.simps [simp del]

definition kh_new_bits :: "khint \<Rightarrow> khint" where
  "kh_new_bits new_n_buckets =
     (let j = kh_log2 new_n_buckets 0;
          j = (if new_n_buckets AND (new_n_buckets - 1) \<noteq> 0 then j + 1 else j)
      in if j > 2 then j else 2)"

text \<open>
  The rehashing loops can only be shown to end for a well-formed table, so they are partial
  functions whose value \<^term>\<open>None\<close> stands for a loop that does not end.  The state of the
  two outer loops is the old flags, the shared bucket array and the new flags.
\<close>

partial_function (option) kh_find_free :: "khint list \<Rightarrow> khint \<Rightarrow> khint \<Rightarrow> khint option" where
  "kh_find_free new_used new_mask i =
     (if kh_used new_used i then kh_find_free new_used new_mask ((i + 1) AND new_mask)
      else Some i)"

declare kh_find_free.simps [code]

type_synonym 'b rehash = "khint list \<times> 'b list \<times> khint list"

partial_function (option) kh_kick ::
  "('b \<Rightarrow> khint) \<Rightarrow> khint \<Rightarrow> khint \<Rightarrow> 'b \<Rightarrow> khint list \<Rightarrow> 'b list \<Rightarrow> khint list \<Rightarrow> 'b rehash option"
where
  "kh_kick hf new_bits n_buckets key used keys new_used =
     do {
       i \<leftarrow> kh_find_free new_used (kh_pow new_bits - 1) (kh_h2b (hf key) new_bits);
       let new_used = kh_set_used new_used i;
       if i < n_buckets \<and> kh_used used i then
         kh_kick hf new_bits n_buckets (keys ! unat i) (kh_set_unused used i)
           (keys[unat i := key]) new_used
       else Some (used, keys[unat i := key], new_used)
     }"

partial_function (option) kh_rehash ::
  "('b \<Rightarrow> khint) \<Rightarrow> khint \<Rightarrow> khint \<Rightarrow> khint \<Rightarrow> khint list \<Rightarrow> 'b list \<Rightarrow> khint list \<Rightarrow> 'b rehash option"
where
  "kh_rehash hf new_bits n_buckets j used keys new_used =
     (if j = n_buckets then Some (used, keys, new_used)
      else if \<not> kh_used used j then kh_rehash hf new_bits n_buckets (j + 1) used keys new_used
      else do {
        (used, keys, new_used) \<leftarrow>
          kh_kick hf new_bits n_buckets (keys ! unat j) (kh_set_unused used j) keys new_used;
        kh_rehash hf new_bits n_buckets (j + 1) used keys new_used
      })"

declare kh_kick.simps [code] kh_rehash.simps [code]

definition xreallocarray :: "'b \<Rightarrow> 'b list \<Rightarrow> nat \<Rightarrow> 'b list" where
  "xreallocarray junk xs n = take n xs @ replicate (n - length xs) junk"

definition kh_resize :: "('b \<Rightarrow> khint) \<Rightarrow> 'b \<Rightarrow> 'b khtab \<Rightarrow> khint \<Rightarrow> 'b khtab option" where
  "kh_resize hf junk h new_n_buckets =
     (let new_bits = kh_new_bits new_n_buckets;
          new_n_buckets = kh_pow new_bits
      in if kh_count h > drop_bit 1 new_n_buckets + drop_bit 2 new_n_buckets then Some h
         else
           let new_used = replicate (unat (kh_fsize new_n_buckets)) 0;
               n_buckets = (if kh_keys h \<noteq> [] then kh_pow (kh_bits h) else 0);
               keys = (if n_buckets < new_n_buckets
                       then xreallocarray junk (kh_keys h) (unat new_n_buckets) else kh_keys h)
           in do {
             (used, keys, new_used) \<leftarrow>
               kh_rehash hf new_bits n_buckets 0 (kh_usedv h) keys new_used;
             let keys = (if n_buckets > new_n_buckets
                         then xreallocarray junk keys (unat new_n_buckets) else keys);
             Some (h\<lparr>kh_usedv := new_used, kh_bits := new_bits, kh_keys := keys\<rparr>)
           })"

subsection \<open>Insertion and deletion\<close>

definition kh_putp_core ::
  "('b \<Rightarrow> khint) \<Rightarrow> ('b \<Rightarrow> 'b \<Rightarrow> bool) \<Rightarrow> 'b \<Rightarrow> 'b khtab \<Rightarrow> 'b \<Rightarrow> khint
     \<Rightarrow> ('b khtab \<times> khint \<times> int) option"
where
  "kh_putp_core hf eq junk h key hash =
     (let n_buckets = (if kh_keys h \<noteq> [] then kh_pow (kh_bits h) else 0)
      in do {
        h \<leftarrow> (if kh_count h \<ge> drop_bit 1 n_buckets + drop_bit 2 n_buckets
             then kh_resize hf junk h (n_buckets + 1) else Some h);
        let (i, wrapped) = kh_probe eq h key hash (kh_h2b hash (kh_bits h));
        if \<not> kh_used (kh_usedv h) i then
          Some (h\<lparr>kh_keys := (kh_keys h)[unat i := key],
                  kh_usedv := kh_set_used (kh_usedv h) i,
                  kh_count := kh_count h + 1\<rparr>, i, 1)
        else Some (h, i, 0)
      })"

definition kh_putp ::
  "('b \<Rightarrow> khint) \<Rightarrow> ('b \<Rightarrow> 'b \<Rightarrow> bool) \<Rightarrow> 'b \<Rightarrow> 'b khtab \<Rightarrow> 'b \<Rightarrow> ('b khtab \<times> khint \<times> int) option"
where
  "kh_putp hf eq junk h key = kh_putp_core hf eq junk h key (hf key)"

text \<open>
  The loop of \<open>del\<close>: \<open>i\<close> is the hole, \<open>j\<close> the slot under inspection; a bucket whose probe
  path meets the hole moves into it and leaves its own slot as the hole.
\<close>

partial_function (option) kh_shift ::
  "('b \<Rightarrow> khint) \<Rightarrow> khint \<Rightarrow> khint list \<Rightarrow> 'b list \<Rightarrow> khint \<Rightarrow> khint \<Rightarrow> ('b list \<times> khint) option"
where
  "kh_shift hf bits used keys i j =
     (let j = (j + 1) AND (kh_pow bits - 1)
      in if j = i \<or> \<not> kh_used used j then Some (keys, i)
         else let k = kh_h2b (hf (keys ! unat j)) bits
              in if (j > i \<and> (k \<le> i \<or> k > j)) \<or> (j < i \<and> (k \<le> i \<and> k > j))
                 then kh_shift hf bits used (keys[unat i := keys ! unat j]) j j
                 else kh_shift hf bits used keys i j)"

declare kh_shift.simps [code]

definition kh_del :: "('b \<Rightarrow> khint) \<Rightarrow> 'b khtab \<Rightarrow> khint \<Rightarrow> ('b khtab \<times> int) option" where
  "kh_del hf h i =
     (if kh_keys h = [] then Some (h, 0)
      else do {
        (keys, i) \<leftarrow> kh_shift hf (kh_bits h) (kh_usedv h) (kh_keys h) i i;
        Some (h\<lparr>kh_keys := keys, kh_usedv := kh_set_unused (kh_usedv h) i,
                kh_count := kh_count h - 1\<rparr>, 1)
      })"

end
