(* ===== verification/Khashl_Correct.thy ===== *)
theory Khashl_Correct
  imports Khashl
begin

text \<open>
  Correctness of the hash table: its well-formedness invariant, and the effect of every
  operation on the set of buckets the table holds.
\<close>

subsection \<open>Words read as natural numbers\<close>

lemma unat_kh_pow [kh_word]: "unat bits < 32 \<Longrightarrow> unat (kh_pow bits) = 2 ^ unat bits"
  unfolding kh_pow_def by (rule unat_push_bit_one)

lemma unat_kh_next [kh_word]:
  assumes "unat bits < 32" and "unat i < 2 ^ unat bits"
  shows "unat ((i + 1) AND (kh_pow bits - 1)) = cnext (2 ^ unat bits) (unat i)"
proof -
  have "unat ((i + 1) AND (kh_pow bits - 1)) = (unat i + 1) mod 2 ^ unat bits"
    unfolding kh_pow_def push_bit_one_minus_one by (rule unat_succ_and_mask) (rule assms)
  then show ?thesis using assms(2) by (simp add: cnext_def)
qed

lemma unat_kh_h2b_less:
  assumes "unat bits < 32"
  shows "unat (kh_h2b hash bits) < 2 ^ unat bits"
  using unat_drop_bit_32_minus_less [of bits "hash * 2654435769"] assms
  by (simp add: kh_h2b_def)

text \<open>Flag \<open>k\<close> of the bit array.\<close>

definition kus :: "khint list \<Rightarrow> nat \<Rightarrow> bool" where
  "kus flag k \<longleftrightarrow> bit (flag ! (k div 32)) (k mod 32)"

lemma unat_and_0x1f: "unat (i AND 0x1f :: khint) = unat i mod 32"
proof -
  have "(0x1f :: khint) = mask 5" by (simp add: mask_eq_exp_minus_1)
  then have "unat (i AND 0x1f) = take_bit 5 (unat i)"
    by (simp only: unsigned_take_bit_eq flip: take_bit_eq_mask)
  then show ?thesis by (simp add: take_bit_eq_mod)
qed

lemma unat_drop_bit_5: "unat (drop_bit 5 i :: khint) = unat i div 32"
  by (simp add: unat_drop_bit_eq drop_bit_eq_div [of _ "unat i"])

lemma kh_used_kus [simp]: "kh_used flag i \<longleftrightarrow> kus flag (unat i)"
  by (simp add: kh_used_def kus_def unat_and_0x1f unat_drop_bit_5 bit_iff_odd_drop_bit
      and_one_eq odd_iff_mod_2_eq_one)

lemma bit_flag_mask:
  "bit (push_bit (m mod 32) (1::khint)) (k mod 32) \<longleftrightarrow> k mod 32 = m mod 32"
  by (auto simp: bit_exp_iff)

lemma div_mod_32_eq: "k div 32 = m div 32 \<Longrightarrow> k mod 32 = m mod 32 \<Longrightarrow> k = (m::nat)"
  by (metis div_mult_mod_eq)

lemma kus_set_used [simp]:
  assumes "unat i div 32 < length flag"
  shows "kus (kh_set_used flag i) k \<longleftrightarrow> kus flag k \<or> k = unat i"
  using assms
  by (auto simp: kh_set_used_def kus_def unat_and_0x1f unat_drop_bit_5 nth_list_update
      bit_or_iff bit_flag_mask simp del: push_bit_of_1 dest: div_mod_32_eq)

lemma kus_set_unused [simp]:
  assumes "unat i div 32 < length flag"
  shows "kus (kh_set_unused flag i) k \<longleftrightarrow> kus flag k \<and> k \<noteq> unat i"
  using assms
  by (auto simp: kh_set_unused_def kus_def unat_and_0x1f unat_drop_bit_5 nth_list_update
      bit_and_iff bit_not_iff bit_flag_mask simp del: push_bit_of_1 dest: div_mod_32_eq)

lemma length_kh_set [simp]:
  "length (kh_set_used flag i) = length flag" "length (kh_set_unused flag i) = length flag"
  by (simp_all add: kh_set_used_def kh_set_unused_def)

lemma kus_replicate [simp]: "k div 32 < n \<Longrightarrow> \<not> kus (replicate n 0) k"
  by (simp add: kus_def)

lemma kh_fsize_enough:
  assumes "unat bits < 32" and "k < 2 ^ unat bits"
  shows "k div 32 < unat (kh_fsize (kh_pow bits))"
proof (cases "kh_pow bits < 32")
  case True
  then have "(2::nat) ^ unat bits < 32"
    using assms(1) by (simp add: word_less_nat_alt kh_word)
  with assms(2) True show ?thesis by (simp add: kh_fsize_def)
next
  case False
  then have "\<not> (2::nat) ^ unat bits < 2 ^ 5"
    using assms(1) by (simp add: word_less_nat_alt kh_word)
  then have "5 \<le> unat bits" by (simp only: power_strict_increasing_iff not_less)
  then have "(2::nat) ^ unat bits = 2 ^ (unat bits - 5) * 2 ^ 5"
    by (metis le_add_diff_inverse2 power_add)
  with False assms show ?thesis
    by (simp add: kh_fsize_def unat_drop_bit_5 kh_word less_mult_imp_div_less)
qed

subsection \<open>Well-formed tables and what they hold\<close>

text \<open>
  \<open>kh_home\<close> is the slot at which the probe for a bucket begins.  A table has no gaps when
  every slot on the way from a bucket's home to the bucket is in use.
\<close>

definition kh_home :: "('b \<Rightarrow> khint) \<Rightarrow> khint \<Rightarrow> 'b \<Rightarrow> nat" where
  "kh_home hf bits b = unat (kh_h2b (hf b) bits)"

definition kh_gapfree :: "nat \<Rightarrow> (nat \<Rightarrow> bool) \<Rightarrow> (nat \<Rightarrow> nat) \<Rightarrow> bool" where
  "kh_gapfree n U H \<longleftrightarrow> (\<forall>i<n. U i \<longrightarrow> (\<forall>x<n. on_path n (H i) x i \<longrightarrow> U x))"

lemma kh_gapfreeD: "kh_gapfree n U H \<Longrightarrow> i < n \<Longrightarrow> U i \<Longrightarrow> x < n \<Longrightarrow> on_path n (H i) x i \<Longrightarrow> U x"
  unfolding kh_gapfree_def by blast

definition kh_slots :: "nat \<Rightarrow> khint list \<Rightarrow> nat set" where
  "kh_slots n used = {i. i < n \<and> kus used i}"

definition kh_unique :: "('b \<Rightarrow> 'b \<Rightarrow> bool) \<Rightarrow> nat set \<Rightarrow> 'b list \<Rightarrow> bool" where
  "kh_unique eq S keys \<longleftrightarrow> (\<forall>i\<in>S. \<forall>j\<in>S. eq (keys ! i) (keys ! j) \<longrightarrow> i = j)"

definition kh_shape :: "'b khtab \<Rightarrow> bool" where
  "kh_shape h \<longleftrightarrow> 2 \<le> unat (kh_bits h) \<and> unat (kh_bits h) < 32
     \<and> length (kh_keys h) = 2 ^ unat (kh_bits h)
     \<and> length (kh_usedv h) = unat (kh_fsize (kh_pow (kh_bits h)))"

definition kh_wf :: "('b \<Rightarrow> khint) \<Rightarrow> ('b \<Rightarrow> 'b \<Rightarrow> bool) \<Rightarrow> 'b khtab \<Rightarrow> bool" where
  "kh_wf hf eq h \<longleftrightarrow>
     (kh_keys h = [] \<and> kh_usedv h = [] \<and> kh_count h = 0) \<or>
     (let n = 2 ^ unat (kh_bits h)
      in kh_shape h
         \<and> unat (kh_count h) = card (kh_slots n (kh_usedv h))
         \<and> unat (kh_count h) \<le> n div 2 + n div 4
         \<and> kh_gapfree n (kus (kh_usedv h)) (\<lambda>i. kh_home hf (kh_bits h) (kh_keys h ! i))
         \<and> kh_unique eq (kh_slots n (kh_usedv h)) (kh_keys h))"

definition kh_elems :: "'b khtab \<Rightarrow> 'b set" where
  "kh_elems h = (\<lambda>i. kh_keys h ! i) ` kh_slots (length (kh_keys h)) (kh_usedv h)"

lemma kh_shapeD:
  assumes "kh_shape h"
  shows "unat (kh_bits h) < 32" "2 \<le> unat (kh_bits h)" "kh_keys h \<noteq> []"
    "length (kh_keys h) = 2 ^ unat (kh_bits h)"
    "k < 2 ^ unat (kh_bits h) \<Longrightarrow> k div 32 < length (kh_usedv h)"
  using assms kh_fsize_enough [of "kh_bits h" k] by (auto simp: kh_shape_def)

lemma finite_kh_slots [simp]: "finite (kh_slots n used)"
  by (simp add: kh_slots_def)

lemma kh_slots_set_used:
  assumes "unat i < n" "unat i div 32 < length used"
  shows "kh_slots n (kh_set_used used i) = insert (unat i) (kh_slots n used)"
  using assms by (auto simp: kh_slots_def)

lemma kh_slots_set_unused:
  assumes "unat i div 32 < length used"
  shows "kh_slots n (kh_set_unused used i) = kh_slots n used - {unat i}"
  using assms by (auto simp: kh_slots_def)

lemma kh_free_slot:
  assumes "card (kh_slots n used) < n"
  obtains e where "e < n" "\<not> kus used e"
proof -
  have "kh_slots n used \<noteq> {..<n}" using assms by (metis card_lessThan less_irrefl)
  moreover have "kh_slots n used \<subseteq> {..<n}" by (auto simp: kh_slots_def)
  ultimately obtain e where "e \<in> {..<n}" "e \<notin> kh_slots n used" by blast
  then show thesis using that by (auto simp: kh_slots_def)
qed

lemma kh_wf_init [simp]: "kh_wf hf eq kh_init"
  by (simp add: kh_wf_def kh_init_def)

lemma kh_elems_init [simp]: "kh_elems kh_init = {}"
  by (simp add: kh_elems_def kh_init_def kh_slots_def)

lemma kh_wf_cases [consumes 1, case_names null table]:
  assumes "kh_wf hf eq h"
  obtains "kh_keys h = []" "kh_usedv h = []" "kh_count h = 0" "kh_elems h = {}"
  | "kh_shape h"
    "unat (kh_count h) = card (kh_slots (2 ^ unat (kh_bits h)) (kh_usedv h))"
    "unat (kh_count h) \<le> 2 ^ unat (kh_bits h) div 2 + 2 ^ unat (kh_bits h) div 4"
    "kh_gapfree (2 ^ unat (kh_bits h)) (kus (kh_usedv h))
       (\<lambda>i. kh_home hf (kh_bits h) (kh_keys h ! i))"
    "kh_unique eq (kh_slots (2 ^ unat (kh_bits h)) (kh_usedv h)) (kh_keys h)"
  using assms by (auto simp: kh_wf_def Let_def kh_elems_def kh_slots_def)

lemma kh_load_less:
  assumes "2 \<le> b"
  shows "(2::nat) ^ b div 2 + 2 ^ b div 4 < 2 ^ b"
proof -
  from assms obtain c where "b = c + 2" by (metis le_add_diff_inverse2)
  then show ?thesis by (simp add: power_add)
qed

lemma kh_wf_free_slot:
  assumes "kh_shape h" "unat (kh_count h) = card (kh_slots (2 ^ unat (kh_bits h)) (kh_usedv h))"
    "unat (kh_count h) \<le> 2 ^ unat (kh_bits h) div 2 + 2 ^ unat (kh_bits h) div 4"
  obtains e where "e < 2 ^ unat (kh_bits h)" "\<not> kus (kh_usedv h) e"
proof -
  have "card (kh_slots (2 ^ unat (kh_bits h)) (kh_usedv h)) < 2 ^ unat (kh_bits h)"
    using assms kh_load_less [of "unat (kh_bits h)"] by (simp add: kh_shape_def)
  then show thesis by (rule kh_free_slot) (rule that)
qed

subsection \<open>The probe loop\<close>

text \<open>What the probe for a key passes: used slots, none of them with an equal key.\<close>

definition kh_other :: "('b \<Rightarrow> 'b \<Rightarrow> bool) \<Rightarrow> 'b khtab \<Rightarrow> 'b \<Rightarrow> nat \<Rightarrow> bool" where
  "kh_other eq h key x \<longleftrightarrow> kus (kh_usedv h) x \<and> \<not> eq (kh_keys h ! x) key"

lemma kh_probe_result:
  assumes bits: "unat (kh_bits h) < 32" and free: "e < 2 ^ unat (kh_bits h)" "\<not> kus (kh_usedv h) e"
    and "unat i < 2 ^ unat (kh_bits h)"
    and "passed (2 ^ unat (kh_bits h)) (kh_other eq h key) (unat (kh_h2b hash (kh_bits h))) (unat i)"
  shows "\<exists>r. kh_probe eq h key hash i = (r, False) \<and> unat r < 2 ^ unat (kh_bits h)
     \<and> (kus (kh_usedv h) (unat r) \<longrightarrow> eq (kh_keys h ! unat r) key)
     \<and> passed (2 ^ unat (kh_bits h)) (kh_other eq h key) (unat (kh_h2b hash (kh_bits h))) (unat r)"
  using assms(4,5)
proof (induction "kh_left hash (kh_bits h) i" arbitrary: i rule: less_induct)
  case (less i)
  let ?i' = "(i + 1) AND (kh_pow (kh_bits h) - 1)" and ?p = "kh_h2b hash (kh_bits h)"
  have p: "unat ?p < 2 ^ unat (kh_bits h)" using bits by (rule unat_kh_h2b_less)
  have i': "unat ?i' = cnext (2 ^ unat (kh_bits h)) (unat i)"
    using bits less.prems(1) by (rule unat_kh_next)
  show ?case
  proof (cases "kus (kh_usedv h) (unat i) \<and> \<not> eq (kh_keys h ! unat i) key")
    case True
    have neq: "?i' \<noteq> ?p"
    proof
      assume "?i' = ?p"
      then have "kh_other eq h key e"
        using passed_all [OF less.prems(2) _ p less.prems(1) _ free(1)] True i'
        by (simp add: kh_other_def)
      with free(2) show False by (simp add: kh_other_def)
    qed
    have "passed (2 ^ unat (kh_bits h)) (kh_other eq h key) (unat ?p) (unat ?i')"
      unfolding i' using True less.prems p neq i'
      by (intro passed_next) (auto simp: word_unat_eq_iff kh_other_def)
    moreover have "unat ?i' < 2 ^ unat (kh_bits h)"
      unfolding i' using less.prems(1) by (rule cnext_less)
    ultimately show ?thesis
      using less.hyps [OF kh_probe_step_decreases [OF neq]] True neq
      by (simp add: kh_probe.simps [of eq h key hash i] Let_def)
  next
    case False
    then show ?thesis
      using less.prems by (auto simp: kh_probe.simps [of eq h key hash i] Let_def)
  qed
qed

text \<open>
  The contract a bucket type has to meet: equality of keys is an equivalence, and equal keys
  have equal hashes.
\<close>

locale kh_keying =
  fixes hf :: "'b \<Rightarrow> khint" and eq :: "'b \<Rightarrow> 'b \<Rightarrow> bool"
  assumes eq_refl: "eq b b"
    and eq_sym: "eq a b \<Longrightarrow> eq b a"
    and eq_trans: "eq a b \<Longrightarrow> eq b c \<Longrightarrow> eq a c"
    and eq_hash: "eq a b \<Longrightarrow> hf a = hf b"
begin

lemma elem_unique:
  assumes "kh_wf hf eq h" "a \<in> kh_elems h" "b \<in> kh_elems h" "eq a b"
  shows "a = b"
  using assms(1)
proof (cases rule: kh_wf_cases)
  case table
  note sh = kh_shapeD(4) [OF table(1)]
  from assms(2,3) obtain i j where "a = kh_keys h ! i" "b = kh_keys h ! j"
    "i \<in> kh_slots (2 ^ unat (kh_bits h)) (kh_usedv h)"
    "j \<in> kh_slots (2 ^ unat (kh_bits h)) (kh_usedv h)"
    by (auto simp: kh_elems_def sh)
  with table(5) assms(4) show ?thesis unfolding kh_unique_def by metis
qed (use assms in simp)

lemma probe_finds:
  assumes "kh_wf hf eq h" and "kh_shape h"
  obtains r where "kh_probe eq h key (hf key) (kh_h2b (hf key) (kh_bits h)) = (r, False)"
    "unat r < 2 ^ unat (kh_bits h)"
    "passed (2 ^ unat (kh_bits h)) (kh_other eq h key) (kh_home hf (kh_bits h) key) (unat r)"
    "kus (kh_usedv h) (unat r) \<longleftrightarrow> (\<exists>b\<in>kh_elems h. eq b key)"
    "kus (kh_usedv h) (unat r) \<longrightarrow> eq (kh_keys h ! unat r) key"
proof -
  let ?n = "2 ^ unat (kh_bits h)" and ?p = "kh_home hf (kh_bits h) key"
  note sh = kh_shapeD [OF assms(2)]
  from assms have wf: "unat (kh_count h) = card (kh_slots ?n (kh_usedv h))"
    "unat (kh_count h) \<le> ?n div 2 + ?n div 4"
    "kh_gapfree ?n (kus (kh_usedv h)) (\<lambda>i. kh_home hf (kh_bits h) (kh_keys h ! i))"
    by (auto elim!: kh_wf_cases simp: sh(3))
  obtain e where e: "e < ?n" "\<not> kus (kh_usedv h) e"
    using assms(2) wf(1,2) by (rule kh_wf_free_slot)
  have p: "?p < ?n" unfolding kh_home_def using sh(1) by (rule unat_kh_h2b_less)
  obtain r where r: "kh_probe eq h key (hf key) (kh_h2b (hf key) (kh_bits h)) = (r, False)"
    "unat r < ?n" "kus (kh_usedv h) (unat r) \<Longrightarrow> eq (kh_keys h ! unat r) key"
    "passed (2 ^ unat (kh_bits h)) (kh_other eq h key) ?p (unat r)"
    using kh_probe_result [OF sh(1) e, of "kh_h2b (hf key) (kh_bits h)" eq key "hf key"]
      passed_start [OF p] p by (auto simp: kh_home_def)
  have "kus (kh_usedv h) (unat r)" if "b \<in> kh_elems h" "eq b key" for b
  proof (rule ccontr)
    assume free: "\<not> kus (kh_usedv h) (unat r)"
    from that(1) obtain s where s: "s < ?n" "kus (kh_usedv h) s" "b = kh_keys h ! s"
      by (auto simp: kh_elems_def kh_slots_def sh(4))
    have "kh_home hf (kh_bits h) (kh_keys h ! s) = ?p"
      using that(2) s(3) by (simp add: kh_home_def eq_hash)
    then have "\<not> on_path ?n ?p (unat r) s"
      using wf(3) s(1,2) r(2) free unfolding kh_gapfree_def by metis
    then have "on_path ?n ?p s (unat r)" "s \<noteq> unat r" by (auto simp: on_path_def)
    then show False using passedD [OF r(4) s(1)] s that(2) by (auto simp: kh_other_def)
  qed
  moreover have "\<exists>b\<in>kh_elems h. eq b key" if "kus (kh_usedv h) (unat r)"
    using that r(2,3) by (auto simp: kh_elems_def kh_slots_def sh(4))
  ultimately show thesis using that r by blast
qed

lemma getp_correct:
  assumes "kh_wf hf eq h"
  shows "if \<exists>b\<in>kh_elems h. eq b key
         then kh_getp hf eq h key < kh_end h \<and> kh_exist h (kh_getp hf eq h key)
           \<and> kh_bucket h (kh_getp hf eq h key) \<in> kh_elems h
           \<and> eq (kh_bucket h (kh_getp hf eq h key)) key
         else kh_getp hf eq h key = kh_end h"
  using assms
proof (cases rule: kh_wf_cases)
  case null
  then show ?thesis by (simp add: kh_getp_def kh_getp_core_def kh_end_def kh_capacity_def)
next
  case table
  note sh = kh_shapeD [OF table(1)]
  obtain r where r: "kh_probe eq h key (hf key) (kh_h2b (hf key) (kh_bits h)) = (r, False)"
    "unat r < 2 ^ unat (kh_bits h)"
    "passed (2 ^ unat (kh_bits h)) (kh_other eq h key) (kh_home hf (kh_bits h) key) (unat r)"
    "kus (kh_usedv h) (unat r) \<longleftrightarrow> (\<exists>b\<in>kh_elems h. eq b key)"
    "kus (kh_usedv h) (unat r) \<longrightarrow> eq (kh_keys h ! unat r) key"
    using assms table(1) by (rule probe_finds)
  have lt: "r < kh_pow (kh_bits h)" using r(2) sh(1) by (simp add: word_less_nat_alt kh_word)
  have get: "kh_getp hf eq h key =
      (if kus (kh_usedv h) (unat r) then r else kh_pow (kh_bits h))"
    using sh(3) r(1) by (simp add: kh_getp_def kh_getp_core_def)
  show ?thesis
    unfolding r(4) [symmetric] using lt r(2,5) sh(3,4)
    by (auto simp: get kh_end_def kh_capacity_def kh_exist_def kh_bucket_def kh_elems_def
        kh_slots_def)
qed

end

end
