(* ===== verification/Khashl_Resize.thy ===== *)
theory Khashl_Resize
  imports Khashl_Correct
begin

text \<open>
  The resize of the hash table: the size it chooses, and that the in-place rehash ends and
  keeps the buckets, whether the table grows, shrinks or stays.
\<close>

subsection \<open>The size chosen\<close>

lemma kh_log2_bounds:
  assumes "x \<noteq> 0"
  shows "\<exists>e. kh_log2 x j = j + of_nat e \<and> 2 ^ e \<le> unat x \<and> unat x < 2 ^ Suc e"
  using assms
proof (induction x j rule: kh_log2.induct)
  case (1 x j)
  have half: "unat (drop_bit 1 x) = unat x div 2"
    by (simp add: unat_drop_bit_eq drop_bit_eq_div [of _ "unat x"])
  show ?case
  proof (cases "drop_bit 1 x = 0")
    case True
    then have "unat x div 2 = 0" using half by simp
    moreover have "0 < unat x" using "1.prems" by (simp add: unat_gt_0)
    ultimately have "unat x = 1" by linarith
    then show ?thesis using True by (intro exI [of _ 0]) (simp add: kh_log2.simps [of x] Let_def)
  next
    case False
    then obtain e where e: "kh_log2 (drop_bit 1 x) (j + 1) = j + 1 + of_nat e"
      "2 ^ e \<le> unat x div 2" "unat x div 2 < 2 ^ Suc e"
      using "1.IH" [OF refl False False] unfolding half by blast
    show ?thesis
      using e False by (intro exI [of _ "Suc e"]) (auto simp: kh_log2.simps [of x] Let_def)
  qed
qed

lemma kh_new_bits_bounds:
  assumes "m \<noteq> 0"
  shows "2 \<le> unat (kh_new_bits m)" and "unat m \<le> 2 ^ unat (kh_new_bits m)"
    and "unat (kh_new_bits m) = 2 \<or> 2 ^ (unat (kh_new_bits m) - 1) < unat m"
    and "unat m \<le> 2 ^ 31 \<Longrightarrow> unat (kh_new_bits m) < 32"
proof -
  obtain e where e: "kh_log2 m 0 = of_nat e" "2 ^ e \<le> unat m" "unat m < 2 ^ Suc e"
    using kh_log2_bounds [OF assms, of 0] by auto
  have "(2::nat) ^ e < 2 ^ 32" using e(2) unat_less_32 [of m] by (rule le_less_trans)
  then have e32: "e < 32" by (simp only: power_strict_increasing_iff)
  let ?e = "if unat m = 2 ^ e then e else Suc e"
  have "unat (of_nat e :: khint) = e" "unat (of_nat e + 1 :: khint) = Suc e"
    using e32 by (simp_all add: unat_of_nat unat_word_ariths)
  then have nb: "unat (kh_new_bits m) = (if ?e > 2 then ?e else 2)"
    by (simp add: kh_new_bits_def e(1) and_pred_eq_0_iff [OF e(2,3)] Let_def word_less_nat_alt)
  show "2 \<le> unat (kh_new_bits m)" by (simp add: nb)
  show "unat (kh_new_bits m) = 2 \<or> 2 ^ (unat (kh_new_bits m) - 1) < unat m"
    using e(2,3) by (auto simp: nb less_le)
  have "unat m \<le> 2 ^ ?e" using e(3) by simp
  also have "\<dots> \<le> 2 ^ unat (kh_new_bits m)" by (intro power_increasing) (auto simp: nb)
  finally show "unat m \<le> 2 ^ unat (kh_new_bits m)" .
  assume m: "unat m \<le> 2 ^ 31"
  show "unat (kh_new_bits m) < 32"
  proof (cases "e = 31")
    case True
    then show ?thesis using m e(2) by (simp add: nb)
  qed (use e32 in \<open>auto simp: nb\<close>)
qed

lemma unat_load:
  assumes "unat bits < 32"
  shows "unat (drop_bit 1 (kh_pow bits) + drop_bit 2 (kh_pow bits)) =
           2 ^ unat bits div 2 + 2 ^ unat bits div 4"
proof -
  have d: "unat (drop_bit 1 (kh_pow bits)) = 2 ^ unat bits div 2"
    "unat (drop_bit 2 (kh_pow bits)) = 2 ^ unat bits div 4"
    using assms by (simp_all add: unat_drop_bit_eq drop_bit_eq_div [where 'a = nat] kh_word)
  have "(2::nat) ^ unat bits div 2 + 2 ^ unat bits div 4 \<le> 2 ^ unat bits" by simp
  also have "\<dots> < 2 ^ 32" using assms by (rule two_power_less_32)
  finally show ?thesis by (subst unat_word_ariths) (simp only: d, simp)
qed

subsection \<open>Searching a free slot\<close>

lemma kh_find_free_result:
  assumes bits: "unat bits < 32" and free: "e < 2 ^ unat bits" "\<not> kus used e"
    and p: "p < 2 ^ unat bits" and "unat i < 2 ^ unat bits"
    and "passed (2 ^ unat bits) (kus used) p (unat i)"
  shows "\<exists>r. kh_find_free used (kh_pow bits - 1) i = Some r \<and> unat r < 2 ^ unat bits
     \<and> \<not> kus used (unat r) \<and> passed (2 ^ unat bits) (kus used) p (unat r)"
  using assms(5,6)
proof (induction "cdist (2 ^ unat bits) (unat i) e" arbitrary: i rule: less_induct)
  case (less i)
  let ?n = "2 ^ unat bits :: nat" and ?i' = "(i + 1) AND (kh_pow bits - 1)"
  have i': "unat ?i' = cnext ?n (unat i)" using bits less.prems(1) by (rule unat_kh_next)
  show ?case
  proof (cases "kus used (unat i)")
    case True
    then have "unat i \<noteq> e" using free(2) by auto
    then have dec: "cdist ?n (unat ?i') e < cdist ?n (unat i) e"
      unfolding i' using less.prems(1) free(1) by (auto simp: circ)
    have "cnext ?n (unat i) \<noteq> p"
      using passed_all [OF less.prems(2) True p less.prems(1) _ free(1)] free(2) by blast
    then have "passed ?n (kus used) p (unat ?i')"
      unfolding i' using less.prems True p by (intro passed_next)
    moreover have "unat ?i' < ?n" unfolding i' using less.prems(1) by (rule cnext_less)
    ultimately show ?thesis
      using less.hyps [OF dec] True by (simp add: kh_find_free.simps [of used _ i])
  next
    case False
    then show ?thesis using less.prems by (simp add: kh_find_free.simps [of used _ i])
  qed
qed

subsection \<open>The rehash\<close>

text \<open>
  During a rehash, the bucket array holds in disjoint slots the buckets of the old table that
  wait and those of the new table that have been placed; one more bucket may be in hand.
\<close>

definition kh_rehash_inv ::
  "('b \<Rightarrow> khint) \<Rightarrow> ('b \<Rightarrow> 'b \<Rightarrow> bool) \<Rightarrow> nat \<Rightarrow> khint \<Rightarrow> 'b set \<Rightarrow> nat \<Rightarrow> 'b option
     \<Rightarrow> khint list \<Rightarrow> 'b list \<Rightarrow> khint list \<Rightarrow> bool"
where
  "kh_rehash_inv hf eq n bits S c hand used keys new_used \<longleftrightarrow>
     (let N = 2 ^ unat bits; P = kh_slots n used; Q = kh_slots N new_used
      in N \<le> length keys \<and> n \<le> length keys
       \<and> (\<forall>k<n. k div 32 < length used) \<and> length new_used = unat (kh_fsize (kh_pow bits))
       \<and> P \<inter> Q = {}
       \<and> (!) keys ` (P \<union> Q) \<union> set_option hand = S
       \<and> kh_unique eq (P \<union> Q) keys
       \<and> (\<forall>b\<in>set_option hand. \<forall>i\<in>P \<union> Q. \<not> eq (keys ! i) b)
       \<and> kh_gapfree N (kus new_used) (\<lambda>i. kh_home hf bits (keys ! i))
       \<and> card P + card Q + card (set_option hand) = c)"

lemma image_nth_update: "i \<notin> A \<Longrightarrow> (!) (xs[i := x]) ` A = (!) xs ` A"
  by (rule image_cong) (auto, metis nth_list_update_neq)

lemma kh_unique_update:
  assumes "kh_unique eq (A - {i}) keys" "\<forall>j\<in>A - {i}. \<not> eq (keys ! j) b \<and> \<not> eq b (keys ! j)"
    "i < length keys"
  shows "kh_unique eq (insert i A) (keys[i := b])"
  using assms by (auto simp: kh_unique_def nth_list_update)

lemma kh_gapfree_insert:
  assumes "kh_gapfree n U (\<lambda>x. H (keys ! x))" "i < n" "\<not> U i" "passed n U (H b) i" "i < length keys"
    "\<And>x. U' x \<longleftrightarrow> U x \<or> x = i"
  shows "kh_gapfree n U' (\<lambda>x. H (keys[i := b] ! x))"
  unfolding kh_gapfree_def
proof (intro allI impI)
  fix y x assume y: "y < n" "U' y" and x: "x < n" "on_path n (H (keys[i := b] ! y)) x y"
  show "U' x"
  proof (cases "y = i")
    case True
    then show ?thesis using x assms(4,5,6) by (auto dest: passedD)
  next
    case False
    then have "U y" "keys[i := b] ! y = keys ! y" using y(2) assms(6) by simp_all
    then have "U x" using x y(1) kh_gapfreeD [OF assms(1), of y x] by simp
    then show ?thesis by (simp add: assms(6))
  qed
qed


context kh_keying
begin

lemma kick_step:
  assumes inv: "kh_rehash_inv hf eq n bits S c (Some key) used keys new_used"
    and bits: "unat bits < 32" and c: "c < 2 ^ unat bits"
  obtains i where
    "kh_find_free new_used (kh_pow bits - 1) (kh_h2b (hf key) bits) = Some i"
    "kh_slots (2 ^ unat bits) (kh_set_used new_used i) =
       insert (unat i) (kh_slots (2 ^ unat bits) new_used)"
    "unat i \<notin> kh_slots (2 ^ unat bits) new_used" "unat i < 2 ^ unat bits" "unat i < length keys"
    "kh_gapfree (2 ^ unat bits) (kus (kh_set_used new_used i))
       (\<lambda>x. kh_home hf bits (keys[unat i := key] ! x))"
proof -
  let ?N = "2 ^ unat bits :: nat"
  from inv have len: "?N \<le> length keys" "length new_used = unat (kh_fsize (kh_pow bits))"
    and gap: "kh_gapfree ?N (kus new_used) (\<lambda>i. kh_home hf bits (keys ! i))"
    and card: "card (kh_slots ?N new_used) < ?N"
    using c by (auto simp: kh_rehash_inv_def Let_def)
  from card obtain e where e: "e < ?N" "\<not> kus new_used e" by (rule kh_free_slot)
  have p: "kh_home hf bits key < ?N"
    unfolding kh_home_def using bits by (rule unat_kh_h2b_less)
  obtain i where i: "kh_find_free new_used (kh_pow bits - 1) (kh_h2b (hf key) bits) = Some i"
    "unat i < ?N" "\<not> kus new_used (unat i)" "passed ?N (kus new_used) (kh_home hf bits key) (unat i)"
    using kh_find_free_result [OF bits e p, of "kh_h2b (hf key) bits"] passed_start [OF p] p
    by (auto simp: kh_home_def)
  have w: "unat i div 32 < length new_used"
    unfolding len(2) using bits i(2) by (rule kh_fsize_enough)
  show thesis
  proof (rule that [OF i(1)])
    show "kh_gapfree ?N (kus (kh_set_used new_used i)) (\<lambda>x. kh_home hf bits (keys[unat i := key] ! x))"
      using gap i(2,3,4) len(1) w by (intro kh_gapfree_insert [where U = "kus new_used"]) auto
  qed (use i(2,3) len(1) w in \<open>auto simp: kh_slots_set_used kh_slots_def\<close>)
qed

lemma not_eq_sym: "\<not> eq a b \<Longrightarrow> \<not> eq b a"
  using eq_sym by blast

lemma kick_swap:
  assumes inv: "kh_rehash_inv hf eq n bits S c (Some key) used keys new_used"
    and Q: "kh_slots (2 ^ unat bits) (kh_set_used new_used i) =
       insert (unat i) (kh_slots (2 ^ unat bits) new_used)"
      "unat i \<notin> kh_slots (2 ^ unat bits) new_used" "unat i < length keys"
    and gap: "kh_gapfree (2 ^ unat bits) (kus (kh_set_used new_used i))
       (\<lambda>x. kh_home hf bits (keys[unat i := key] ! x))"
    and P: "unat i \<in> kh_slots n used"
  shows "kh_rehash_inv hf eq n bits S c (Some (keys ! unat i)) (kh_set_unused used i)
           (keys[unat i := key]) (kh_set_used new_used i)"
proof -
  let ?P = "kh_slots n used" and ?Q = "kh_slots (2 ^ unat bits) new_used"
  have w: "unat i div 32 < length used"
    using inv P by (auto simp: kh_rehash_inv_def Let_def kh_slots_def)
  have P': "kh_slots n (kh_set_unused used i) = ?P - {unat i}"
    using w by (rule kh_slots_set_unused)
  have U: "?P - {unat i} \<union> insert (unat i) ?Q = insert (unat i) (?P \<union> ?Q)" by auto
  have un: "kh_unique eq (?P \<union> ?Q) keys" and nk: "\<forall>j\<in>?P \<union> ?Q. \<not> eq (keys ! j) key"
    and S: "(!) keys ` (?P \<union> ?Q) \<union> {key} = S" and dj: "?P \<inter> ?Q = {}"
    and c: "card ?P + card ?Q + 1 = c"
    using inv by (auto simp: kh_rehash_inv_def Let_def)
  have im: "(!) (keys[unat i := key]) ` insert (unat i) (?P \<union> ?Q) \<union> {keys ! unat i} = S"
  proof -
    have "?P \<union> ?Q = insert (unat i) (?P \<union> ?Q - {unat i})" using P by auto
    then have "(!) keys ` (?P \<union> ?Q) = insert (keys ! unat i) ((!) keys ` (?P \<union> ?Q - {unat i}))"
      by (metis image_insert)
    with S have split: "S = insert key (insert (keys ! unat i) ((!) keys ` (?P \<union> ?Q - {unat i})))"
      by simp
    have img: "(!) (keys[unat i := key]) ` insert (unat i) (?P \<union> ?Q - {unat i})
        = insert key ((!) keys ` (?P \<union> ?Q - {unat i}))"
      using Q(3) image_nth_update [of "unat i" "?P \<union> ?Q - {unat i}" keys key]
      by (simp only: image_insert) simp
    have "insert (unat i) (?P \<union> ?Q) = insert (unat i) (?P \<union> ?Q - {unat i})" by simp
    then show ?thesis using img split by (simp only: Un_insert_left Un_insert_right insert_commute sup_bot_right)
  qed
  have "kh_unique eq (insert (unat i) (?P \<union> ?Q)) (keys[unat i := key])"
    using un nk Q(3) by (intro kh_unique_update) (auto simp: kh_unique_def dest: eq_sym)
  moreover have "\<not> eq (keys[unat i := key] ! j) (keys ! unat i)" if "j \<in> insert (unat i) (?P \<union> ?Q)" for j
    using that un nk P Q(3)
    by (auto simp: kh_unique_def nth_list_update dest: eq_sym)
  moreover have "card (?P - {unat i}) + card (insert (unat i) ?Q) + 1 = c"
    using c P Q(2) card_Suc_Diff1 [OF _ P] by simp
  ultimately show ?thesis
    using inv gap im dj Q(2) unfolding kh_rehash_inv_def Let_def P' Q(1) U by auto
qed

lemma kick_place:
  assumes inv: "kh_rehash_inv hf eq n bits S c (Some key) used keys new_used"
    and Q: "kh_slots (2 ^ unat bits) (kh_set_used new_used i) =
       insert (unat i) (kh_slots (2 ^ unat bits) new_used)"
      "unat i \<notin> kh_slots (2 ^ unat bits) new_used" "unat i < length keys"
    and gap: "kh_gapfree (2 ^ unat bits) (kus (kh_set_used new_used i))
       (\<lambda>x. kh_home hf bits (keys[unat i := key] ! x))"
    and P: "unat i \<notin> kh_slots n used"
  shows "kh_rehash_inv hf eq n bits S c None used (keys[unat i := key]) (kh_set_used new_used i)"
proof -
  let ?P = "kh_slots n used" and ?Q = "kh_slots (2 ^ unat bits) new_used"
  have U: "?P \<union> insert (unat i) ?Q = insert (unat i) (?P \<union> ?Q)" by auto
  have un: "kh_unique eq (?P \<union> ?Q) keys" and nk: "\<forall>j\<in>?P \<union> ?Q. \<not> eq (keys ! j) key"
    and S: "(!) keys ` (?P \<union> ?Q) \<union> {key} = S" and dj: "?P \<inter> ?Q = {}"
    and c: "card ?P + card ?Q + 1 = c"
    using inv by (auto simp: kh_rehash_inv_def Let_def)
  have "kh_unique eq (insert (unat i) (?P \<union> ?Q)) (keys[unat i := key])"
    using un nk Q(3) by (intro kh_unique_update) (auto simp: kh_unique_def dest: eq_sym)
  moreover have "(!) (keys[unat i := key]) ` insert (unat i) (?P \<union> ?Q) = S"
    using S P Q(2,3) image_nth_update [of "unat i" "?P \<union> ?Q" keys key] by simp
  moreover have "card ?P + card (insert (unat i) ?Q) = c"
    using c Q(2) by simp
  ultimately show ?thesis
    using inv gap dj Q(2) P unfolding kh_rehash_inv_def Let_def Q(1) U by auto
qed

lemma kick_correct:
  assumes "kh_rehash_inv hf eq (unat n) bits S c (Some key) used keys new_used"
    and bits: "unat bits < 32" and c: "c < 2 ^ unat bits"
  shows "\<exists>used' keys' new_used'.
      kh_kick hf bits n key used keys new_used = Some (used', keys', new_used')
      \<and> kh_rehash_inv hf eq (unat n) bits S c None used' keys' new_used'
      \<and> length keys' = length keys \<and> kh_slots (unat n) used' \<subseteq> kh_slots (unat n) used"
  using assms(1)
proof (induction "card (kh_slots (unat n) used)" arbitrary: key used keys new_used rule: less_induct)
  case less
  obtain i where i: "kh_find_free new_used (kh_pow bits - 1) (kh_h2b (hf key) bits) = Some i"
    "kh_slots (2 ^ unat bits) (kh_set_used new_used i) =
       insert (unat i) (kh_slots (2 ^ unat bits) new_used)"
    "unat i \<notin> kh_slots (2 ^ unat bits) new_used" "unat i < 2 ^ unat bits" "unat i < length keys"
    "kh_gapfree (2 ^ unat bits) (kus (kh_set_used new_used i))
       (\<lambda>x. kh_home hf bits (keys[unat i := key] ! x))"
    using less.prems bits c by (rule kick_step)
  note unfold = kh_kick.simps [of hf bits n key used keys new_used]
  show ?case
  proof (cases "unat i \<in> kh_slots (unat n) used")
    case True
    then have cond: "i < n" "kus used (unat i)" by (auto simp: kh_slots_def word_less_nat_alt)
    have inv: "kh_rehash_inv hf eq (unat n) bits S c (Some (keys ! unat i)) (kh_set_unused used i)
           (keys[unat i := key]) (kh_set_used new_used i)"
      by (rule kick_swap) fact+
    have w: "unat i div 32 < length used"
      using less.prems True by (auto simp: kh_rehash_inv_def Let_def kh_slots_def)
    have P': "kh_slots (unat n) (kh_set_unused used i) = kh_slots (unat n) used - {unat i}"
      using w by (rule kh_slots_set_unused)
    have "card (kh_slots (unat n) (kh_set_unused used i)) < card (kh_slots (unat n) used)"
      unfolding P' using True by (intro card_Diff1_less) auto
    from less.hyps [OF this inv] show ?thesis
      unfolding unfold P' using i(1) cond by auto
  next
    case False
    then have cond: "\<not> (i < n \<and> kus used (unat i))" by (auto simp: kh_slots_def word_less_nat_alt)
    have "kh_rehash_inv hf eq (unat n) bits S c None used (keys[unat i := key]) (kh_set_used new_used i)"
      by (rule kick_place) fact+
    then show ?thesis unfolding unfold using i(1) cond by auto
  qed
qed

lemma rehash_pull:
  assumes inv: "kh_rehash_inv hf eq n bits S c None used keys new_used" and j: "unat j \<in> kh_slots n used"
  shows "kh_rehash_inv hf eq n bits S c (Some (keys ! unat j)) (kh_set_unused used j) keys new_used"
proof -
  let ?P = "kh_slots n used" and ?Q = "kh_slots (2 ^ unat bits) new_used"
  have w: "unat j div 32 < length used"
    using inv j by (auto simp: kh_rehash_inv_def Let_def kh_slots_def)
  have P': "kh_slots n (kh_set_unused used j) = ?P - {unat j}"
    using w by (rule kh_slots_set_unused)
  have un: "kh_unique eq (?P \<union> ?Q) keys" and S: "(!) keys ` (?P \<union> ?Q) = S"
    and dj: "?P \<inter> ?Q = {}" and c: "card ?P + card ?Q = c"
    using inv by (auto simp: kh_rehash_inv_def Let_def)
  have "?P - {unat j} \<union> ?Q = ?P \<union> ?Q - {unat j}" using dj j by auto
  moreover have "(!) keys ` (?P \<union> ?Q - {unat j}) \<union> {keys ! unat j} = S"
    using S j by (metis Un_insert_right sup_bot_right image_insert insert_Diff UnI1)
  moreover have "kh_unique eq (?P \<union> ?Q - {unat j}) keys" using un by (auto simp: kh_unique_def)
  moreover have "\<forall>i\<in>?P \<union> ?Q - {unat j}. \<not> eq (keys ! i) (keys ! unat j)"
    using un j unfolding kh_unique_def by blast
  moreover have "card (?P - {unat j}) + card ?Q + 1 = c"
    using c card_Suc_Diff1 [OF _ j] by simp
  ultimately show ?thesis
    using inv dj unfolding kh_rehash_inv_def Let_def P' by auto
qed

lemma rehash_correct:
  assumes "kh_rehash_inv hf eq (unat n) bits S c None used keys new_used"
    and bits: "unat bits < 32" and c: "c < 2 ^ unat bits"
    and "j \<le> n" and "\<forall>k\<in>kh_slots (unat n) used. unat j \<le> k"
  shows "\<exists>used' keys' new_used'.
      kh_rehash hf bits n j used keys new_used = Some (used', keys', new_used')
      \<and> kh_rehash_inv hf eq (unat n) bits S c None used' keys' new_used'
      \<and> length keys' = length keys \<and> kh_slots (unat n) used' = {}"
  using assms(1,4,5)
proof (induction "unat n - unat j" arbitrary: j used keys new_used rule: less_induct)
  case less
  note unfold = kh_rehash.simps [of hf bits n j used keys new_used]
  show ?case
  proof (cases "j = n")
    case True
    then have "kh_slots (unat n) used = {}" using less.prems(3) by (auto simp: kh_slots_def)
    then show ?thesis unfolding unfold using True less.prems(1) by auto
  next
    case False
    then have "j < n" using less.prems(2) by simp
    then have j1: "unat (j + 1) = Suc (unat j)" "unat j < unat n"
      by (simp_all add: unat_succ word_less_nat_alt)
    then have le: "j + 1 \<le> n" "unat n - unat (j + 1) < unat n - unat j"
      by (simp_all add: word_le_nat_alt)
    show ?thesis
    proof (cases "kus used (unat j)")
      case True
      then have mem: "unat j \<in> kh_slots (unat n) used" using j1(2) by (simp add: kh_slots_def)
      have w: "unat j div 32 < length used"
        using less.prems(1) mem by (auto simp: kh_rehash_inv_def Let_def kh_slots_def)
      obtain used' keys' new_used' where k:
        "kh_kick hf bits n (keys ! unat j) (kh_set_unused used j) keys new_used =
           Some (used', keys', new_used')"
        "kh_rehash_inv hf eq (unat n) bits S c None used' keys' new_used'"
        "length keys' = length keys"
        "kh_slots (unat n) used' \<subseteq> kh_slots (unat n) (kh_set_unused used j)"
        using kick_correct [OF rehash_pull [OF less.prems(1) mem] bits c] by blast
      have "\<forall>x\<in>kh_slots (unat n) used'. unat (j + 1) \<le> x"
        using k(4) less.prems(3) unfolding kh_slots_set_unused [OF w] j1(1) by fastforce
      from less.hyps [OF le(2) k(2) le(1) this] k(1,3) show ?thesis
        unfolding unfold using False True by auto
    next
      case unused: False
      then have "\<forall>x\<in>kh_slots (unat n) used. unat (j + 1) \<le> x"
        using less.prems(3) unfolding j1(1) by (auto simp: kh_slots_def) (metis le_antisym not_less_eq_eq)
      from less.hyps [OF le(2) less.prems(1) le(1) this] show ?thesis
        unfolding unfold using False unused by auto
    qed
  qed
qed

lemma rehash_start:
  assumes wf: "kh_wf hf eq h"
    and len: "2 ^ unat bits \<le> length keys" "length (kh_keys h) \<le> length keys"
      "\<And>i. i < length (kh_keys h) \<Longrightarrow> keys ! i = kh_keys h ! i"
    and bits: "unat bits < 32"
  shows "kh_rehash_inv hf eq (length (kh_keys h)) bits (kh_elems h) (unat (kh_count h)) None
           (kh_usedv h) keys (replicate (unat (kh_fsize (kh_pow bits))) 0)"
proof -
  let ?P = "kh_slots (length (kh_keys h)) (kh_usedv h)" and ?N = "2 ^ unat bits :: nat"
  let ?new = "replicate (unat (kh_fsize (kh_pow bits))) 0 :: khint list"
  have new: "\<not> kus ?new k" if "k < ?N" for k
    using kh_fsize_enough [OF bits that] by simp
  then have Q: "kh_slots ?N ?new = {}" by (auto simp: kh_slots_def)
  have gap: "kh_gapfree ?N (kus ?new) H" for H using new by (auto simp: kh_gapfree_def)
  have P: "(\<forall>k<length (kh_keys h). k div 32 < length (kh_usedv h)) \<and> kh_unique eq ?P (kh_keys h)
      \<and> card ?P = unat (kh_count h)"
    using wf
  proof (cases rule: kh_wf_cases)
    case table
    then show ?thesis using kh_shapeD(4,5) [OF table(1)] by auto
  qed (simp_all add: kh_slots_def kh_unique_def)
  have "(!) keys ` ?P = kh_elems h"
    unfolding kh_elems_def by (rule image_cong) (auto simp: kh_slots_def len(3))
  moreover have "kh_unique eq ?P keys"
    using P len(3) by (auto simp: kh_unique_def kh_slots_def)
  ultimately show ?thesis
    using P len(1,2) gap by (auto simp: kh_rehash_inv_def Let_def Q)
qed

lemma rehash_end:
  assumes inv: "kh_rehash_inv hf eq n bits S (unat c) None used keys new_used"
    and P: "kh_slots n used = {}" and bits: "2 \<le> unat bits" "unat bits < 32"
    and c: "unat c \<le> 2 ^ unat bits div 2 + 2 ^ unat bits div 4"
    and keys': "length keys' = 2 ^ unat bits" "\<And>i. i < 2 ^ unat bits \<Longrightarrow> keys' ! i = keys ! i"
  shows "kh_wf hf eq \<lparr>kh_bits = bits, kh_count = c, kh_usedv = new_used, kh_keys = keys'\<rparr>"
    and "kh_elems \<lparr>kh_bits = bits, kh_count = c, kh_usedv = new_used, kh_keys = keys'\<rparr> = S"
proof -
  let ?N = "2 ^ unat bits :: nat"
  let ?Q = "kh_slots ?N new_used"
  have inv': "length new_used = unat (kh_fsize (kh_pow bits))" "(!) keys ` ?Q = S"
    "kh_unique eq ?Q keys" "kh_gapfree ?N (kus new_used) (\<lambda>i. kh_home hf bits (keys ! i))"
    "card ?Q = unat c"
    using inv by (auto simp: kh_rehash_inv_def Let_def P)
  have "kh_gapfree ?N (kus new_used) (\<lambda>i. kh_home hf bits (keys' ! i))"
    using inv'(4) keys'(2) by (simp add: kh_gapfree_def)
  moreover have "kh_unique eq ?Q keys'"
    using inv'(3) keys'(2) by (auto simp: kh_unique_def kh_slots_def)
  ultimately show "kh_wf hf eq \<lparr>kh_bits = bits, kh_count = c, kh_usedv = new_used, kh_keys = keys'\<rparr>"
    using inv' bits c keys'(1) by (simp add: kh_wf_def Let_def kh_shape_def)
  have "(!) keys' ` ?Q = (!) keys ` ?Q"
    by (rule image_cong) (auto simp: kh_slots_def keys'(2))
  then show "kh_elems \<lparr>kh_bits = bits, kh_count = c, kh_usedv = new_used, kh_keys = keys'\<rparr> = S"
    using inv'(2) keys'(1) by (simp add: kh_elems_def)
qed

lemma capacity_length: "kh_wf hf eq h \<Longrightarrow> unat (kh_capacity h) = length (kh_keys h)"
  by (erule kh_wf_cases) (auto simp: kh_capacity_def kh_word kh_shape_def)

lemma length_xreallocarray [simp]: "length (xreallocarray junk xs n) = n"
  by (simp add: xreallocarray_def)

lemma nth_xreallocarray: "i < n \<Longrightarrow> i < length xs \<Longrightarrow> xreallocarray junk xs n ! i = xs ! i"
  by (simp add: xreallocarray_def nth_append)

lemma resize_correct:
  fixes h :: "'b khtab"
  defines "load \<equiv> \<lambda>b :: khint. (2::nat) ^ unat b div 2 + 2 ^ unat b div 4"
  assumes wf: "kh_wf hf eq h" and m: "m \<noteq> 0" "unat m \<le> 2 ^ 31"
  shows "\<exists>h'. kh_resize hf junk h m = Some h' \<and> kh_wf hf eq h' \<and> kh_elems h' = kh_elems h
     \<and> kh_count h' = kh_count h
     \<and> (if unat (kh_count h) \<le> load (kh_new_bits m)
        then kh_shape h' \<and> kh_bits h' = kh_new_bits m else h' = h)"
proof -
  define b where "b = kh_new_bits m"
  have b: "2 \<le> unat b" "unat b < 32" using kh_new_bits_bounds [OF m(1)] m(2) by (auto simp: b_def)
  have guard: "kh_count h > drop_bit 1 (kh_pow b) + drop_bit 2 (kh_pow b) \<longleftrightarrow> \<not> unat (kh_count h) \<le> load b"
    unfolding word_less_nat_alt unat_load [OF b(2)] load_def by (simp add: not_le)
  show ?thesis
  proof (cases "unat (kh_count h) \<le> load b")
    case False
    then show ?thesis using guard wf by (auto simp: kh_resize_def Let_def b_def)
  next
    case True
    define n where "n = kh_capacity h"
    define keys where "keys = (if n < kh_pow b then xreallocarray junk (kh_keys h) (unat (kh_pow b)) else kh_keys h)"
    let ?new = "replicate (unat (kh_fsize (kh_pow b))) 0"
    have N: "unat (kh_pow b) = 2 ^ unat b" and n: "unat n = length (kh_keys h)"
      using b(2) wf by (auto simp: kh_word n_def capacity_length)
    have start: "kh_rehash_inv hf eq (unat n) b (kh_elems h) (unat (kh_count h)) None
        (kh_usedv h) keys ?new"
      unfolding n using wf _ _ _ b(2)
      by (rule rehash_start) (auto simp: keys_def N n word_less_nat_alt nth_xreallocarray)
    have less: "unat (kh_count h) < 2 ^ unat b"
      using True kh_load_less [OF b(1)] by (simp add: load_def)
    obtain used' keys' new' where r:
      "kh_rehash hf b n 0 (kh_usedv h) keys ?new = Some (used', keys', new')"
      "kh_rehash_inv hf eq (unat n) b (kh_elems h) (unat (kh_count h)) None used' keys' new'"
      "length keys' = length keys" "kh_slots (unat n) used' = {}"
      using rehash_correct [OF start b(2) less, of 0] by auto
    define keys2 where "keys2 = (if n > kh_pow b then xreallocarray junk keys' (unat (kh_pow b)) else keys')"
    have k2: "length keys2 = 2 ^ unat b" "\<And>i. i < 2 ^ unat b \<Longrightarrow> keys2 ! i = keys' ! i"
      using r(3) by (auto simp: keys2_def keys_def N n word_less_nat_alt nth_xreallocarray)
    have "kh_resize hf junk h m =
        Some \<lparr>kh_bits = b, kh_count = kh_count h, kh_usedv = new', kh_keys = keys2\<rparr>"
      using r(1) True guard
      by (simp add: kh_resize_def Let_def flip: b_def kh_capacity_def n_def keys_def keys2_def)
    then show ?thesis
      using rehash_end [OF r(2,4) b _ k2] True b k2(1) r(2)
      by (auto simp: load_def kh_shape_def kh_rehash_inv_def Let_def b_def)
  qed
qed

end

end
