(* ===== verification/Khashl_Update.thy ===== *)
theory Khashl_Update
  imports Khashl_Resize
begin

text \<open>Insertion, deletion and clearing of the hash table, and the set they implement.\<close>

lemma load_mono:
  fixes x y :: nat
  assumes "0 < x" and "2 * x \<le> y"
  shows "x div 2 + x div 4 < y div 2 + y div 4"
proof -
  have "x div 2 < x" using assms by simp
  also have "x \<le> y div 2" using assms by simp
  finally show ?thesis using assms by (intro add_less_le_mono div_le_mono) simp_all
qed

subsection \<open>The state of a deletion\<close>

text \<open>
  Deletion at slot \<open>s\<close>, where \<open>e\<close> is the first free slot behind it.  The slots up to \<open>j\<close> have
  been inspected, the hole is now at \<open>i\<close>, and no inspected bucket's path leads over the hole.
\<close>

definition kh_shift_inv ::
  "('b \<Rightarrow> nat) \<Rightarrow> ('b \<Rightarrow> 'b \<Rightarrow> bool) \<Rightarrow> nat \<Rightarrow> (nat \<Rightarrow> bool) \<Rightarrow> nat \<Rightarrow> nat \<Rightarrow> 'b set
     \<Rightarrow> 'b list \<Rightarrow> nat \<Rightarrow> nat \<Rightarrow> bool"
where
  "kh_shift_inv H eq n U s e S keys i j \<longleftrightarrow>
     (let A = {p. p < n \<and> U p} - {i}
      in i < n \<and> j < n \<and> U i
       \<and> cdist n s i \<le> cdist n s j \<and> cdist n s j < cdist n s e
       \<and> (\<forall>p\<in>A. \<forall>x<n. on_path n (H (keys ! p)) x p \<longrightarrow> U x)
       \<and> (\<forall>p\<in>A. cdist n s p \<le> cdist n s j \<longrightarrow> \<not> on_path n (H (keys ! p)) i p)
       \<and> (!) keys ` A = S \<and> kh_unique eq A keys)"

lemma kh_shift_invD:
  assumes "kh_shift_inv H eq n U s e S keys i j"
  shows "i < n" "j < n" "U i" "cdist n s i \<le> cdist n s j" "cdist n s j < cdist n s e"
    and "p < n \<Longrightarrow> U p \<Longrightarrow> p \<noteq> i \<Longrightarrow> x < n \<Longrightarrow> on_path n (H (keys ! p)) x p \<Longrightarrow> U x"
    and "p < n \<Longrightarrow> U p \<Longrightarrow> p \<noteq> i \<Longrightarrow> cdist n s p \<le> cdist n s j \<Longrightarrow> \<not> on_path n (H (keys ! p)) i p"
    and "(!) keys ` ({p. p < n \<and> U p} - {i}) = S" "kh_unique eq ({p. p < n \<and> U p} - {i}) keys"
  using assms unfolding kh_shift_inv_def Let_def by blast+

lemma kh_shift_invI:
  assumes "i < n" "j < n" "U i" "cdist n s i \<le> cdist n s j" "cdist n s j < cdist n s e"
    and "\<And>p x. p < n \<Longrightarrow> U p \<Longrightarrow> p \<noteq> i \<Longrightarrow> x < n \<Longrightarrow> on_path n (H (keys ! p)) x p \<Longrightarrow> U x"
    and "\<And>p. p < n \<Longrightarrow> U p \<Longrightarrow> p \<noteq> i \<Longrightarrow> cdist n s p \<le> cdist n s j \<Longrightarrow> \<not> on_path n (H (keys ! p)) i p"
    and "(!) keys ` ({p. p < n \<and> U p} - {i}) = S" "kh_unique eq ({p. p < n \<and> U p} - {i}) keys"
  shows "kh_shift_inv H eq n U s e S keys i j"
  using assms unfolding kh_shift_inv_def Let_def by blast

lemma kh_shift_inv_keep:
  assumes inv: "kh_shift_inv H eq n U s e S keys i j" and s: "s < n"
    and j': "cdist n s (cnext n j) = Suc (cdist n s j)" "cdist n s (cnext n j) < cdist n s e"
    and off: "\<not> on_path n (H (keys ! cnext n j)) i (cnext n j)"
  shows "kh_shift_inv H eq n U s e S keys i (cnext n j)"
proof (rule kh_shift_invI)
  note D = kh_shift_invD [OF inv]
  show lt: "cnext n j < n" using D(2) by (rule cnext_less)
  show "i < n" "U i" "(!) keys ` ({p. p < n \<and> U p} - {i}) = S"
    "kh_unique eq ({p. p < n \<and> U p} - {i}) keys" by (fact D)+
  show "cdist n s i \<le> cdist n s (cnext n j)" "cdist n s (cnext n j) < cdist n s e"
    using D(4) j' by simp_all
  show "U x" if "p < n" "U p" "p \<noteq> i" "x < n" "on_path n (H (keys ! p)) x p" for p x
    using that by (rule D(6))
  fix p assume p: "p < n" "U p" "p \<noteq> i" "cdist n s p \<le> cdist n s (cnext n j)"
  show "\<not> on_path n (H (keys ! p)) i p"
  proof (cases "p = cnext n j")
    case False
    then have "cdist n s p \<le> cdist n s j"
      using p(4) j'(1) cdist_inj [OF s p(1) lt] by linarith
    with D(7) [OF p(1-3)] show ?thesis .
  qed (use off in simp)
qed

lemma kh_shift_inv_move:
  assumes inv: "kh_shift_inv H eq n U s e S keys i j" and b: "s < n" "e < n" "\<not> U e" "\<And>b. H b < n"
    and len: "length keys = n"
    and j': "j' < n" "U j'" "j' \<noteq> i" "cdist n s j' = Suc (cdist n s j)" "cdist n s j' < cdist n s e"
    and on: "on_path n (H (keys ! j')) i j'"
  shows "kh_shift_inv H eq n U s e S (keys[i := keys ! j']) j' j'"
proof -
  let ?A = "{p. p < n \<and> U p}" and ?keys = "keys[i := keys ! j']"
  note D = kh_shift_invD [OF inv]
  note i = D(1,3) and S = D(8) and un = D(9)
  have ki: "?keys ! i = keys ! j'" "\<And>p. p \<noteq> i \<Longrightarrow> ?keys ! p = keys ! p" using i(1) len by auto
  have path': "U x" if "p \<in> ?A - {j'}" "x < n" "on_path n (H (?keys ! p)) x p" for p x
  proof (cases "p = i")
    case True
    then have "on_path n (H (keys ! j')) x j'"
      using that(3) ki(1) on_path_trans [OF _ on] by simp
    then show ?thesis using D(6) [of j' x] j' that(2) by blast
  next
    case False
    then show ?thesis using that D(6) [of p x] ki(2) [OF False] by simp
  qed
  have free: "\<not> on_path n (H (?keys ! p)) j' p" if p: "p \<in> ?A - {j'}" "cdist n s p \<le> cdist n s j'" for p
  proof
    assume bad: "on_path n (H (?keys ! p)) j' p"
    show False
    proof (cases "p = i")
      case True
      then show False using bad on_path_antisym [OF b(4) i(1) j'(1) on] ki(1) j'(3) by simp
    next
      case False
      have "cdist n s p < cdist n s j'"
        using p j'(1) b(1) cdist_inj [of s n p j'] by (auto simp: le_less)
      then have "on_path n (H (?keys ! p)) e p"
        using p j' b bad by (intro on_path_beyond [of _ n j' e p s]) auto
      then show False using path' [OF p(1) b(2)] b(3) by simp
    qed
  qed
  have A: "?A - {j'} = insert i (?A - {i} - {j'})" "?A - {i} = insert j' (?A - {i} - {j'})"
    using i j' by auto
  have "(!) ?keys ` (?A - {j'}) = insert (keys ! j') ((!) keys ` (?A - {i} - {j'}))"
    unfolding A(1) image_insert ki(1) by (subst image_nth_update) simp_all
  also have "\<dots> = S"
    unfolding S [symmetric] by (subst A(2)) (simp only: image_insert)
  finally have "(!) ?keys ` (?A - {j'}) = S" .
  moreover have "kh_unique eq (?A - {j'}) ?keys"
    unfolding A(1)
  proof (rule kh_unique_update)
    show "kh_unique eq (?A - {i} - {j'} - {i}) keys" using un unfolding kh_unique_def by blast
    show "\<forall>x\<in>?A - {i} - {j'} - {i}. \<not> eq (keys ! x) (keys ! j') \<and> \<not> eq (keys ! j') (keys ! x)"
      using un j'(1,2,3) unfolding kh_unique_def by blast
    show "i < length keys" using i(1) len by simp
  qed
  ultimately show ?thesis
  proof (intro kh_shift_invI)
    show "U x" if "p < n" "U p" "p \<noteq> j'" "x < n" "on_path n (H (?keys ! p)) x p" for p x
      using that path' [of p x] by simp
    show "\<not> on_path n (H (?keys ! p)) j' p"
      if "p < n" "U p" "p \<noteq> j'" "cdist n s p \<le> cdist n s j'" for p
      using that free [of p] by simp
  qed (use j' in simp_all)
qed

text \<open>When the inspection reaches the free slot, no path leads over the hole any more.\<close>

lemma kh_shift_inv_done:
  assumes inv: "kh_shift_inv H eq n U s e S keys i j" and b: "s < n" "e < n" "\<not> U e" "\<And>b. H b < n"
    and fin: "cdist n s e = Suc (cdist n s j)"
  shows "kh_gapfree n (\<lambda>x. U x \<and> x \<noteq> i) (\<lambda>x. H (keys ! x))"
  unfolding kh_gapfree_def
proof (intro allI impI)
  note D = kh_shift_invD [OF inv]
  fix p x assume p: "p < n" "U p \<and> p \<noteq> i" and x: "x < n" "on_path n (H (keys ! p)) x p"
  have "U x" using D(6) p x by blast
  moreover have "\<not> on_path n (H (keys ! p)) i p"
  proof (cases "cdist n s p \<le> cdist n s j")
    case True
    then show ?thesis using D(7) p by blast
  next
    case False
    have "cdist n s p \<noteq> cdist n s e" using cdist_inj [OF b(1) p(1) b(2)] p(2) b(3) by metis
    then have "cdist n s e < cdist n s p" using False fin by simp
    then have "on_path n (H (keys ! p)) e p" if "on_path n (H (keys ! p)) i p"
      using on_path_beyond [OF b(4) D(1) b(2) p(1) b(1) _ _ that] D(4,5) by simp
    then show ?thesis using D(6) [of p e] p b(2,3) by blast
  qed
  ultimately show "U x \<and> x \<noteq> i" using x(2) by blast
qed

context kh_keying
begin

subsection \<open>Insertion\<close>

lemma put_grow:
  assumes wf: "kh_wf hf eq h" and small: "unat (kh_count h) < 3 * 2 ^ 29"
  obtains h' where
    "(if kh_count h \<ge> drop_bit 1 (kh_capacity h) + drop_bit 2 (kh_capacity h)
      then kh_resize hf junk h (kh_capacity h + 1) else Some h) = Some h'"
    "kh_wf hf eq h'" "kh_shape h'" "kh_elems h' = kh_elems h" "kh_count h' = kh_count h"
    "unat (kh_count h') < 2 ^ unat (kh_bits h') div 2 + 2 ^ unat (kh_bits h') div 4"
  using wf
proof (cases rule: kh_wf_cases)
  case null
  have nb: "kh_new_bits 1 = 2" by code_simp
  obtain h' where "kh_resize hf junk h 1 = Some h'" "kh_wf hf eq h'" "kh_elems h' = kh_elems h"
    "kh_count h' = 0" "kh_shape h'" "kh_bits h' = 2"
    using resize_correct [OF wf, of 1 junk] null(3) by (auto simp: nb)
  then show thesis using null by (intro that [of h']) (simp_all add: kh_capacity_def)
next
  case table
  let ?b = "unat (kh_bits h)"
  note sh = kh_shapeD [OF table(1)]
  have cap: "kh_capacity h = kh_pow (kh_bits h)" using sh(3) by (simp add: kh_capacity_def)
  have load: "unat (drop_bit 1 (kh_capacity h) + drop_bit 2 (kh_capacity h)) = 2 ^ ?b div 2 + 2 ^ ?b div 4"
    unfolding cap using sh(1) by (rule unat_load)
  show thesis
  proof (cases "kh_count h \<ge> drop_bit 1 (kh_capacity h) + drop_bit 2 (kh_capacity h)")
    case False
    then have "unat (kh_count h) < 2 ^ ?b div 2 + 2 ^ ?b div 4"
      unfolding load [symmetric] by (simp only: word_less_nat_alt not_le)
    with False show thesis using wf table by (intro that [of h]) auto
  next
    case True
    then have ge: "2 ^ ?b div 2 + 2 ^ ?b div 4 \<le> unat (kh_count h)"
      unfolding load [symmetric] by (simp only: word_le_nat_alt)
    have b: "?b < 31" using ge small sh(1) by (cases "?b = 31") auto
    have m: "unat (kh_capacity h + 1) = 2 ^ ?b + 1"
      using two_power_less_32 [of "Suc ?b"] b
      by (simp add: cap unat_word_ariths unat_kh_pow [OF sh(1)])
    then have m1: "kh_capacity h + 1 \<noteq> 0" by (metis add_is_0 unat_0 zero_neq_one)
    have m2: "unat (kh_capacity h + 1) \<le> 2 ^ 31"
      unfolding m using power_strict_increasing [OF b, of "2::nat"] by simp
    define b' where "b' = unat (kh_new_bits (kh_capacity h + 1))"
    note nb = kh_new_bits_bounds [OF m1, folded b'_def, unfolded m]
    have "?b < b'"
    proof (rule ccontr)
      assume "\<not> ?b < b'"
      then have "(2::nat) ^ b' \<le> 2 ^ ?b" by (intro power_increasing) auto
      with nb(2) show False by simp
    qed
    then have "(2::nat) ^ Suc ?b \<le> 2 ^ b'" by (intro power_increasing) auto
    then have grow: "2 ^ ?b div 2 + 2 ^ ?b div 4 < (2::nat) ^ b' div 2 + 2 ^ b' div 4"
      by (intro load_mono) simp_all
    obtain h' where "kh_resize hf junk h (kh_capacity h + 1) = Some h'" "kh_wf hf eq h'"
      "kh_elems h' = kh_elems h" "kh_count h' = kh_count h" "kh_shape h'"
      "kh_bits h' = kh_new_bits (kh_capacity h + 1)"
      using resize_correct [OF wf m1 m2, of junk] grow table(3) by (auto simp: b'_def)
    with True grow table(3) show thesis by (intro that [of h']) (auto simp: b'_def)
  qed
qed

lemma insert_free_slot:
  assumes wf: "kh_wf hf eq h" and sh: "kh_shape h"
    and r: "unat r < 2 ^ unat (kh_bits h)" "\<not> kus (kh_usedv h) (unat r)"
      "passed (2 ^ unat (kh_bits h)) (kh_other eq h key) (kh_home hf (kh_bits h) key) (unat r)"
    and new: "\<forall>b\<in>kh_elems h. \<not> eq b key"
    and load: "unat (kh_count h) < 2 ^ unat (kh_bits h) div 2 + 2 ^ unat (kh_bits h) div 4"
  defines "h' \<equiv> h\<lparr>kh_keys := (kh_keys h)[unat r := key],
                  kh_usedv := kh_set_used (kh_usedv h) r, kh_count := kh_count h + 1\<rparr>"
  shows "kh_wf hf eq h'" and "kh_elems h' = insert key (kh_elems h)"
    and "kh_exist h' r" "r < kh_end h'" "kh_bucket h' r = key"
    and "unat (kh_count h') = Suc (unat (kh_count h))"
proof -
  let ?n = "2 ^ unat (kh_bits h) :: nat" and ?S = "kh_slots (2 ^ unat (kh_bits h)) (kh_usedv h)"
  note shD = kh_shapeD [OF sh]
  from wf have tab: "unat (kh_count h) = card ?S"
    "kh_gapfree ?n (kus (kh_usedv h)) (\<lambda>i. kh_home hf (kh_bits h) (kh_keys h ! i))"
    "kh_unique eq ?S (kh_keys h)"
    by (auto elim!: kh_wf_cases simp: shD(3))
  have w: "unat r div 32 < length (kh_usedv h)" using r(1) by (rule shD(5))
  have S': "kh_slots ?n (kh_set_used (kh_usedv h) r) = insert (unat r) ?S"
    using r(1) w by (rule kh_slots_set_used)
  have rS: "unat r \<notin> ?S" using r(2) by (simp add: kh_slots_def)
  have other: "\<not> eq (kh_keys h ! j) key" if "j \<in> ?S" for j
    using new that by (auto simp: kh_elems_def shD(4))
  have "passed ?n (kus (kh_usedv h)) (kh_home hf (kh_bits h) key) (unat r)"
    using r(3) by (auto simp: passed_def kh_other_def)
  then have gap: "kh_gapfree ?n (kus (kh_set_used (kh_usedv h) r))
      (\<lambda>i. kh_home hf (kh_bits h) ((kh_keys h)[unat r := key] ! i))"
    using tab(2) r(1,2) w shD(4) by (intro kh_gapfree_insert [where U = "kus (kh_usedv h)"]) auto
  have un: "kh_unique eq (insert (unat r) ?S) ((kh_keys h)[unat r := key])"
    using tab(3) other r(1) shD(4)
    by (intro kh_unique_update) (auto simp: kh_unique_def dest: eq_sym)
  have cnt: "unat (kh_count h + 1) = Suc (unat (kh_count h))"
    using load kh_load_less [OF shD(2)] two_power_less_32 [OF shD(1)]
    by (simp add: unat_word_ariths)
  show "unat (kh_count h') = Suc (unat (kh_count h))" using cnt by (simp add: h'_def)
  show "kh_wf hf eq h'"
    using sh gap un load cnt tab(1) rS
    by (simp add: kh_wf_def h'_def Let_def kh_shape_def S')
  show "kh_elems h' = insert key (kh_elems h)"
    using r(1) shD(4) rS image_nth_update [OF rS, of "kh_keys h" key]
    by (simp add: kh_elems_def h'_def S')
  show "kh_exist h' r" "r < kh_end h'" "kh_bucket h' r = key"
    using r(1) shD w by (simp_all add: kh_exist_def kh_end_def kh_capacity_def kh_bucket_def h'_def
        word_less_nat_alt kh_word)
qed

lemma putp_correct:
  assumes wf: "kh_wf hf eq h" and small: "unat (kh_count h) < 3 * 2 ^ 29"
  shows "\<exists>h' i. kh_putp hf eq junk h key = Some (h', i, if \<exists>b\<in>kh_elems h. eq b key then 0 else 1)
     \<and> kh_wf hf eq h' \<and> i < kh_end h' \<and> kh_exist h' i
     \<and> (if \<exists>b\<in>kh_elems h. eq b key
        then kh_elems h' = kh_elems h \<and> kh_bucket h' i \<in> kh_elems h \<and> eq (kh_bucket h' i) key
          \<and> kh_count h' = kh_count h
        else kh_elems h' = insert key (kh_elems h) \<and> kh_bucket h' i = key
          \<and> unat (kh_count h') = Suc (unat (kh_count h)))"
proof -
  obtain h1 where h1:
    "(if kh_count h \<ge> drop_bit 1 (kh_capacity h) + drop_bit 2 (kh_capacity h)
      then kh_resize hf junk h (kh_capacity h + 1) else Some h) = Some h1"
    "kh_wf hf eq h1" "kh_shape h1" "kh_elems h1 = kh_elems h" "kh_count h1 = kh_count h"
    "unat (kh_count h1) < 2 ^ unat (kh_bits h1) div 2 + 2 ^ unat (kh_bits h1) div 4"
    using wf small by (rule put_grow)
  obtain r where r: "kh_probe eq h1 key (hf key) (kh_h2b (hf key) (kh_bits h1)) = (r, False)"
    "unat r < 2 ^ unat (kh_bits h1)"
    "passed (2 ^ unat (kh_bits h1)) (kh_other eq h1 key) (kh_home hf (kh_bits h1) key) (unat r)"
    "kus (kh_usedv h1) (unat r) \<longleftrightarrow> (\<exists>b\<in>kh_elems h1. eq b key)"
    "kus (kh_usedv h1) (unat r) \<longrightarrow> eq (kh_keys h1 ! unat r) key"
    using h1(2,3) by (rule probe_finds)
  note sh = kh_shapeD [OF h1(3)]
  have put: "kh_putp hf eq junk h key =
     (if \<not> kus (kh_usedv h1) (unat r) then
          Some (h1\<lparr>kh_keys := (kh_keys h1)[unat r := key],
                  kh_usedv := kh_set_used (kh_usedv h1) r,
                  kh_count := kh_count h1 + 1\<rparr>, r, 1)
        else Some (h1, r, 0))"
    using h1(1) r(1) by (simp add: kh_putp_def kh_putp_core_def flip: kh_capacity_def)
  show ?thesis
  proof (cases "\<exists>b\<in>kh_elems h. eq b key")
    case True
    then have "kus (kh_usedv h1) (unat r)" using r(4) h1(4) by simp
    with True r(2,5) h1 sh show ?thesis
      by (auto simp: put kh_exist_def kh_end_def kh_capacity_def kh_bucket_def kh_elems_def
          kh_slots_def word_less_nat_alt kh_word)
  next
    case False
    then have free: "\<not> kus (kh_usedv h1) (unat r)" and new: "\<forall>b\<in>kh_elems h1. \<not> eq b key"
      using r(4) h1(4) by simp_all
    show ?thesis
      using insert_free_slot [OF h1(2,3) r(2) free r(3) new h1(6)] False free h1(4,5)
      by (simp add: put)
  qed
qed

subsection \<open>Deletion\<close>

lemma kh_shift_correct:
  fixes used :: "khint list" and bits :: khint
  defines "n \<equiv> 2 ^ unat bits"
  assumes bits: "unat bits < 32" and s: "s < n" and e: "e < n" "\<not> kus used e" "passed n (kus used) s e"
    and "kh_shift_inv (kh_home hf bits) eq n (kus used) s e S keys (unat i) (unat j)"
    and "length keys = n"
  shows "\<exists>keys' i' j'. kh_shift hf bits used keys i j = Some (keys', i') \<and> length keys' = n
     \<and> kh_shift_inv (kh_home hf bits) eq n (kus used) s e S keys' (unat i') j'
     \<and> cdist n s e = Suc (cdist n s j')"
  using assms(7,8)
proof (induction "cdist n s e - cdist n s (unat j)" arbitrary: keys i j rule: less_induct)
  case less
  note D = kh_shift_invD [OF less.prems(1)]
  define jj where "jj = (j + 1) AND (kh_pow bits - 1)"
  have j': "unat jj = cnext n (unat j)"
    unfolding jj_def using bits D(2) unfolding n_def by (rule unat_kh_next)
  have lt: "unat jj < n" unfolding j' using D(2) by (rule cnext_less)
  have "cnext n (unat j) \<noteq> s"
    using on_path_last [OF s D(2) e(1)] D(5) by (auto simp: on_path_def)
  then have cd: "cdist n s (unat jj) = Suc (cdist n s (unat j))"
    unfolding j' using s D(2) by (intro cdist_cnext)
  then have ne: "jj \<noteq> i" "unat i \<noteq> unat jj" using D(4) by auto
  have H: "kh_home hf bits b < n" for b
    unfolding kh_home_def n_def using bits by (rule unat_kh_h2b_less)
  let ?k = "kh_h2b (hf (keys ! unat jj)) bits"
  let ?move = "(jj > i \<and> (?k \<le> i \<or> ?k > jj)) \<or> (jj < i \<and> (?k \<le> i \<and> ?k > jj))"
  have step: "kh_shift hf bits used keys i j =
      (if \<not> kus used (unat jj) then Some (keys, i)
       else if ?move then kh_shift hf bits used (keys[unat i := keys ! unat jj]) jj jj
       else kh_shift hf bits used keys i jj)"
    using ne(1) by (subst kh_shift.simps) (simp add: Let_def flip: jj_def)
  show ?case
  proof (cases "cdist n s (unat jj) = cdist n s e")
    case True
    then have "unat jj = e" by (rule cdist_inj [OF s lt e(1)])
    then show ?thesis using e(2) less.prems cd True step by auto
  next
    case False
    then have before: "cdist n s (unat jj) < cdist n s e" using cd D(5) by simp
    then have U: "kus used (unat jj)"
      using lt by (intro passedD [OF e(3)]) (auto simp: on_path_def)
    have iff: "?move \<longleftrightarrow> on_path n (kh_home hf bits (keys ! unat jj)) (unat i) (unat jj)"
      unfolding word_less_nat_alt word_le_nat_alt kh_home_def [symmetric]
      by (rule on_path_iff_between [symmetric]) (fact H D(1) lt ne(2))+
    have dec: "cdist n s e - cdist n s (unat jj) < cdist n s e - cdist n s (unat j)"
      using cd before by simp
    show ?thesis
    proof (cases "on_path n (kh_home hf bits (keys ! unat jj)) (unat i) (unat jj)")
      case True
      have "kh_shift_inv (kh_home hf bits) eq n (kus used) s e S (keys[unat i := keys ! unat jj])
          (unat jj) (unat jj)"
        using less.prems(1) s e(1,2) H less.prems(2) lt U ne(2) [symmetric] cd before True
        by (rule kh_shift_inv_move)
      from less.hyps [OF dec this] less.prems(2) show ?thesis
        unfolding step iff using True U by simp
    next
      case False
      then have "kh_shift_inv (kh_home hf bits) eq n (kus used) s e S keys (unat i) (unat jj)"
        using less.prems(1) s cd before unfolding j' by (intro kh_shift_inv_keep)
      from less.hyps [OF dec this less.prems(2)] show ?thesis
        unfolding step iff using False U by simp
    qed
  qed
qed

lemma shift_start:
  assumes gap: "kh_gapfree n U (\<lambda>i. H (keys ! i))" and un: "kh_unique eq {p. p < n \<and> U p} keys"
    and s: "s < n" "U s" and e: "e < n" "\<not> U e"
  shows "kh_shift_inv H eq n U s e ((!) keys ` ({p. p < n \<and> U p} - {s})) keys s s"
proof (rule kh_shift_invI)
  show "U x" if "p < n" "U p" "p \<noteq> s" "x < n" "on_path n (H (keys ! p)) x p" for p x
    using kh_gapfreeD [OF gap] that by blast
  show "\<not> on_path n (H (keys ! p)) s p" if "p < n" "p \<noteq> s" "cdist n s p \<le> cdist n s s" for p
    using that s(1) cdist_inj [OF s(1) that(1) s(1)] by simp
  show "cdist n s s < cdist n s e" using cdist_inj [OF s(1) e(1) s(1)] s(2) e(2) by fastforce
  show "kh_unique eq ({p. p < n \<and> U p} - {s}) keys" using un unfolding kh_unique_def by blast
qed (use s in simp_all)

lemma del_correct:
  assumes wf: "kh_wf hf eq h" and i: "i < kh_end h" "kh_exist h i"
  shows "\<exists>h'. kh_del hf h i = Some (h', 1) \<and> kh_wf hf eq h'
     \<and> kh_elems h' = kh_elems h - {kh_bucket h i}
     \<and> unat (kh_count h) = Suc (unat (kh_count h'))"
  using wf
proof (cases rule: kh_wf_cases)
  case null
  then show ?thesis using i(1) by (simp add: kh_end_def kh_capacity_def)
next
  case table
  define n :: nat where "n = 2 ^ unat (kh_bits h)"
  let ?U = "kus (kh_usedv h)" and ?H = "kh_home hf (kh_bits h)"
  note sh = kh_shapeD [OF table(1), folded n_def]
  note tab = table [folded n_def]
  have A: "kh_slots n (kh_usedv h) = {p. p < n \<and> ?U p}" by (simp add: kh_slots_def)
  have s: "unat i < n" "?U (unat i)"
    using i sh(1,3) by (auto simp: kh_end_def kh_capacity_def kh_exist_def word_less_nat_alt kh_word n_def)
  obtain e0 where "e0 < n" "\<not> ?U e0"
    using table(1,2,3) unfolding n_def by (rule kh_wf_free_slot)
  then obtain e where e: "e < n" "\<not> ?U e" "passed n ?U (unat i) e" using s(1) by (rule ex_first)
  have H: "?H b < n" for b unfolding kh_home_def n_def using sh(1) by (rule unat_kh_h2b_less)
  define S where "S = (!) (kh_keys h) ` ({p. p < n \<and> ?U p} - {unat i})"
  have "kh_shift_inv ?H eq n ?U (unat i) e S (kh_keys h) (unat i) (unat i)"
    unfolding S_def using tab(4) tab(5) [unfolded A] s e(1,2) by (rule shift_start)
  then obtain keys' i' j' where r:
    "kh_shift hf (kh_bits h) (kh_usedv h) (kh_keys h) i i = Some (keys', i')" "length keys' = n"
    "kh_shift_inv ?H eq n ?U (unat i) e S keys' (unat i') j'"
    "cdist n (unat i) e = Suc (cdist n (unat i) j')"
    using kh_shift_correct [OF sh(1), folded n_def, OF s(1) e _ sh(4)] by blast
  note D = kh_shift_invD [OF r(3)]
  have w: "unat i' div 32 < length (kh_usedv h)" using D(1) by (rule sh(5))
  have sl: "kh_slots n (kh_set_unused (kh_usedv h) i') = kh_slots n (kh_usedv h) - {unat i'}"
    using w by (rule kh_slots_set_unused)
  have gap: "kh_gapfree n (kus (kh_set_unused (kh_usedv h) i')) (\<lambda>x. ?H (keys' ! x))"
    unfolding kus_set_unused [OF w] using r(3) s(1) e(1,2) H r(4) by (rule kh_shift_inv_done)
  have mem: "unat i' \<in> kh_slots n (kh_usedv h)" using D(1,3) by (simp add: kh_slots_def)
  have cnt: "unat (kh_count h - 1) = unat (kh_count h) - 1" "0 < unat (kh_count h)"
    using mem card_gt_0_iff [of "kh_slots n (kh_usedv h)"] tab(2)
    by (auto simp: unat_sub word_le_nat_alt)
  let ?h = "h\<lparr>kh_keys := keys', kh_usedv := kh_set_unused (kh_usedv h) i', kh_count := kh_count h - 1\<rparr>"
  have "kh_wf hf eq ?h"
    using table(1) gap D(9) r(2) cnt tab(2,3) mem
    unfolding kh_wf_def by (intro disjI2) (simp add: Let_def kh_shape_def sl A flip: n_def)
  moreover have "kh_elems ?h = S" using D(8) r(2) by (simp add: kh_elems_def sl A)
  moreover have "S = kh_elems h - {kh_bucket h i}"
    using tab(5) s eq_refl unfolding S_def kh_elems_def kh_bucket_def kh_unique_def A sh(4)
    by (auto simp: A)
  ultimately show ?thesis using r(1) sh(3) cnt by (simp add: kh_del_def)
qed

subsection \<open>Clearing\<close>

lemma clear_correct:
  assumes wf: "kh_wf hf eq h"
  shows "kh_wf hf eq (kh_clear h) \<and> kh_elems (kh_clear h) = {} \<and> kh_count (kh_clear h) = 0
     \<and> kh_capacity (kh_clear h) = kh_capacity h"
  using wf
proof (cases rule: kh_wf_cases)
  case null
  then show ?thesis using wf by (simp add: kh_clear_def)
next
  case table
  note sh = kh_shapeD [OF table(1)]
  let ?n = "2 ^ unat (kh_bits h) :: nat"
  have len: "length (kh_usedv h) = unat (kh_fsize (kh_pow (kh_bits h)))"
    using table(1) by (simp add: kh_shape_def)
  have "kh_usedv h \<noteq> []" using sh(5) [of 0] by auto
  then have cl: "kh_clear h = h\<lparr>kh_usedv := replicate (length (kh_usedv h)) 0, kh_count := 0\<rparr>"
    by (simp add: kh_clear_def Let_def len)
  have "kh_slots ?n (replicate (length (kh_usedv h)) 0) = {}"
    using sh(5) by (auto simp: kh_slots_def)
  moreover have "kh_gapfree ?n (kus (replicate (length (kh_usedv h)) 0)) H" for H
    using sh(5) by (auto simp: kh_gapfree_def)
  ultimately show ?thesis
    using table(1) by (simp add: cl kh_wf_def Let_def kh_shape_def kh_unique_def kh_elems_def
        kh_capacity_def)
qed

lemma count_card:
  assumes "kh_wf hf eq h"
  shows "unat (kh_count h) = card (kh_elems h)"
  using assms
proof (cases rule: kh_wf_cases)
  case table
  have "length (kh_keys h) = 2 ^ unat (kh_bits h)" using kh_shapeD(4) [OF table(1)] .
  moreover have "inj_on (\<lambda>i. kh_keys h ! i) (kh_slots (2 ^ unat (kh_bits h)) (kh_usedv h))"
    using table(5) eq_refl by (auto simp: inj_on_def kh_unique_def)
  ultimately show ?thesis using table(2) by (simp add: kh_elems_def card_image)
qed simp

end

subsection \<open>Slots and elements\<close>

lemma kh_elems_slots:
  assumes "kh_wf hf eq h"
  shows "b \<in> kh_elems h \<longleftrightarrow> (\<exists>k<unat (kh_end h). kh_exist h (of_nat k) \<and> kh_bucket h (of_nat k) = b)"
proof -
  have len: "unat (kh_end h) = length (kh_keys h)"
    using assms by (cases rule: kh_wf_cases) (auto simp: kh_end_def kh_capacity_def kh_word kh_shape_def)
  have "unat (kh_end h) < 2 ^ 32" using unsigned_less [where 'a = nat, of "kh_end h"] by simp
  then have "unat (of_nat k :: khint) = k" if "k < length (kh_keys h)" for k
    using that by (simp add: len unat_of_nat)
  then show ?thesis unfolding kh_elems_def kh_slots_def len
    by (auto simp: kh_exist_def kh_bucket_def kh_used_kus)
qed

end
