(* ===== verification/Hash_Functions.thy ===== *)
theory Hash_Functions
  imports Khashl
begin

text \<open>
  The hash and equality functions of \<open>khashl.h\<close> and \<open>xh_cidx.h\<close>.  A C string is the list of
  its bytes before the terminating zero.
\<close>

type_synonym bytes = "u8 list"

definition cstr_at :: "bytes \<Rightarrow> nat \<Rightarrow> u8" where
  "cstr_at s i = (if i < length s then s ! i else 0)"

subsection \<open>Integer mixers\<close>

definition kh_hash_uint32 :: "khint \<Rightarrow> khint" where
  "kh_hash_uint32 key =
     (let key = key + NOT (push_bit 15 key);
          key = key XOR drop_bit 10 key;
          key = key + push_bit 3 key;
          key = key XOR drop_bit 6 key;
          key = key + NOT (push_bit 11 key);
          key = key XOR drop_bit 16 key
      in key)"

definition kh_mix_uint64 :: "u64 \<Rightarrow> u64" where
  "kh_mix_uint64 key =
     (let key = NOT key + push_bit 21 key;
          key = key XOR drop_bit 24 key;
          key = (key + push_bit 3 key) + push_bit 8 key;
          key = key XOR drop_bit 14 key;
          key = (key + push_bit 2 key) + push_bit 4 key;
          key = key XOR drop_bit 28 key;
          key = key + push_bit 31 key
      in key)"

definition kh_hash_uint64 :: "u64 \<Rightarrow> khint" where
  "kh_hash_uint64 key = ucast (kh_mix_uint64 key)"

subsection \<open>Byte strings\<close>

definition fnv_step :: "khint \<Rightarrow> u8 \<Rightarrow> khint" where
  "fnv_step h c = (h XOR ucast c) * 16777619"

definition KH_FNV_SEED :: khint where
  "KH_FNV_SEED = 11"

fun kh_hash_str_loop :: "khint \<Rightarrow> bytes \<Rightarrow> khint" where
  "kh_hash_str_loop h [] = h"
| "kh_hash_str_loop h (c # t) = (if c = 0 then h else kh_hash_str_loop (fnv_step h c) t)"

definition kh_hash_str :: "bytes \<Rightarrow> khint" where
  "kh_hash_str s = kh_hash_str_loop (KH_FNV_SEED XOR 2166136261) s"

fun kh_hash_bytes_loop :: "nat \<Rightarrow> khint \<Rightarrow> bytes \<Rightarrow> nat \<Rightarrow> khint" where
  "kh_hash_bytes_loop 0 h s i = h"
| "kh_hash_bytes_loop (Suc n) h s i = kh_hash_bytes_loop n (fnv_step h (s ! i)) s (Suc i)"

definition kh_hash_bytes :: "nat \<Rightarrow> bytes \<Rightarrow> khint" where
  "kh_hash_bytes len s = kh_hash_bytes_loop len (KH_FNV_SEED XOR 2166136261) s 0"

definition kh_eq_str :: "bytes \<Rightarrow> bytes \<Rightarrow> bool" where
  "kh_eq_str a b \<longleftrightarrow> a = b"

subsection \<open>Object names in hexadecimal\<close>

definition hex2uint :: "u8 \<Rightarrow> khint" where
  "hex2uint c =
     (if 0x30 \<le> c \<and> c \<le> 0x39 then ucast c - 0x30
      else if 0x61 \<le> c \<and> c \<le> 0x66 then ucast c - 0x61 + 10
      else 0xff)"

fun sha_hex_loop :: "nat \<Rightarrow> khint \<Rightarrow> bytes \<Rightarrow> nat \<Rightarrow> khint" where
  "sha_hex_loop 0 ret hex i = ret"
| "sha_hex_loop (Suc n) ret hex i =
     sha_hex_loop n (ret OR push_bit (4 * n) (hex2uint (cstr_at hex i))) hex (Suc i)"

definition sha_hex_hash :: "bytes \<Rightarrow> khint" where
  "sha_hex_hash hex = sha_hex_loop 8 0 hex 0"

subsection \<open>The mixers are permutations\<close>

lemma inj_xorshift:
  assumes "0 < k"
  shows "inj (\<lambda>x :: 'a::len word. x XOR drop_bit k x)"
proof (rule injI)
  fix x y :: "'a word"
  assume eq: "x XOR drop_bit k x = y XOR drop_bit k y"
  let ?d = "x XOR y"
  have "bit ?d n \<longleftrightarrow> bit (drop_bit k ?d) n" for n
  proof -
    have "bit (x XOR drop_bit k x) n \<longleftrightarrow> bit (y XOR drop_bit k y) n" using eq by simp
    then show ?thesis by (auto simp: bit_xor_iff bit_drop_bit_eq)
  qed
  then have "?d = drop_bit k ?d" by (intro bit_eqI)
  then have "unat ?d = unat ?d div 2 ^ k"
    by (metis drop_bit_eq_div unat_drop_bit_eq)
  moreover have "(1::nat) < 2 ^ k" using assms by (intro one_less_power) simp_all
  ultimately have "unat ?d = 0" by (metis div_less_dividend neq0_conv less_irrefl)
  then have "?d = 0" by (simp add: unat_eq_zero)
  then have "bit x n \<longleftrightarrow> bit y n" for n by (metis bit_0_eq bit_xor_iff bot_apply bot_bool_def)
  then show "x = y" by (intro bit_eqI)
qed

lemma inj_affine:
  fixes a :: "'a::len word"
  assumes "a * c = 1" and "\<And>x. f x = x * a + b"
  shows "inj f"
proof (rule injI)
  fix x y assume "f x = f y"
  then have "x * a * c = y * a * c" by (simp add: assms(2))
  then show "x = y" by (simp add: assms(1) mult.assoc)
qed

lemmas shift_mult = not_eq_complement push_bit_eq_mult algebra_simps

lemma inj_kh_hash_uint32: "inj kh_hash_uint32"
proof -
  have steps: "kh_hash_uint32 =
      (\<lambda>k. k XOR drop_bit 16 k) \<circ> (\<lambda>k. k + NOT (push_bit 11 k)) \<circ> (\<lambda>k. k XOR drop_bit 6 k)
      \<circ> (\<lambda>k. k + push_bit 3 k) \<circ> (\<lambda>k. k XOR drop_bit 10 k) \<circ> (\<lambda>k. k + NOT (push_bit 15 k))"
    by (simp add: fun_eq_iff kh_hash_uint32_def Let_def)
  have i1: "inj (\<lambda>k::khint. k + NOT (push_bit 11 k))"
    by (rule inj_affine [where a = "1 - 2 ^ 11" and c = 4196353 and b = "- 1"]) (simp, simp add: shift_mult)
  have i2: "inj (\<lambda>k::khint. k + push_bit 3 k)"
    by (rule inj_affine [where a = 9 and c = 954437177 and b = 0]) (simp, simp add: shift_mult)
  have i3: "inj (\<lambda>k::khint. k + NOT (push_bit 15 k))"
    by (rule inj_affine [where a = "1 - 2 ^ 15" and c = 1073774593 and b = "- 1"]) (simp, simp add: shift_mult)
  show ?thesis unfolding steps by (intro inj_compose inj_xorshift i1 i2 i3) simp_all
qed

lemma inj_kh_mix_uint64: "inj kh_mix_uint64"
proof -
  have steps: "kh_mix_uint64 =
      (\<lambda>k. k + push_bit 31 k) \<circ> (\<lambda>k. k XOR drop_bit 28 k) \<circ> (\<lambda>k. (k + push_bit 2 k) + push_bit 4 k)
      \<circ> (\<lambda>k. k XOR drop_bit 14 k) \<circ> (\<lambda>k. (k + push_bit 3 k) + push_bit 8 k)
      \<circ> (\<lambda>k. k XOR drop_bit 24 k) \<circ> (\<lambda>k. NOT k + push_bit 21 k)"
    by (simp add: fun_eq_iff kh_mix_uint64_def Let_def)
  have i4: "inj (\<lambda>k::u64. k + push_bit 31 k)"
    by (rule inj_affine [where a = "1 + 2 ^ 31" and c = 4611686016279904257 and b = 0])
      (simp, simp add: shift_mult)
  have i5: "inj (\<lambda>k::u64. (k + push_bit 2 k) + push_bit 4 k)"
    by (rule inj_affine [where a = 21 and c = 14933078535860113213 and b = 0]) (simp, simp add: shift_mult)
  have i6: "inj (\<lambda>k::u64. (k + push_bit 3 k) + push_bit 8 k)"
    by (rule inj_affine [where a = 265 and c = 15244667743933553977 and b = 0]) (simp, simp add: shift_mult)
  have i7: "inj (\<lambda>k::u64. NOT k + push_bit 21 k)"
    by (rule inj_affine [where a = "2 ^ 21 - 1" and c = 9223367638806167551 and b = "- 1"])
      (simp, simp add: shift_mult)
  show ?thesis unfolding steps by (intro inj_compose inj_xorshift i4 i5 i6 i7) simp_all
qed

subsection \<open>Strings hash as the bytes before their terminator\<close>

lemma kh_hash_bytes_loop_fold:
  "i + n \<le> length s \<Longrightarrow> kh_hash_bytes_loop n h s i = fold (\<lambda>c h. fnv_step h c) (take n (drop i s)) h"
proof (induction n arbitrary: h i)
  case (Suc n)
  then have "take (Suc n) (drop i s) = s ! i # take n (drop (Suc i) s)"
    by (simp add: Cons_nth_drop_Suc [symmetric])
  with Suc show ?case by simp
qed simp

lemma kh_hash_str_loop_fold:
  "kh_hash_str_loop h s = fold (\<lambda>c h. fnv_step h c) (takeWhile (\<lambda>c. c \<noteq> 0) s) h"
  by (induction h s rule: kh_hash_str_loop.induct) auto

subsection \<open>Hexadecimal digits\<close>

definition hex_digit :: "khint \<Rightarrow> u8" where
  "hex_digit d = (if d < 10 then 0x30 + ucast d else 0x61 + ucast d - 10)"

definition hex8 :: "khint \<Rightarrow> bytes" where
  "hex8 w = map (\<lambda>k. hex_digit (drop_bit (28 - 4 * k) w AND 15)) [0..<8]"

lemma hex2uint_hex_digit: "d < 16 \<Longrightarrow> hex2uint (hex_digit d) = d"
proof -
  assume "d < 16"
  then have "unat d < 16" by (simp add: word_less_nat_alt)
  then have "unat d \<in> set [0..<16]" by simp
  then have "d \<in> (\<lambda>k. of_nat k) ` set [0..<16]" by (intro image_eqI [of _ _ "unat d"]) simp_all
  moreover have "\<forall>k\<in>set [0..<16]. hex2uint (hex_digit (of_nat k)) = of_nat k"
    by code_simp
  ultimately show ?thesis by auto
qed

lemma sha_hex_step:
  fixes w :: khint
  shows "(w AND NOT (mask (4 * Suc n))) OR push_bit (4 * n) (drop_bit (4 * n) w AND 15)
           = w AND NOT (mask (4 * n))"
proof (rule bit_eqI)
  fix k assume "possible_bit TYPE(khint) k"
  have m: "(15::khint) = mask 4" by (simp add: mask_eq_exp_minus_1)
  show "bit ((w AND NOT (mask (4 * Suc n))) OR push_bit (4 * n) (drop_bit (4 * n) w AND 15)) k
      \<longleftrightarrow> bit (w AND NOT (mask (4 * n))) k"
    unfolding m by (auto simp: bit_simps)
qed

lemma sha_hex_loop_hex8:
  assumes "n \<le> 8"
  shows "sha_hex_loop n (w AND NOT (mask (4 * n))) (hex8 w @ rest) (8 - n) = w"
  using assms
proof (induction n)
  case (Suc n)
  have "28 - 4 * (8 - Suc n) = 4 * n" "8 - Suc n < 8" using Suc.prems by simp_all
  then have "cstr_at (hex8 w @ rest) (8 - Suc n) = hex_digit (drop_bit (4 * n) w AND 15)"
    by (simp add: cstr_at_def hex8_def nth_append del: diff_Suc_Suc diff_Suc_eq_diff_pred)
  moreover have "drop_bit (4 * n) w AND 15 < 16"
    by (rule le_less_trans [OF word_and_le1]) simp
  ultimately have "hex2uint (cstr_at (hex8 w @ rest) (8 - Suc n)) = drop_bit (4 * n) w AND 15"
    by (simp add: hex2uint_hex_digit)
  moreover have "Suc (7 - n) = 8 - n" using Suc.prems by simp
  ultimately show ?case
    using Suc sha_hex_step [of w n] by simp
qed simp

end
