(* ===== verification/Khashl_Map.thy ===== *)
theory Khashl_Map
  imports Khashl_Update Hash_Functions
begin

text \<open>
  The convenient interfaces of \<open>khashl.h\<close> that the program instantiates: sets
  (\<open>KHASHL_CSET_INIT\<close>) and maps (\<open>KHASHL_CMAP_INIT\<close>) whose buckets cache the hash of their
  key, the abstract finite map they promise to be, and the map from root commits to
  identifiers of \<open>xh_cidx.h\<close> as its instance.
\<close>

subsection \<open>Buckets with a cached hash\<close>

record 'k cs_bucket =
  cs_key :: 'k
  cs_hash :: khint

definition cs_eq :: "('k \<Rightarrow> 'k \<Rightarrow> bool) \<Rightarrow> 'k cs_bucket \<Rightarrow> 'k cs_bucket \<Rightarrow> bool" where
  "cs_eq eqk x y \<longleftrightarrow> cs_hash x = cs_hash y \<and> eqk (cs_key x) (cs_key y)"

definition cset_get ::
  "('k \<Rightarrow> khint) \<Rightarrow> ('k \<Rightarrow> 'k \<Rightarrow> bool) \<Rightarrow> 'k cs_bucket khtab \<Rightarrow> 'k \<Rightarrow> khint"
where
  "cset_get hash_fn eqk h key =
     kh_getp cs_hash (cs_eq eqk) h \<lparr>cs_key = key, cs_hash = hash_fn key\<rparr>"

definition cset_put ::
  "('k \<Rightarrow> khint) \<Rightarrow> ('k \<Rightarrow> 'k \<Rightarrow> bool) \<Rightarrow> 'k cs_bucket \<Rightarrow> 'k cs_bucket khtab \<Rightarrow> 'k
     \<Rightarrow> ('k cs_bucket khtab \<times> khint \<times> int) option"
where
  "cset_put hash_fn eqk junk h key =
     kh_putp cs_hash (cs_eq eqk) junk h \<lparr>cs_key = key, cs_hash = hash_fn key\<rparr>"

definition cset_del :: "'k cs_bucket khtab \<Rightarrow> khint \<Rightarrow> ('k cs_bucket khtab \<times> int) option" where
  "cset_del h k = kh_del cs_hash h k"

definition cset_key :: "'k cs_bucket khtab \<Rightarrow> khint \<Rightarrow> 'k" where
  "cset_key h x = cs_key (kh_bucket h x)"

record ('k, 'v) cm_bucket =
  cm_key :: 'k
  cm_val :: 'v
  cm_hash :: khint

definition cm_eq :: "('k \<Rightarrow> 'k \<Rightarrow> bool) \<Rightarrow> ('k, 'v) cm_bucket \<Rightarrow> ('k, 'v) cm_bucket \<Rightarrow> bool" where
  "cm_eq eqk x y \<longleftrightarrow> cm_hash x = cm_hash y \<and> eqk (cm_key x) (cm_key y)"

text \<open>The value of the local bucket \<open>t\<close> is not set: it is whatever \<open>junk\<close> holds.\<close>

definition cmap_get ::
  "('k \<Rightarrow> khint) \<Rightarrow> ('k \<Rightarrow> 'k \<Rightarrow> bool) \<Rightarrow> ('k, 'v) cm_bucket \<Rightarrow> ('k, 'v) cm_bucket khtab \<Rightarrow> 'k \<Rightarrow> khint"
where
  "cmap_get hash_fn eqk junk h key =
     kh_getp cm_hash (cm_eq eqk) h (junk\<lparr>cm_key := key, cm_hash := hash_fn key\<rparr>)"

definition cmap_put ::
  "('k \<Rightarrow> khint) \<Rightarrow> ('k \<Rightarrow> 'k \<Rightarrow> bool) \<Rightarrow> ('k, 'v) cm_bucket \<Rightarrow> ('k, 'v) cm_bucket khtab \<Rightarrow> 'k
     \<Rightarrow> (('k, 'v) cm_bucket khtab \<times> khint \<times> int) option"
where
  "cmap_put hash_fn eqk junk h key =
     kh_putp cm_hash (cm_eq eqk) junk h (junk\<lparr>cm_key := key, cm_hash := hash_fn key\<rparr>)"

definition cmap_del :: "('k, 'v) cm_bucket khtab \<Rightarrow> khint \<Rightarrow> (('k, 'v) cm_bucket khtab \<times> int) option" where
  "cmap_del h k = kh_del cm_hash h k"

definition kh_val :: "('k, 'v) cm_bucket khtab \<Rightarrow> khint \<Rightarrow> 'v" where
  "kh_val h x = cm_val (kh_keys h ! unat x)"

definition kh_set_val :: "('k, 'v) cm_bucket khtab \<Rightarrow> khint \<Rightarrow> 'v \<Rightarrow> ('k, 'v) cm_bucket khtab" where
  "kh_set_val h x v = h\<lparr>kh_keys := (kh_keys h)[unat x := (kh_keys h ! unat x)\<lparr>cm_val := v\<rparr>]\<rparr>"

subsection \<open>Finite maps\<close>

text \<open>
  What a client of a map relies on: looking up after an insertion, as long as the number of
  entries stays below a bound \<open>cap\<close>.  Insertion is partial; the laws say it ends.
\<close>

locale finite_map_impl =
  fixes empty :: 'm
    and lookup :: "'m \<Rightarrow> 'k \<Rightarrow> 'v option"
    and ins :: "'m \<Rightarrow> 'k \<Rightarrow> 'v \<Rightarrow> 'm option"
    and entries :: "'m \<Rightarrow> nat"
    and invar :: "'m \<Rightarrow> bool"
    and cap :: nat
  assumes lookup_empty: "lookup empty = Map.empty"
    and invar_empty: "invar empty"
    and entries_empty: "entries empty = 0"
    and ins_law: "invar m \<Longrightarrow> entries m < cap \<Longrightarrow>
      \<exists>m'. ins m k v = Some m' \<and> invar m' \<and> lookup m' = (lookup m)(k \<mapsto> v)
        \<and> entries m' \<le> Suc (entries m)"
begin

fun ins_all :: "'m \<Rightarrow> ('k \<times> 'v) list \<Rightarrow> 'm option" where
  "ins_all m [] = Some m"
| "ins_all m ((k, v) # kvs) = Option.bind (ins m k v) (\<lambda>m. ins_all m kvs)"

lemma ins_all_correct:
  "invar m \<Longrightarrow> entries m + length kvs \<le> cap \<Longrightarrow>
     \<exists>m'. ins_all m kvs = Some m' \<and> invar m' \<and> lookup m' = lookup m ++ map_of (rev kvs)"
proof (induction m kvs rule: ins_all.induct)
  case (2 m k v kvs)
  then obtain m1 where m1: "ins m k v = Some m1" "invar m1" "lookup m1 = (lookup m)(k \<mapsto> v)"
    "entries m1 \<le> Suc (entries m)"
    using ins_law [of m k v] by auto
  moreover have "entries m1 + length kvs \<le> cap" using m1(4) "2.prems" by simp
  ultimately obtain m' where m': "ins_all m1 kvs = Some m'" "invar m'"
    "lookup m' = lookup m1 ++ map_of (rev kvs)" using "2.IH" [of m1] by blast
  have "lookup m' = lookup m ++ map_of (rev ((k, v) # kvs))"
    unfolding m'(3) m1(3) by (simp add: map_of_append map_add_assoc)
  then show ?case using m1(1) m'(1,2) by simp
qed auto

lemma ins_all_foldl:
  "foldl (\<lambda>m (k, v). Option.bind m (\<lambda>m. ins m k v)) (Some m) kvs = ins_all m kvs"
proof (induction m kvs rule: ins_all.induct)
  case (2 m k v kvs)
  have "foldl (\<lambda>m (k, v). Option.bind m (\<lambda>m. ins m k v)) None kvs = None" for kvs
    by (induction kvs) auto
  with 2 show ?case by (cases "ins m k v") simp_all
qed simp

end

subsection \<open>Buckets with a key and a value\<close>

text \<open>
  Lookup and insertion of a map on top of a table of buckets: \<open>mk\<close> makes the bucket that is looked
  for, \<open>val\<close> reads and \<open>upd\<close> writes the value of a bucket.
\<close>

definition bkt_lookup ::
  "('b \<Rightarrow> khint) \<Rightarrow> ('b \<Rightarrow> 'b \<Rightarrow> bool) \<Rightarrow> ('k \<Rightarrow> 'b) \<Rightarrow> ('b \<Rightarrow> 'v) \<Rightarrow> 'b khtab \<Rightarrow> 'k \<Rightarrow> 'v option"
where
  "bkt_lookup hf eq mk val h k =
     (let i = kh_getp hf eq h (mk k) in if i \<ge> kh_end h then None else Some (val (kh_bucket h i)))"

definition bkt_set :: "('b \<Rightarrow> 'v \<Rightarrow> 'b) \<Rightarrow> 'b khtab \<Rightarrow> khint \<Rightarrow> 'v \<Rightarrow> 'b khtab" where
  "bkt_set upd h i v = h\<lparr>kh_keys := (kh_keys h)[unat i := upd (kh_bucket h i) v]\<rparr>"

definition bkt_insert ::
  "('b \<Rightarrow> khint) \<Rightarrow> ('b \<Rightarrow> 'b \<Rightarrow> bool) \<Rightarrow> ('k \<Rightarrow> 'b) \<Rightarrow> ('b \<Rightarrow> 'v \<Rightarrow> 'b) \<Rightarrow> 'b \<Rightarrow> 'b khtab \<Rightarrow> 'k \<Rightarrow> 'v \<Rightarrow> ('b khtab \<times> int) option"
where
  "bkt_insert hf eq mk upd junk h k v =
     do { (h, i, absent) \<leftarrow> kh_putp hf eq junk h (mk k); Some (bkt_set upd h i v, absent) }"

definition bkt_wf :: "('b \<Rightarrow> khint) \<Rightarrow> ('b \<Rightarrow> 'b \<Rightarrow> bool) \<Rightarrow> ('b \<Rightarrow> bool) \<Rightarrow> 'b khtab \<Rightarrow> bool" where
  "bkt_wf hf eq good h \<longleftrightarrow> kh_wf hf eq h \<and> (\<forall>b\<in>kh_elems h. good b)"

text \<open>\<open>kh_foreach\<close>: the keys and values in the order of the slots.\<close>

definition kh_foreach :: "('b \<Rightarrow> 'k) \<Rightarrow> ('b \<Rightarrow> 'v) \<Rightarrow> 'b khtab \<Rightarrow> ('k \<times> 'v) list" where
  "kh_foreach key val h =
     map (\<lambda>i. (key (kh_bucket h (of_nat i)), val (kh_bucket h (of_nat i))))
       (filter (\<lambda>i. kh_exist h (of_nat i)) [0..<unat (kh_end h)])"

text \<open>
  What the buckets of a map promise: good buckets are equal when their keys are, and writing the
  value of a bucket changes neither its hash nor what it is equal to.
\<close>

locale kh_map_buckets = kh_keying hf eq for hf :: "'b \<Rightarrow> khint" and eq :: "'b \<Rightarrow> 'b \<Rightarrow> bool" +
  fixes key :: "'b \<Rightarrow> 'k" and val :: "'b \<Rightarrow> 'v" and upd :: "'b \<Rightarrow> 'v \<Rightarrow> 'b" and good :: "'b \<Rightarrow> bool" and mk :: "'k \<Rightarrow> 'b"
  assumes good_eq: "good x \<Longrightarrow> good y \<Longrightarrow> eq x y \<longleftrightarrow> key x = key y"
    and eq_key: "eq x y \<Longrightarrow> key x = key y"
    and good_mk: "good (mk k)" and key_mk: "key (mk k) = k"
    and good_upd: "good b \<Longrightarrow> good (upd b v)" and key_upd: "key (upd b v) = key b" and val_upd: "val (upd b v) = v"
    and hf_upd: "hf (upd b v) = hf b" and eq_upd: "eq (upd b v) c \<longleftrightarrow> eq b c" "eq c (upd b v) \<longleftrightarrow> eq c b"
begin

lemma bkt_unique:
  assumes "bkt_wf hf eq good h" "a \<in> kh_elems h" "b \<in> kh_elems h" "key a = key b"
  shows "a = b"
  using assms elem_unique [of h a b] good_eq [of a b] by (auto simp: bkt_wf_def)

lemma bucket_inj:
  assumes wf: "kh_wf hf eq h" and "i < unat (kh_end h)" "j < unat (kh_end h)" "kh_exist h (of_nat i)" "kh_exist h (of_nat j)"
    "kh_bucket h (of_nat i) = kh_bucket h (of_nat j)"
  shows "i = j"
proof -
  have len: "unat (kh_end h) = length (kh_keys h)" using capacity_length [OF wf] by (simp add: kh_end_def)
  have small: "length (kh_keys h) < 2 ^ 32" using len unsigned_less [of "kh_end h", where 'a = nat] by simp
  have un: "unat (of_nat x :: khint) = x" if "x < length (kh_keys h)" for x
    using that small by (simp add: unat_of_nat take_bit_nat_eq_self)
  have "i \<in> kh_slots (length (kh_keys h)) (kh_usedv h)" "j \<in> kh_slots (length (kh_keys h)) (kh_usedv h)"
    "kh_keys h ! i = kh_keys h ! j"
    using assms(2-6) len un by (auto simp: kh_slots_def kh_exist_def kh_bucket_def)
  then show ?thesis using wf eq_refl by (auto elim!: kh_wf_cases simp: kh_slots_def kh_unique_def kh_shape_def)
qed

lemma bkt_present_iff:
  assumes "bkt_wf hf eq good h"
  shows "(\<exists>b\<in>kh_elems h. eq b (mk k)) \<longleftrightarrow> (\<exists>b\<in>kh_elems h. key b = k)"
  using assms good_eq good_mk key_mk by (auto simp: bkt_wf_def)

lemma bkt_lookup_iff:
  assumes wf: "bkt_wf hf eq good h"
  shows "bkt_lookup hf eq mk val h k = Some v \<longleftrightarrow> (\<exists>b\<in>kh_elems h. key b = k \<and> val b = v)"
proof -
  let ?i = "kh_getp hf eq h (mk k)"
  have kwf: "kh_wf hf eq h" using wf by (simp add: bkt_wf_def)
  note get = getp_correct [OF kwf, of "mk k", unfolded bkt_present_iff [OF wf]]
  show ?thesis
  proof (cases "\<exists>b\<in>kh_elems h. key b = k")
    case True
    then have i: "?i < kh_end h" "kh_bucket h ?i \<in> kh_elems h" "key (kh_bucket h ?i) = k"
      using get eq_key key_mk by auto
    then have "bkt_lookup hf eq mk val h k = Some (val (kh_bucket h ?i))" by (simp add: bkt_lookup_def Let_def)
    moreover have "b = kh_bucket h ?i" if "b \<in> kh_elems h" "key b = k" for b
      using bkt_unique [OF wf that(1) i(2)] that(2) i(3) by simp
    ultimately show ?thesis using i(2,3) by (metis option.inject)
  next
    case False
    then show ?thesis using get by (auto simp: bkt_lookup_def Let_def)
  qed
qed

lemma bkt_set_correct:
  assumes wf: "bkt_wf hf eq good h" and i: "i < kh_end h" "kh_exist h i"
  shows "bkt_wf hf eq good (bkt_set upd h i v)" and "kh_count (bkt_set upd h i v) = kh_count h"
    and "kh_elems (bkt_set upd h i v) = insert (upd (kh_bucket h i) v) (kh_elems h - {kh_bucket h i})"
proof -
  let ?keys = "(kh_keys h)[unat i := upd (kh_bucket h i) v]"
  let ?S = "kh_slots (length (kh_keys h)) (kh_usedv h)"
  have kwf: "kh_wf hf eq h" using wf by (simp add: bkt_wf_def)
  have len: "unat i < length (kh_keys h)"
    using i(1) capacity_length [OF kwf] by (simp add: kh_end_def word_less_nat_alt)
  then have mem: "unat i \<in> ?S" using i(2) by (simp add: kh_slots_def kh_exist_def)
  have same: "hf (?keys ! x) = hf (kh_keys h ! x)" "eq (?keys ! x) c \<longleftrightarrow> eq (kh_keys h ! x) c"
    "eq c (?keys ! x) \<longleftrightarrow> eq c (kh_keys h ! x)" for x c
    using len by (simp_all add: nth_list_update kh_bucket_def hf_upd eq_upd)
  have "kh_unique eq A ?keys \<longleftrightarrow> kh_unique eq A (kh_keys h)" for A by (simp add: kh_unique_def same)
  moreover have "kh_home hf b (?keys ! x) = kh_home hf b (kh_keys h ! x)" for b x by (simp add: kh_home_def same)
  ultimately have wf1: "kh_wf hf eq (bkt_set upd h i v)"
    using kwf by (simp add: kh_wf_def bkt_set_def Let_def kh_shape_def)
  show "kh_count (bkt_set upd h i v) = kh_count h" by (simp add: bkt_set_def)
  have inj: "kh_keys h ! x \<noteq> kh_keys h ! unat i" if "x \<in> ?S" "x \<noteq> unat i" for x
    using that mem kwf eq_refl by (auto elim!: kh_wf_cases simp: kh_slots_def kh_unique_def kh_shape_def)
  have "kh_elems (bkt_set upd h i v) = (!) ?keys ` insert (unat i) (?S - {unat i})"
    using mem by (simp add: kh_elems_def bkt_set_def insert_absorb)
  also have "\<dots> = insert (upd (kh_bucket h i) v) ((!) (kh_keys h) ` (?S - {unat i}))"
    using len by (simp only: image_insert image_nth_update) (simp add: image_nth_update)
  also have "(!) (kh_keys h) ` (?S - {unat i}) = kh_elems h - {kh_bucket h i}"
    using inj mem by (auto simp: kh_elems_def kh_bucket_def)
  finally show el: "kh_elems (bkt_set upd h i v) = insert (upd (kh_bucket h i) v) (kh_elems h - {kh_bucket h i})" .
  have "kh_bucket h i \<in> kh_elems h" using mem by (auto simp: kh_elems_def kh_bucket_def)
  then show "bkt_wf hf eq good (bkt_set upd h i v)" using wf wf1 good_upd by (auto simp: bkt_wf_def el)
qed

lemma bkt_insert_correct:
  assumes wf: "bkt_wf hf eq good h" and small: "unat (kh_count h) < 3 * 2 ^ 29"
  shows "\<exists>h' absent. bkt_insert hf eq mk upd junk h k v = Some (h', absent) \<and> bkt_wf hf eq good h'
     \<and> bkt_lookup hf eq mk val h' = (bkt_lookup hf eq mk val h)(k \<mapsto> v)
     \<and> absent = (if bkt_lookup hf eq mk val h k = None then 1 else 0)
     \<and> unat (kh_count h') \<le> Suc (unat (kh_count h))"
proof -
  let ?new = "\<not> (\<exists>b\<in>kh_elems h. key b = k)"
  have kwf: "kh_wf hf eq h" using wf by (simp add: bkt_wf_def)
  obtain h1 i where put: "kh_putp hf eq junk h (mk k) = Some (h1, i, if ?new then 1 else 0)"
    and h1: "kh_wf hf eq h1" "i < kh_end h1" "kh_exist h1 i"
      "kh_elems h1 = (if ?new then insert (mk k) (kh_elems h) else kh_elems h)"
      "kh_bucket h1 i \<in> kh_elems h1" "key (kh_bucket h1 i) = k" "unat (kh_count h1) \<le> Suc (unat (kh_count h))"
  proof (cases ?new)
    case True
    then show thesis
      using that putp_correct [OF kwf small, of junk "mk k", unfolded bkt_present_iff [OF wf]] key_mk by auto
  next
    case False
    then show thesis
      using that putp_correct [OF kwf small, of junk "mk k", unfolded bkt_present_iff [OF wf]] eq_key [of _ "mk k"] key_mk by auto
  qed
  have wf1: "bkt_wf hf eq good h1" using h1(1,4) wf good_mk by (auto simp: bkt_wf_def split: if_splits)
  let ?h = "bkt_set upd h1 i v" and ?b = "upd (kh_bucket h1 i) v"
  note set = bkt_set_correct [OF wf1 h1(2,3), of v]
  have other: "b \<in> kh_elems ?h \<longleftrightarrow> b \<in> kh_elems h" if "key b \<noteq> k" for b
    using that h1(4,6) by (auto simp: set(3) key_upd key_mk)
  have self: "b \<in> kh_elems ?h \<longleftrightarrow> b = ?b" if "key b = k" for b
    using that bkt_unique [OF wf1 _ h1(5)] h1(6) by (auto simp: set(3))
  have "bkt_lookup hf eq mk val ?h k' = Some v' \<longleftrightarrow> ((bkt_lookup hf eq mk val h)(k \<mapsto> v)) k' = Some v'" for k' v'
  proof (cases "k' = k")
    case True
    have "(\<exists>b\<in>kh_elems ?h. key b = k \<and> val b = v') \<longleftrightarrow> v' = v"
      using self h1(6) by (auto intro!: bexI [of _ ?b] simp: key_upd val_upd)
    then show ?thesis using True by (auto simp: bkt_lookup_iff [OF set(1)])
  next
    case False
    then show ?thesis using other by (auto simp: bkt_lookup_iff [OF set(1)] bkt_lookup_iff [OF wf])
  qed
  then have "bkt_lookup hf eq mk val ?h = (bkt_lookup hf eq mk val h)(k \<mapsto> v)"
    by (intro ext option.expand) (metis option.exhaust_sel not_Some_eq)+
  moreover have "bkt_lookup hf eq mk val h k = None \<longleftrightarrow> ?new"
    using bkt_lookup_iff [OF wf, of k] by (metis not_Some_eq)
  ultimately show ?thesis using put set(1,2) h1(7) by (auto simp: bkt_insert_def)
qed

lemma foreach_lookup:
  assumes wf: "bkt_wf hf eq good h"
  shows "distinct (map fst (kh_foreach key val h))" and "map_of (kh_foreach key val h) = bkt_lookup hf eq mk val h"
proof -
  let ?is = "filter (\<lambda>i. kh_exist h (of_nat i)) [0..<unat (kh_end h)]"
  have kwf: "kh_wf hf eq h" using wf by (simp add: bkt_wf_def)
  have el: "kh_elems h = (\<lambda>i. kh_bucket h (of_nat i)) ` set ?is"
    by (auto simp: kh_elems_slots [OF kwf])
  have "inj_on (\<lambda>i. key (kh_bucket h (of_nat i))) (set ?is)"
  proof (rule inj_onI)
    fix i j assume ij: "i \<in> set ?is" "j \<in> set ?is" "key (kh_bucket h (of_nat i)) = key (kh_bucket h (of_nat j))"
    then have "kh_bucket h (of_nat i) = kh_bucket h (of_nat j)" using bkt_unique [OF wf] by (auto simp: el)
    with ij(1,2) show "i = j" using bucket_inj [OF kwf] by auto
  qed
  then show dist: "distinct (map fst (kh_foreach key val h))"
    by (simp add: kh_foreach_def distinct_map comp_def)
  have "map_of (kh_foreach key val h) k = Some v \<longleftrightarrow> bkt_lookup hf eq mk val h k = Some v" for k v
    unfolding map_of_eq_Some_iff [OF dist] bkt_lookup_iff [OF wf] by (auto simp: kh_foreach_def el)
  then show "map_of (kh_foreach key val h) = bkt_lookup hf eq mk val h"
    by (intro ext option.expand) (metis option.exhaust_sel not_Some_eq)+
qed

end

subsection \<open>A map whose keys are compared as strings\<close>

definition cmap_lookup ::
  "('k \<Rightarrow> khint) \<Rightarrow> ('k \<Rightarrow> 'k \<Rightarrow> bool) \<Rightarrow> ('k, 'v) cm_bucket \<Rightarrow> ('k, 'v) cm_bucket khtab \<Rightarrow> 'k \<Rightarrow> 'v option"
where
  "cmap_lookup hash_fn eqk junk h key =
     (let i = cmap_get hash_fn eqk junk h key
      in if i \<ge> kh_end h then None else Some (kh_val h i))"

definition cmap_insert ::
  "('k \<Rightarrow> khint) \<Rightarrow> ('k \<Rightarrow> 'k \<Rightarrow> bool) \<Rightarrow> ('k, 'v) cm_bucket \<Rightarrow> ('k, 'v) cm_bucket khtab \<Rightarrow> 'k \<Rightarrow> 'v
     \<Rightarrow> (('k, 'v) cm_bucket khtab \<times> int) option"
where
  "cmap_insert hash_fn eqk junk h key v =
     do { (h, k, absent) \<leftarrow> cmap_put hash_fn eqk junk h key; Some (kh_set_val h k v, absent) }"

text \<open>The state of a well-formed map: every bucket caches the hash of its key.\<close>

definition cmap_wf :: "('k \<Rightarrow> khint) \<Rightarrow> ('k, 'v) cm_bucket khtab \<Rightarrow> bool" where
  "cmap_wf hash_fn h \<longleftrightarrow> kh_wf cm_hash (cm_eq (=)) h
     \<and> (\<forall>b\<in>kh_elems h. cm_hash b = hash_fn (cm_key b))"

interpretation cm: kh_keying cm_hash "cm_eq (=)"
  by unfold_locales (auto simp: cm_eq_def)

interpretation cmb: kh_map_buckets cm_hash "cm_eq (=)" cm_key cm_val "\<lambda>b v. b\<lparr>cm_val := v\<rparr>"
  "\<lambda>b. cm_hash b = hash_fn (cm_key b)" "\<lambda>k. junk\<lparr>cm_key := k, cm_hash := hash_fn k\<rparr>"
  for hash_fn :: "'k \<Rightarrow> khint" and junk :: "('k, 'v) cm_bucket"
  by unfold_locales (auto simp: cm_eq_def)

lemma cmap_bkt:
  "cmap_wf hash_fn = bkt_wf cm_hash (cm_eq (=)) (\<lambda>b. cm_hash b = hash_fn (cm_key b))"
  "cmap_lookup hash_fn eqk junk = bkt_lookup cm_hash (cm_eq eqk) (\<lambda>k. junk\<lparr>cm_key := k, cm_hash := hash_fn k\<rparr>) cm_val"
  "kh_set_val = bkt_set (\<lambda>b v. b\<lparr>cm_val := v\<rparr>)"
  "cmap_insert hash_fn eqk junk =
     bkt_insert cm_hash (cm_eq eqk) (\<lambda>k. junk\<lparr>cm_key := k, cm_hash := hash_fn k\<rparr>) (\<lambda>b v. b\<lparr>cm_val := v\<rparr>) junk"
  by (intro ext; simp add: cmap_wf_def bkt_wf_def cmap_lookup_def bkt_lookup_def cmap_get_def kh_val_def kh_bucket_def Let_def
      kh_set_val_def bkt_set_def cmap_insert_def bkt_insert_def cmap_put_def)+

lemma cmap_lookup_iff:
  "cmap_wf hash_fn h \<Longrightarrow> cmap_lookup hash_fn (=) junk h k = Some v \<longleftrightarrow> (\<exists>b\<in>kh_elems h. cm_key b = k \<and> cm_val b = v)"
  unfolding cmap_bkt by (rule cmb.bkt_lookup_iff)

lemma cmap_insert_correct:
  assumes "cmap_wf hash_fn h" "unat (kh_count h) < 3 * 2 ^ 29"
  shows "\<exists>h' absent. cmap_insert hash_fn (=) junk h k v = Some (h', absent) \<and> cmap_wf hash_fn h'
     \<and> cmap_lookup hash_fn (=) junk h' = (cmap_lookup hash_fn (=) junk h)(k \<mapsto> v)
     \<and> absent = (if cmap_lookup hash_fn (=) junk h k = None then 1 else 0)
     \<and> unat (kh_count h') \<le> Suc (unat (kh_count h))"
  using assms unfolding cmap_bkt by (rule cmb.bkt_insert_correct)

end
