(* ===== verification/Khashl_Spec.thy ===== *)
theory Khashl_Spec
  imports Khashl_Map
begin

text \<open>
  What the hash table of \<open>khashl.h\<close> promises, stated over the operations themselves: lookup,
  insertion, deletion, resize and clear against the set of buckets a table holds, sequences of
  operations against sequences of set operations, and the hash functions.
\<close>

subsection \<open>Sequences of operations and their abstract counterpart\<close>

datatype 'b kh_op = KhPut 'b | KhDel 'b | KhClear | KhResize khint

fun kh_exec ::
  "('b \<Rightarrow> khint) \<Rightarrow> ('b \<Rightarrow> 'b \<Rightarrow> bool) \<Rightarrow> 'b \<Rightarrow> 'b khtab \<Rightarrow> 'b kh_op \<Rightarrow> 'b khtab option"
where
  "kh_exec hf eq junk h (KhPut b) = map_option fst (kh_putp hf eq junk h b)"
| "kh_exec hf eq junk h (KhDel b) =
     (let i = kh_getp hf eq h b
      in if i = kh_end h then Some h else map_option fst (kh_del hf h i))"
| "kh_exec hf eq junk h KhClear = Some (kh_clear h)"
| "kh_exec hf eq junk h (KhResize m) = kh_resize hf junk h m"

fun kh_exec_all ::
  "('b \<Rightarrow> khint) \<Rightarrow> ('b \<Rightarrow> 'b \<Rightarrow> bool) \<Rightarrow> 'b \<Rightarrow> 'b khtab \<Rightarrow> 'b kh_op list \<Rightarrow> 'b khtab option"
where
  "kh_exec_all hf eq junk h [] = Some h"
| "kh_exec_all hf eq junk h (x # xs) =
     Option.bind (kh_exec hf eq junk h x) (\<lambda>h. kh_exec_all hf eq junk h xs)"

fun set_exec :: "('b \<Rightarrow> 'b \<Rightarrow> bool) \<Rightarrow> 'b kh_op \<Rightarrow> 'b set \<Rightarrow> 'b set" where
  "set_exec eq (KhPut b) S = (if \<exists>x\<in>S. eq x b then S else insert b S)"
| "set_exec eq (KhDel b) S = {x \<in> S. \<not> eq x b}"
| "set_exec eq KhClear S = {}"
| "set_exec eq (KhResize m) S = S"

fun kh_op_ok :: "'b kh_op \<Rightarrow> bool" where
  "kh_op_ok (KhResize m) \<longleftrightarrow> m \<noteq> 0 \<and> unat m \<le> 2 ^ 31"
| "kh_op_ok _ \<longleftrightarrow> True"

lemma kh_slots_code [code]: "kh_slots n used = set (filter (kus used) [0..<n])"
  by (auto simp: kh_slots_def)

context kh_keying
begin

lemma del_key_correct:
  assumes wf: "kh_wf hf eq h"
  shows "\<exists>h'. kh_exec hf eq junk h (KhDel b) = Some h' \<and> kh_wf hf eq h'
     \<and> kh_elems h' = {x \<in> kh_elems h. \<not> eq x b} \<and> unat (kh_count h') \<le> unat (kh_count h)"
proof (cases "\<exists>x\<in>kh_elems h. eq x b")
  case False
  then show ?thesis using wf getp_correct [OF wf, of b] by auto
next
  case True
  let ?i = "kh_getp hf eq h b"
  have i: "?i < kh_end h" "kh_exist h ?i" "kh_bucket h ?i \<in> kh_elems h" "eq (kh_bucket h ?i) b"
    using True getp_correct [OF wf, of b] by auto
  then obtain h' where h': "kh_del hf h ?i = Some (h', 1)" "kh_wf hf eq h'"
    "kh_elems h' = kh_elems h - {kh_bucket h ?i}" "unat (kh_count h) = Suc (unat (kh_count h'))"
    using del_correct [OF wf] by blast
  have "x = kh_bucket h ?i" if "x \<in> kh_elems h" "eq x b" for x
    using elem_unique [OF wf that(1) i(3)] that(2) i(4) eq_sym eq_trans by blast
  then have "kh_elems h' = {x \<in> kh_elems h. \<not> eq x b}" using i(4) by (auto simp: h'(3))
  then show ?thesis using i(1) h'(1,2,4) by (auto simp: Let_def)
qed

lemma exec_correct:
  assumes wf: "kh_wf hf eq h" and small: "unat (kh_count h) < 3 * 2 ^ 29" and ok: "kh_op_ok x"
  shows "\<exists>h'. kh_exec hf eq junk h x = Some h' \<and> kh_wf hf eq h'
     \<and> kh_elems h' = set_exec eq x (kh_elems h) \<and> unat (kh_count h') \<le> Suc (unat (kh_count h))"
proof (cases x)
  case (KhPut b)
  then show ?thesis using putp_correct [OF wf small, of junk b] by (auto split: if_splits)
next
  case (KhDel b)
  then show ?thesis using del_key_correct [OF wf, of junk b] by auto
next
  case KhClear
  then show ?thesis using clear_correct [OF wf] by auto
next
  case (KhResize m)
  then show ?thesis using resize_correct [OF wf, of m junk] ok by auto
qed

lemma exec_all_correct:
  assumes "kh_wf hf eq h" and "unat (kh_count h) + length xs \<le> 3 * 2 ^ 29" and "list_all kh_op_ok xs"
  shows "\<exists>h'. kh_exec_all hf eq junk h xs = Some h' \<and> kh_wf hf eq h'
     \<and> kh_elems h' = fold (set_exec eq) xs (kh_elems h)"
  using assms
proof (induction xs arbitrary: h)
  case (Cons x xs)
  then obtain h1 where h1: "kh_exec hf eq junk h x = Some h1" "kh_wf hf eq h1"
    "kh_elems h1 = set_exec eq x (kh_elems h)" "unat (kh_count h1) \<le> Suc (unat (kh_count h))"
    using exec_correct [of h x junk] by auto
  then show ?case using Cons.IH [OF h1(2)] Cons.prems by auto
qed simp

end

subsection \<open>A sample table\<close>

text \<open>Two of the four slots are in use, by the keys 7 and 9, each in its home slot.\<close>

definition kh_sample :: "u32 khtab" where
  "kh_sample = \<lparr>kh_bits = 2, kh_count = 2, kh_usedv = [6], kh_keys = [0, 7, 9, 0]\<rparr>"

lemma uint32_keying: "kh_keying kh_hash_uint32 (=)"
  by unfold_locales auto

lemma all_less_4: "(\<forall>i<4::nat. P i) = (P 0 \<and> P 1 \<and> P 2 \<and> P 3)"
  by (simp add: numeral_eq_Suc All_less_Suc) blast

lemma kh_h2b_sample: "kh_h2b (kh_hash_uint32 7) 2 = 1" "kh_h2b (kh_hash_uint32 9) 2 = 2"
  by (simp_all add: kh_h2b_def kh_hash_uint32_def Let_def)

lemma kh_slots_sample: "kh_slots 4 [6] = {1, 2}"
  unfolding kh_slots_code by (simp add: upt_rec kus_def numeral_2_eq_2)

lemma kh_wf_sample: "kh_wf kh_hash_uint32 (=) kh_sample"
  by (simp add: kh_wf_def kh_shape_def kh_sample_def Let_def kh_gapfree_def all_less_4 kh_home_def
      kh_h2b_sample kh_unique_def kh_slots_sample circ_defs kus_def kh_fsize_def kh_pow_def)

lemma kh_elems_sample: "kh_elems kh_sample = {7, 9}"
  using kh_slots_sample by (simp add: kh_elems_def kh_sample_def numeral_eq_Suc)

lemma kh_end_sample: "kh_end kh_sample = 4"
  by (simp add: kh_sample_def kh_end_def kh_capacity_def kh_pow_def)

lemma kh_count_sample: "kh_count kh_sample = 2"
  by (simp add: kh_sample_def)

lemma kh_exist_sample: "kh_exist kh_sample 1" "kh_bucket kh_sample 1 = 7"
  by (simp_all add: kh_sample_def kh_exist_def kus_def kh_bucket_def)

lemmas kh_sample = kh_wf_sample kh_elems_sample kh_end_sample kh_count_sample kh_exist_sample

subsection \<open>Properties\<close>

text \<open>
  C2: any sequence of insertions, deletions, resizes and clears on a fresh table returns (no
  probe, rehash or shift loop runs forever) and leaves a well-formed table that holds
  exactly the buckets of the same sequence of set operations, as long as at most \<open>3 * 2\<^sup>2\<^sup>9\<close>
  operations are made, so that the 32-bit capacity is not exceeded.
\<close>

theorem kh_ops_refine_sets:
  assumes "kh_keying hf eq" "length xs \<le> 3 * 2 ^ 29" "list_all kh_op_ok xs"
  shows "\<exists>h. kh_exec_all hf eq junk kh_init xs = Some h \<and> kh_wf hf eq h
    \<and> kh_elems h = fold (set_exec eq) xs {}"
  using kh_keying.exec_all_correct [OF assms(1) kh_wf_init, of xs junk] assms(2,3)
  by (simp add: kh_init_def flip: kh_elems_init)

theorem kh_ops_refine_sets_witness:
  "kh_keying kh_hash_uint32 (=) \<and> (\<exists>h. kh_exec_all kh_hash_uint32 (=) 0 kh_init
       [KhPut 7, KhPut 9, KhResize 64, KhDel 7, KhPut 9] = Some h
     \<and> kh_wf kh_hash_uint32 (=) h \<and> kh_elems h = {9})"
  using kh_ops_refine_sets [OF uint32_keying, of "[KhPut 7, KhPut 9, KhResize 64, KhDel 7, KhPut 9]" 0]
    uint32_keying by auto

text \<open>
  C12: lookup (\<open>getp\<close>) in a well-formed table returns a used slot whose bucket has an equal
  key when the table holds one, and \<open>kh_end\<close> otherwise.
\<close>

theorem kh_getp_correct:
  assumes "kh_keying hf eq" "kh_wf hf eq h"
  shows "if \<exists>b\<in>kh_elems h. eq b key
         then kh_getp hf eq h key < kh_end h \<and> kh_exist h (kh_getp hf eq h key)
           \<and> kh_bucket h (kh_getp hf eq h key) \<in> kh_elems h
           \<and> eq (kh_bucket h (kh_getp hf eq h key)) key
         else kh_getp hf eq h key = kh_end h"
  by (rule kh_keying.getp_correct [OF assms])

theorem kh_getp_correct_witness:
  "kh_keying kh_hash_uint32 (=) \<and> kh_wf kh_hash_uint32 (=) kh_sample
   \<and> kh_getp kh_hash_uint32 (=) kh_sample 9 < 4
   \<and> kh_bucket kh_sample (kh_getp kh_hash_uint32 (=) kh_sample 9) = 9
   \<and> kh_getp kh_hash_uint32 (=) kh_sample 5 = 4"
  using kh_getp_correct [OF uint32_keying kh_wf_sample, of 9]
    kh_getp_correct [OF uint32_keying kh_wf_sample, of 5] uint32_keying
  by (simp add: kh_sample)

text \<open>
  C11: insertion (\<open>putp\<close>) into a well-formed table below the 32-bit bound returns; it reports
  0 and a slot with the equal bucket when there is one and changes no bucket, and otherwise
  reports 1, adds exactly the new bucket at the returned slot and counts it; the table stays
  well-formed, whether or not it grew on the way.
\<close>

theorem kh_putp_correct:
  assumes "kh_keying hf eq" "kh_wf hf eq h" "unat (kh_count h) < 3 * 2 ^ 29"
  shows "\<exists>h' i. kh_putp hf eq junk h key = Some (h', i, if \<exists>b\<in>kh_elems h. eq b key then 0 else 1)
     \<and> kh_wf hf eq h' \<and> i < kh_end h' \<and> kh_exist h' i
     \<and> (if \<exists>b\<in>kh_elems h. eq b key
        then kh_elems h' = kh_elems h \<and> kh_bucket h' i \<in> kh_elems h \<and> eq (kh_bucket h' i) key
          \<and> kh_count h' = kh_count h
        else kh_elems h' = insert key (kh_elems h) \<and> kh_bucket h' i = key
          \<and> unat (kh_count h') = Suc (unat (kh_count h)))"
  by (rule kh_keying.putp_correct [OF assms])

theorem kh_putp_correct_witness:
  "kh_keying kh_hash_uint32 (=) \<and> kh_wf kh_hash_uint32 (=) kh_sample \<and> unat (kh_count kh_sample) = 2
   \<and> (\<exists>h i. kh_putp kh_hash_uint32 (=) 0 kh_sample 5 = Some (h, i, 1)
      \<and> kh_elems h = {5, 7, 9} \<and> unat (kh_count h) = 3)"
  using kh_putp_correct [OF uint32_keying kh_wf_sample, of 0 5] uint32_keying
  by (auto simp: kh_sample)

text \<open>
  C10: deletion at a used slot of a well-formed table returns 1, removes exactly the bucket
  of that slot, keeps every other bucket reachable (the shifted run has no gap) and the
  table well-formed, and lowers the count by one.
\<close>

theorem kh_del_correct:
  assumes "kh_keying hf eq" "kh_wf hf eq h" "i < kh_end h" "kh_exist h i"
  shows "\<exists>h'. kh_del hf h i = Some (h', 1) \<and> kh_wf hf eq h'
     \<and> kh_elems h' = kh_elems h - {kh_bucket h i} \<and> unat (kh_count h) = Suc (unat (kh_count h'))"
  by (rule kh_keying.del_correct [OF assms])

theorem kh_del_correct_witness:
  "kh_keying kh_hash_uint32 (=) \<and> kh_wf kh_hash_uint32 (=) kh_sample \<and> kh_exist kh_sample 1
   \<and> (\<exists>h. kh_del kh_hash_uint32 kh_sample 1 = Some (h, 1) \<and> kh_wf kh_hash_uint32 (=) h
      \<and> kh_elems h = {9} \<and> unat (kh_count h) = 1)"
  using kh_del_correct [OF uint32_keying kh_wf_sample, of 1] uint32_keying
  by (auto simp: kh_sample)

text \<open>
  C13: a resize of a well-formed table to any positive size up to \<open>2\<^sup>3\<^sup>1\<close> returns and keeps the
  buckets, the count and well-formedness; it takes effect exactly when the buckets fit under
  the load factor of the new size, and is a no-op otherwise.
\<close>

theorem kh_resize_correct:
  assumes "kh_keying hf eq" "kh_wf hf eq h" "m \<noteq> 0" "unat m \<le> 2 ^ 31"
  shows "\<exists>h'. kh_resize hf junk h m = Some h' \<and> kh_wf hf eq h' \<and> kh_elems h' = kh_elems h
     \<and> kh_count h' = kh_count h
     \<and> (if unat (kh_count h) \<le> 2 ^ unat (kh_new_bits m) div 2 + 2 ^ unat (kh_new_bits m) div 4
        then kh_shape h' \<and> kh_bits h' = kh_new_bits m else h' = h)"
  by (rule kh_keying.resize_correct [OF assms])

theorem kh_resize_correct_witness:
  "kh_keying kh_hash_uint32 (=) \<and> kh_wf kh_hash_uint32 (=) kh_sample
   \<and> (\<exists>h. kh_resize kh_hash_uint32 0 kh_sample 8 = Some h \<and> kh_wf kh_hash_uint32 (=) h
      \<and> kh_elems h = {7, 9} \<and> kh_count h = 2)"
  using kh_resize_correct [OF uint32_keying kh_wf_sample, of 8 0] uint32_keying
  by (auto simp: kh_sample)

text \<open>
  Clearing a well-formed table leaves a well-formed table of the same capacity with no
  bucket and count 0.
\<close>

theorem kh_clear_correct:
  assumes "kh_keying hf eq" "kh_wf hf eq h"
  shows "kh_wf hf eq (kh_clear h) \<and> kh_elems (kh_clear h) = {} \<and> kh_count (kh_clear h) = 0
     \<and> kh_capacity (kh_clear h) = kh_capacity h"
  by (rule kh_keying.clear_correct [OF assms])

theorem kh_clear_correct_witness:
  "kh_keying kh_hash_uint32 (=) \<and> kh_wf kh_hash_uint32 (=) kh_sample
   \<and> kh_elems kh_sample = {7, 9} \<and> kh_elems (kh_clear kh_sample) = {}"
  using kh_clear_correct [OF uint32_keying kh_wf_sample] uint32_keying by (simp add: kh_sample)

text \<open>
  \<open>kh_hash_uint32\<close> is a permutation of the 32-bit integers: no two keys share a hash.
\<close>

theorem kh_hash_uint32_bij: "bij kh_hash_uint32"
  using inj_kh_hash_uint32 by (simp add: bij_def finite_UNIV_inj_surj)

text \<open>
  The hash of a C string is the hash of the bytes before its terminator, so
  \<open>kh_hash_str\<close> and \<open>kh_hash_bytes\<close> agree on every string without a zero byte.
\<close>

theorem kh_hash_str_bytes:
  "kh_hash_str s = kh_hash_bytes (length (takeWhile (\<lambda>c. c \<noteq> 0) s)) (takeWhile (\<lambda>c. c \<noteq> 0) s)"
  by (simp add: kh_hash_str_def kh_hash_bytes_def kh_hash_str_loop_fold kh_hash_bytes_loop_fold)

text \<open>
  The hash of a hexadecimal object name is the number its first eight digits write, so
  the hash of the eight digits of a word followed by anything is that word.
\<close>

theorem sha_hex_hash_roundtrip: "sha_hex_hash (hex8 w @ rest) = w"
proof -
  have "w AND NOT (mask (4 * 8)) = 0" by (rule bit_eqI) (simp add: bit_simps)
  then show ?thesis using sha_hex_loop_hex8 [of 8 w rest] by (simp add: sha_hex_hash_def)
qed

end
