(* ===== verification/Workers.thy ===== *)
theory Workers
  imports PI_Prelude
begin

text \<open>
  The parent process of \<open>xap_helper.h\<close>: the table of worker processes and the handlers that
  the signal pipe drives (\<open>prefork_loop\<close>), the lei-only variant (\<open>dynfork_loop\<close>), and the
  signal handler \<open>sigp\<close> that feeds the pipe.  The state is what the file keeps in its static
  variables; the kernel is an argument (the values \<open>fork\<close>, \<open>realloc\<close>, \<open>waitpid\<close> and \<open>read\<close>
  return) and a log of what it was asked to do and warned about; that \<open>kill\<close> failed is only
  warned about in the source and not in the log.
\<close>

subsection \<open>State and environment\<close>

datatype signal = SIGCHLD | SIGTTOU | SIGTTIN | SIGUSR1 | SIGTERM | SIGOTHER int

text \<open>
  What ends or blocks the parent: an access outside \<open>worker_pids\<close> (undefined behaviour in the
  source), a failed \<open>assert\<close>, an exit, the child branch of \<open>fork\<close> (which runs \<open>recv_loop\<close> and
  exits, in a process of its own), and a system call that has not returned.
\<close>

datatype halt = OutOfBounds | AssertFailed | ExitFailure | InChild | Blocked

datatype act =
  Kill int signal | ReopenLogs | WarnFdLow | WarnTooMany | WarnRealloc | WarnFork | WarnUnknownPid | WarnDied

record pool =
  worker_pids :: "int list"
  nworker :: nat
  nworker_hwm :: nat
  alive :: bool
  my_fd_max :: int
  nforks :: nat
  nreallocs :: nat
  acts :: "act list"

record kernel =
  fork_ret :: "nat \<Rightarrow> int"
  realloc_ok :: "nat \<Rightarrow> bool"
  rlimit_nofile :: "int option"

type_synonym pool_res = "halt + pool"

definition WORKER_MAX :: nat where
  "WORKER_MAX = 65535"

definition EX_NOINPUT :: int where
  "EX_NOINPUT = 66"

text \<open>The \<open>wait\<close> status macros: low seven bits zero for an exit, its code in the next byte.\<close>

definition WIFEXITED :: "int \<Rightarrow> bool" where
  "WIFEXITED st \<longleftrightarrow> st mod 128 = 0"

definition WEXITSTATUS :: "int \<Rightarrow> int" where
  "WEXITSTATUS st = st div 256 mod 256"

definition log_act :: "act \<Rightarrow> pool \<Rightarrow> pool" where
  "log_act a s = s\<lparr>acts := acts s @ [a]\<rparr>"

definition read_pid :: "pool \<Rightarrow> nat \<Rightarrow> halt + int" where
  "read_pid s nr = (if nr < length (worker_pids s) then Inr (worker_pids s ! nr) else Inl OutOfBounds)"

definition write_pid :: "pool \<Rightarrow> nat \<Rightarrow> int \<Rightarrow> pool_res" where
  "write_pid s nr pid =
     (if nr < length (worker_pids s) then Inr (s\<lparr>worker_pids := (worker_pids s)[nr := pid]\<rparr>)
      else Inl OutOfBounds)"

subsection \<open>Starting workers\<close>

definition insert_pid :: "int \<Rightarrow> nat \<Rightarrow> pool \<Rightarrow> pool_res" where
  "insert_pid pid nr s =
     sum_bind (read_pid s nr) (\<lambda>old.
       if old \<noteq> 0 then Inl AssertFailed else write_pid s nr pid)"

definition start_worker :: "kernel \<Rightarrow> nat \<Rightarrow> pool \<Rightarrow> pool_res" where
  "start_worker K nr s =
     (let pid = fork_ret K (nforks s); s = s\<lparr>nforks := Suc (nforks s)\<rparr>
      in if pid < 0 then Inr (log_act WarnFork s)
         else if pid > 0 then insert_pid pid nr s
         else Inl InChild)"

function start_workers_loop :: "kernel \<Rightarrow> nat \<Rightarrow> nat \<Rightarrow> pool \<Rightarrow> pool_res" where
  "start_workers_loop K n nr s =
     (if nr < n then
        sum_bind (read_pid s nr) (\<lambda>pid.
          sum_bind (if pid = 0 then start_worker K nr s else Inr s)
            (start_workers_loop K n (Suc nr)))
      else Inr s)"
  by pat_completeness auto
termination
  by (relation "measure (\<lambda>(K, n, nr, s). n - nr)") auto

declare start_workers_loop.simps [simp del]

definition start_workers :: "kernel \<Rightarrow> pool \<Rightarrow> pool_res" where
  "start_workers K s = start_workers_loop K (nworker s) 0 s"

subsection \<open>Reaping\<close>

function find_pid :: "pool \<Rightarrow> int \<Rightarrow> nat \<Rightarrow> halt + nat" where
  "find_pid s pid nr =
     (if nr < nworker_hwm s then
        sum_bind (read_pid s nr) (\<lambda>x. if x = pid then Inr nr else find_pid s pid (Suc nr))
      else Inr nr)"
  by pat_completeness auto
termination
  by (relation "measure (\<lambda>(s, pid, nr). nworker_hwm s - nr)") auto

declare find_pid.simps [simp del]

definition reaped_prefork_worker :: "kernel \<Rightarrow> int \<Rightarrow> int \<Rightarrow> pool \<Rightarrow> pool_res" where
  "reaped_prefork_worker K pid st s =
     sum_bind (find_pid s pid 0) (\<lambda>nr.
       if nr \<ge> nworker_hwm s then Inr (log_act WarnUnknownPid s)
       else
         sum_bind (write_pid s nr 0) (\<lambda>s.
           let s = (if WIFEXITED st \<and> WEXITSTATUS st = EX_NOINPUT then s\<lparr>alive := False\<rparr>
                    else if st \<noteq> 0 then log_act WarnDied s else s)
           in if alive s then start_workers K s else Inr s))"

definition reaped_dynfork_worker :: "int \<Rightarrow> int \<Rightarrow> pool \<Rightarrow> pool" where
  "reaped_dynfork_worker pid st s =
     (if WIFEXITED st \<and> WEXITSTATUS st = EX_NOINPUT then s\<lparr>alive := False\<rparr>
      else if st \<noteq> 0 then log_act WarnDied s else s)"

text \<open>
  The results of \<open>waitpid(-1, &st, WNOHANG)\<close>: a child, none ready, or an error.  The loop of
  \<open>do_sigchld\<close> consumes them up to the one that makes it return.
\<close>

datatype wait_ret = Reaped int int | NoneReady | ECHILD | EINTR_wait | WaitError

fun do_sigchld :: "bool \<Rightarrow> kernel \<Rightarrow> wait_ret list \<Rightarrow> pool \<Rightarrow> pool_res" where
  "do_sigchld lei K [] s = Inl Blocked"
| "do_sigchld lei K (Reaped pid st # ws) s =
     sum_bind (if lei then Inr (reaped_dynfork_worker pid st s) else reaped_prefork_worker K pid st s)
       (do_sigchld lei K ws)"
| "do_sigchld lei K (NoneReady # ws) s = Inr s"
| "do_sigchld lei K (ECHILD # ws) s = Inr s"
| "do_sigchld lei K (EINTR_wait # ws) s = do_sigchld lei K ws s"
| "do_sigchld lei K (WaitError # ws) s = Inl ExitFailure"

subsection \<open>Changing the number of workers\<close>

text \<open>
  \<open>realloc\<close> to \<open>n\<close> elements keeps a prefix: it drops the end of a longer array and adds
  indeterminate elements to a shorter one (written as zero; the one element it can add here
  is overwritten at once).
\<close>

definition realloc_pids :: "nat \<Rightarrow> int list \<Rightarrow> int list" where
  "realloc_pids n xs = take n xs @ replicate (n - length xs) 0"

definition do_sigttin :: "kernel \<Rightarrow> pool \<Rightarrow> pool_res" where
  "do_sigttin K s =
     (if \<not> alive s then Inr s
      else if nworker s \<ge> WORKER_MAX then Inr (log_act WarnTooMany s)
      else
        let ok = realloc_ok K (nreallocs s); s = s\<lparr>nreallocs := Suc (nreallocs s)\<rparr>
        in if \<not> ok then Inr (log_act WarnRealloc s)
           else
             let s = s\<lparr>worker_pids := realloc_pids (nworker s + 1) (worker_pids s)\<rparr>
             in sum_bind (write_pid s (nworker s) 0) (\<lambda>s.
                  let s = s\<lparr>nworker := nworker s + 1\<rparr>;
                      s = (if nworker_hwm s < nworker s then s\<lparr>nworker_hwm := nworker s\<rparr> else s)
                  in start_workers K s))"

function kill_from :: "signal \<Rightarrow> nat \<Rightarrow> pool \<Rightarrow> pool_res" where
  "kill_from sig nr s =
     (if nr < nworker_hwm s then
        sum_bind (read_pid s nr) (\<lambda>pid.
          kill_from sig (Suc nr) (if pid \<noteq> 0 then log_act (Kill pid sig) s else s))
      else Inr s)"
  by pat_completeness auto
termination
  by (relation "measure (\<lambda>(sig, nr, s). nworker_hwm s - nr)") (auto simp: log_act_def)

declare kill_from.simps [simp del]

definition do_sigttou :: "pool \<Rightarrow> pool_res" where
  "do_sigttou s =
     (if \<not> alive s \<or> nworker s \<le> 1 then Inr s
      else let s = s\<lparr>nworker := nworker s - 1\<rparr> in kill_from SIGTERM (nworker s) s)"

definition parent_reopen_logs :: "pool \<Rightarrow> pool_res" where
  "parent_reopen_logs s = (let s = log_act ReopenLogs s in kill_from SIGUSR1 (nworker s) s)"

function count_living :: "pool \<Rightarrow> nat \<Rightarrow> nat \<Rightarrow> halt + nat" where
  "count_living s nr ret =
     (if nr < nworker_hwm s then
        sum_bind (read_pid s nr) (\<lambda>pid. count_living s (Suc nr) (if pid \<noteq> 0 then ret + 1 else ret))
      else Inr ret)"
  by pat_completeness auto
termination
  by (relation "measure (\<lambda>(s, nr, ret). nworker_hwm s - nr)") auto

declare count_living.simps [simp del]

definition living_workers :: "pool \<Rightarrow> halt + nat" where
  "living_workers s = count_living s 0 0"

subsection \<open>The signal pipe and the main loops\<close>

datatype write_ret = Wrote | EAGAIN_write | WroteZero | WriteErrno

definition sigp_char :: "signal \<Rightarrow> char option" where
  "sigp_char sig =
     (case sig of SIGCHLD \<Rightarrow> Some CHR ''.'' | SIGTTOU \<Rightarrow> Some CHR ''-'' | SIGTTIN \<Rightarrow> Some CHR ''+''
      | SIGUSR1 \<Rightarrow> Some CHR ''#'' | _ \<Rightarrow> None)"

text \<open>The handler: the byte it puts into the pipe, if any, or the exit of the process.\<close>

definition sigp :: "signal \<Rightarrow> write_ret \<Rightarrow> halt + char option" where
  "sigp sig w =
     (case sigp_char sig of
        None \<Rightarrow> Inl ExitFailure
      | Some c \<Rightarrow>
          (case w of Wrote \<Rightarrow> Inr (Some c) | EAGAIN_write \<Rightarrow> Inr None
           | WroteZero \<Rightarrow> Inl ExitFailure | WriteErrno \<Rightarrow> Inl ExitFailure))"

definition prefork_byte :: "kernel \<Rightarrow> char \<Rightarrow> pool \<Rightarrow> pool_res" where
  "prefork_byte K c s =
     (if c = CHR ''.'' then Inr s
      else if c = CHR ''-'' then do_sigttou s
      else if c = CHR ''+'' then do_sigttin K s
      else if c = CHR ''#'' then parent_reopen_logs s
      else Inl ExitFailure)"

fun prefork_bytes :: "kernel \<Rightarrow> string \<Rightarrow> pool \<Rightarrow> pool_res" where
  "prefork_bytes K [] s = Inr s"
| "prefork_bytes K (c # cs) s = sum_bind (prefork_byte K c s) (prefork_bytes K cs)"

text \<open>One pass of the loop: what \<open>read\<close> returned, and the results of \<open>waitpid\<close> that follow.\<close>

datatype read_ret = ReadBytes string | ReadEINTR | ReadEAGAIN | ReadError | ReadEOF

fun prefork_while :: "kernel \<Rightarrow> (read_ret \<times> wait_ret list) list \<Rightarrow> pool \<Rightarrow> pool_res" where
  "prefork_while K rs s =
     sum_bind (if alive s then Inr True else sum_bind (living_workers s) (\<lambda>n. Inr (n \<noteq> 0))) (\<lambda>go.
       if \<not> go then Inr s
       else (case rs of
               [] \<Rightarrow> Inl Blocked
             | (r, ws) # rs \<Rightarrow>
                 (case r of
                    ReadEINTR \<Rightarrow> prefork_while K rs s
                  | ReadBytes b \<Rightarrow>
                      sum_bind (do_sigchld False K ws s) (\<lambda>s.
                        sum_bind (prefork_bytes K b s) (prefork_while K rs))
                  | _ \<Rightarrow> Inl ExitFailure)))"

declare prefork_while.simps [simp del]

definition prefork_loop :: "kernel \<Rightarrow> (read_ret \<times> wait_ret list) list \<Rightarrow> pool \<Rightarrow> pool_res" where
  "prefork_loop K rs s =
     (case rlimit_nofile K of
        None \<Rightarrow> Inl ExitFailure
      | Some rlim_cur \<Rightarrow>
          let s = (if rlim_cur < 72 then log_act WarnFdLow s else s);
              s = s\<lparr>my_fd_max := rlim_cur - 64, nworker_hwm := nworker s,
                    worker_pids := replicate (nworker s) 0\<rparr>
          in sum_bind (start_workers K s) (prefork_while K rs))"

definition dynfork_byte :: "char \<Rightarrow> pool \<Rightarrow> pool_res" where
  "dynfork_byte c s =
     (if c = CHR ''.'' \<or> c = CHR ''-'' \<or> c = CHR ''+'' then Inr s
      else if c = CHR ''#'' then Inr (log_act ReopenLogs s)
      else Inl ExitFailure)"

fun dynfork_bytes :: "string \<Rightarrow> pool \<Rightarrow> pool_res" where
  "dynfork_bytes [] s = Inr s"
| "dynfork_bytes (c # cs) s = sum_bind (dynfork_byte c s) (dynfork_bytes cs)"

definition dynfork_check_sigs :: "kernel \<Rightarrow> read_ret \<Rightarrow> wait_ret list \<Rightarrow> pool \<Rightarrow> pool_res" where
  "dynfork_check_sigs K r ws s =
     (case r of
        ReadEAGAIN \<Rightarrow> Inr s
      | ReadBytes b \<Rightarrow> sum_bind (do_sigchld True K ws s) (dynfork_bytes b)
      | _ \<Rightarrow> Inl ExitFailure)"

definition dynfork_dispatch :: "kernel \<Rightarrow> pool \<Rightarrow> pool_res" where
  "dynfork_dispatch K s =
     (let pid = fork_ret K (nforks s); s = s\<lparr>nforks := Suc (nforks s)\<rparr>
      in if pid < 0 then Inl ExitFailure else if pid > 0 then Inr s else Inl InChild)"

text \<open>A pass of the lei loop: whether \<open>poll\<close> was interrupted or failed, or which descriptors are ready.\<close>

datatype poll_ret = PollEINTR | PollError | Polled bool "(read_ret \<times> wait_ret list) option"

fun dynfork_while :: "kernel \<Rightarrow> poll_ret list \<Rightarrow> pool \<Rightarrow> pool_res" where
  "dynfork_while K ps s =
     (if \<not> alive s then Inr s
      else (case ps of
              [] \<Rightarrow> Inl Blocked
            | PollEINTR # ps \<Rightarrow> dynfork_while K ps s
            | PollError # ps \<Rightarrow> Inl ExitFailure
            | Polled sock sigs # ps \<Rightarrow>
                sum_bind (if sock then dynfork_dispatch K s else Inr s) (\<lambda>s.
                  sum_bind (case sigs of None \<Rightarrow> Inr s | Some (r, ws) \<Rightarrow> dynfork_check_sigs K r ws s)
                    (dynfork_while K ps))))"

declare dynfork_while.simps [simp del]

definition dynfork_loop :: "kernel \<Rightarrow> poll_ret list \<Rightarrow> pool \<Rightarrow> pool_res" where
  "dynfork_loop K ps s = dynfork_while K ps (s\<lparr>my_fd_max := 128\<rparr>)"

end
