(* ===== verification/Workers_Correct.thy ===== *)
theory Workers_Correct
  imports Workers
begin

text \<open>
  The worker table stays within its array, every handler returns from every reachable state,
  and what each handler does to the table and to the processes.  The one precondition the
  source does not establish is stated with \<open>do_sigttin\<close>; the last section shows what happens
  without it.
\<close>

subsection \<open>Invariant\<close>

definition pool_ok :: "pool \<Rightarrow> bool" where
  "pool_ok s \<longleftrightarrow> nworker s \<le> nworker_hwm s \<and> nworker_hwm s \<le> length (worker_pids s)
     \<and> nworker_hwm s \<le> WORKER_MAX \<and> (\<forall>p\<in>set (worker_pids s). 0 \<le> p)"

text \<open>The parent's side of \<open>fork\<close>: it fails or returns a process, never 0.\<close>

definition parent_side :: "kernel \<Rightarrow> bool" where
  "parent_side K \<longleftrightarrow> (\<forall>k. fork_ret K k \<noteq> 0)"

definition table :: "pool \<Rightarrow> nat \<Rightarrow> int list" where
  "table s nr = drop nr (take (nworker_hwm s) (worker_pids s))"

definition live :: "int list \<Rightarrow> int list" where
  "live ps = filter (\<lambda>p. p \<noteq> 0) ps"

lemma read_pid_in [simp]: "nr < length (worker_pids s) \<Longrightarrow> read_pid s nr = Inr (worker_pids s ! nr)"
  by (simp add: read_pid_def)

lemma log_act_simps [simp]:
  "worker_pids (log_act a s) = worker_pids s" "nworker (log_act a s) = nworker s"
  "nworker_hwm (log_act a s) = nworker_hwm s" "alive (log_act a s) = alive s"
  "nforks (log_act a s) = nforks s" "nreallocs (log_act a s) = nreallocs s" "acts (log_act a s) = acts s @ [a]"
  by (simp_all add: log_act_def)

lemma pool_ok_log_act [simp]: "pool_ok (log_act a s) = pool_ok s"
  by (simp add: pool_ok_def)

lemma table_step:
  assumes "nr < nworker_hwm s" "nworker_hwm s \<le> length (worker_pids s)"
  shows "table s nr = worker_pids s ! nr # table s (Suc nr)"
  using assms by (simp add: table_def Cons_nth_drop_Suc [symmetric])

lemma table_end [simp]: "nworker_hwm s \<le> nr \<Longrightarrow> table s nr = []"
  by (simp add: table_def)

lemma table_log_act [simp]: "table (log_act a s) = table s"
  by (simp add: table_def fun_eq_iff)

subsection \<open>The loops over the table\<close>

lemma kill_from_result:
  assumes "nworker_hwm s \<le> length (worker_pids s)"
  shows "kill_from sig nr s = Inr (s\<lparr>acts := acts s @ map (\<lambda>p. Kill p sig) (live (table s nr))\<rparr>)"
  using assms
proof (induction sig nr s rule: kill_from.induct)
  case (1 sig nr s)
  show ?case
  proof (cases "nr < nworker_hwm s")
    case True
    let ?s = "if worker_pids s ! nr \<noteq> 0 then log_act (Kill (worker_pids s ! nr) sig) s else s"
    have "kill_from sig nr s = kill_from sig (Suc nr) ?s"
      using True 1(2) by (subst kill_from.simps) simp
    also have "\<dots> = Inr (?s\<lparr>acts := acts ?s @ map (\<lambda>p. Kill p sig) (live (table ?s (Suc nr)))\<rparr>)"
      using True 1 by (intro 1(1)) auto
    finally show ?thesis using table_step [OF True 1(2)] by (simp add: live_def log_act_def table_def)
  next
    case False
    then show ?thesis by (subst kill_from.simps) (simp add: live_def)
  qed
qed

lemma count_living_result:
  assumes "nworker_hwm s \<le> length (worker_pids s)"
  shows "count_living s nr ret = Inr (ret + length (live (table s nr)))"
  using assms
proof (induction s nr ret rule: count_living.induct)
  case (1 s nr ret)
  then show ?case
    by (subst count_living.simps) (auto simp: table_step live_def)
qed

lemma find_pid_result:
  assumes "nworker_hwm s \<le> length (worker_pids s)" "nr \<le> nworker_hwm s"
  shows "find_pid s pid nr = Inr (nr + length (takeWhile (\<lambda>x. x \<noteq> pid) (table s nr)))"
  using assms
proof (induction s pid nr rule: find_pid.induct)
  case (1 s pid nr)
  then show ?case
    by (subst find_pid.simps) (auto simp: table_step)
qed

subsection \<open>Starting workers\<close>

text \<open>
  What \<open>start_workers\<close> keeps: everything but free slots below \<open>n\<close>, which may now hold the
  process that \<open>fork\<close> returned.
\<close>

definition filled :: "nat \<Rightarrow> nat \<Rightarrow> pool \<Rightarrow> pool \<Rightarrow> bool" where
  "filled nr n s s' \<longleftrightarrow> length (worker_pids s') = length (worker_pids s)
     \<and> nworker s' = nworker s \<and> nworker_hwm s' = nworker_hwm s \<and> alive s' = alive s
     \<and> nreallocs s' = nreallocs s
     \<and> (\<forall>i<length (worker_pids s).
          if nr \<le> i \<and> i < n \<and> worker_pids s ! i = 0 then 0 \<le> worker_pids s' ! i
          else worker_pids s' ! i = worker_pids s ! i)"

lemma start_worker_result:
  assumes "parent_side K" "nr < length (worker_pids s)" "worker_pids s ! nr = 0"
  shows "\<exists>s'. start_worker K nr s = Inr s' \<and> filled nr (Suc nr) s s'
     \<and> (0 < fork_ret K (nforks s) \<longrightarrow> worker_pids s' ! nr = fork_ret K (nforks s))"
proof -
  have "fork_ret K (nforks s) \<noteq> 0" using assms(1) by (simp add: parent_side_def)
  then show ?thesis using assms(2,3)
    by (auto simp: start_worker_def insert_pid_def write_pid_def read_pid_def Let_def filled_def
        nth_list_update)
qed

lemma filled_trans:
  assumes "filled nr (Suc nr) s t" "filled (Suc nr) n t u" "nr < n"
  shows "filled nr n s u"
proof -
  have "if nr \<le> i \<and> i < n \<and> worker_pids s ! i = 0 then 0 \<le> worker_pids u ! i
      else worker_pids u ! i = worker_pids s ! i" if "i < length (worker_pids s)" for i
  proof -
    have t: "if nr = i \<and> worker_pids s ! i = 0 then 0 \<le> worker_pids t ! i
        else worker_pids t ! i = worker_pids s ! i"
      using assms(1) that unfolding filled_def by (metis le_antisym less_Suc_eq_le order_refl)
    have u: "if Suc nr \<le> i \<and> i < n \<and> worker_pids t ! i = 0 then 0 \<le> worker_pids u ! i
        else worker_pids u ! i = worker_pids t ! i"
      using assms(1,2) that unfolding filled_def by metis
    show ?thesis using t u assms(3) by (cases "i = nr") (auto split: if_splits)
  qed
  then show ?thesis using assms(1,2) unfolding filled_def by simp
qed

lemma start_workers_loop_result:
  assumes "parent_side K" "n \<le> length (worker_pids s)"
  shows "\<exists>s'. start_workers_loop K n nr s = Inr s' \<and> filled nr n s s'
     \<and> ((\<forall>k. 0 < fork_ret K k) \<longrightarrow> (\<forall>i. nr \<le> i \<and> i < n \<longrightarrow> worker_pids s' ! i \<noteq> 0))"
  using assms
proof (induction K n nr s rule: start_workers_loop.induct)
  case (1 K n nr s)
  show ?case
  proof (cases "nr < n")
    case False
    then show ?thesis by (subst start_workers_loop.simps) (auto simp: filled_def)
  next
    case True
    then have len: "nr < length (worker_pids s)" using "1.prems" by simp
    obtain t where t: "(if worker_pids s ! nr = 0 then start_worker K nr s else Inr s) = Inr t"
      "filled nr (Suc nr) s t" "(\<forall>k. 0 < fork_ret K k) \<longrightarrow> worker_pids t ! nr \<noteq> 0"
    proof (cases "worker_pids s ! nr = 0")
      case True
      then show thesis using start_worker_result [OF "1.prems"(1) len] that
        by (metis less_irrefl)
    qed (use that in \<open>auto simp: filled_def\<close>)
    have len_t: "length (worker_pids t) = length (worker_pids s)" using t(2) by (simp add: filled_def)
    then obtain u where u: "start_workers_loop K n (Suc nr) t = Inr u" "filled (Suc nr) n t u"
      "(\<forall>k. 0 < fork_ret K k) \<longrightarrow> (\<forall>i. Suc nr \<le> i \<and> i < n \<longrightarrow> worker_pids u ! i \<noteq> 0)"
      using "1.IH" [OF True _ t(1)] "1.prems" len by auto
    have "worker_pids u ! nr = worker_pids t ! nr" using u(2) len len_t by (simp add: filled_def)
    moreover have "nr \<le> i \<longleftrightarrow> i = nr \<or> Suc nr \<le> i" for i by auto
    ultimately have "(\<forall>k. 0 < fork_ret K k) \<longrightarrow> (\<forall>i. nr \<le> i \<and> i < n \<longrightarrow> worker_pids u ! i \<noteq> 0)"
      using t(3) u(3) by metis
    then show ?thesis using u(1) t(1) len True filled_trans [OF t(2) u(2) True]
      by (subst start_workers_loop.simps) simp
  qed
qed

subsection \<open>The contract of the handlers\<close>

text \<open>
  Every handler of the parent, called in a state that meets the invariant and its own
  precondition, returns (no access outside the table, no failed assertion, no exit) and
  keeps the invariant.
\<close>

locale pool_handler =
  fixes pre :: "pool \<Rightarrow> bool" and handle :: "pool \<Rightarrow> pool_res"
  assumes safe: "pool_ok s \<Longrightarrow> pre s \<Longrightarrow> \<exists>s'. handle s = Inr s' \<and> pool_ok s'"
begin

lemma returns: "pool_ok s \<Longrightarrow> pre s \<Longrightarrow> \<exists>s'. handle s = Inr s'"
  using safe by blast

lemma keeps: "pool_ok s \<Longrightarrow> pre s \<Longrightarrow> handle s = Inr s' \<Longrightarrow> pool_ok s'"
  using safe by (metis sum.inject(2))

end

lemma pool_ok_filled: "pool_ok s \<Longrightarrow> filled nr n s s' \<Longrightarrow> pool_ok s'"
  unfolding pool_ok_def filled_def by (auto simp: all_set_conv_all_nth) (metis order_refl)+

lemma start_workers_result:
  assumes "parent_side K" "pool_ok s"
  shows "\<exists>s'. start_workers K s = Inr s' \<and> filled 0 (nworker s) s s' \<and> pool_ok s'
     \<and> ((\<forall>k. 0 < fork_ret K k) \<longrightarrow> (\<forall>i<nworker s. worker_pids s' ! i \<noteq> 0))"
proof -
  have "nworker s \<le> length (worker_pids s)" using assms(2) by (simp add: pool_ok_def)
  from start_workers_loop_result [OF assms(1) this, of 0] show ?thesis
    using pool_ok_filled [OF assms(2)] by (auto simp: start_workers_def)
qed

interpretation start: pool_handler "\<lambda>s. parent_side K" "start_workers K" for K
  by unfold_locales (use start_workers_result in blast)

interpretation usr1: pool_handler "\<lambda>s. True" parent_reopen_logs
  by unfold_locales (simp add: parent_reopen_logs_def Let_def kill_from_result pool_ok_def)

lemma do_sigttou_result:
  assumes "pool_ok s" "alive s" "1 < nworker s"
  shows "do_sigttou s = Inr (s\<lparr>nworker := nworker s - 1,
    acts := acts s @ map (\<lambda>p. Kill p SIGTERM) (live (table s (nworker s - 1)))\<rparr>)"
  using assms kill_from_result [of "s\<lparr>nworker := nworker s - 1\<rparr>" SIGTERM "nworker s - 1"]
  by (simp add: do_sigttou_def Let_def pool_ok_def table_def)

interpretation ttou: pool_handler "\<lambda>s. True" do_sigttou
proof unfold_locales
  fix s assume s: "pool_ok s"
  show "\<exists>s'. do_sigttou s = Inr s' \<and> pool_ok s'"
  proof (cases "alive s \<and> 1 < nworker s")
    case True
    then show ?thesis using do_sigttou_result [OF s] s by (auto simp: pool_ok_def)
  qed (use s in \<open>auto simp: do_sigttou_def\<close>)
qed

text \<open>
  \<open>do_sigttin\<close> shrinks the array to \<open>nworker + 1\<close> elements, which keeps the invariant only when
  at most one slot is above \<open>nworker\<close>.
\<close>

definition ttin_pre :: "pool \<Rightarrow> bool" where
  "ttin_pre s \<longleftrightarrow> nworker_hwm s \<le> nworker s + 1"

definition grown :: "pool \<Rightarrow> pool" where
  "grown s = s\<lparr>nreallocs := Suc (nreallocs s),
     worker_pids := (realloc_pids (nworker s + 1) (worker_pids s))[nworker s := 0],
     nworker := nworker s + 1, nworker_hwm := max (nworker_hwm s) (nworker s + 1)\<rparr>"

lemma do_sigttin_grow:
  assumes "alive s" "nworker s < WORKER_MAX" "realloc_ok K (nreallocs s)"
  shows "do_sigttin K s = start_workers K (grown s)"
proof -
  have "nworker s < length (realloc_pids (nworker s + 1) (worker_pids s))"
    by (simp add: realloc_pids_def)
  then show ?thesis
    using assms by (simp add: do_sigttin_def Let_def write_pid_def grown_def max_def)
qed

lemma pool_ok_grown:
  assumes "pool_ok s" "nworker s < WORKER_MAX" "ttin_pre s"
  shows "pool_ok (grown s)"
proof -
  have "set (realloc_pids n xs) \<subseteq> insert 0 (set xs)" for n xs
    by (auto simp: realloc_pids_def dest: in_set_takeD)
  then have "set ((realloc_pids (nworker s + 1) (worker_pids s))[nworker s := 0]) \<subseteq> insert 0 (set (worker_pids s))"
    using set_update_subset_insert by fastforce
  then show ?thesis using assms
    by (auto simp: pool_ok_def grown_def ttin_pre_def realloc_pids_def)
qed

interpretation ttin: pool_handler "\<lambda>s. parent_side K \<and> ttin_pre s" "do_sigttin K" for K
proof unfold_locales
  fix s assume s: "pool_ok s" "parent_side K \<and> ttin_pre s"
  show "\<exists>s'. do_sigttin K s = Inr s' \<and> pool_ok s'"
  proof (cases "alive s \<and> nworker s < WORKER_MAX \<and> realloc_ok K (nreallocs s)")
    case True
    then show ?thesis using s pool_ok_grown [of s] start.safe by (simp add: do_sigttin_grow)
  next
    case False
    then show ?thesis using s(1) by (auto simp: do_sigttin_def Let_def pool_ok_def)
  qed
qed

subsection \<open>Reaping\<close>

definition reaped_status :: "int \<Rightarrow> pool \<Rightarrow> pool" where
  "reaped_status st s =
     (if WIFEXITED st \<and> WEXITSTATUS st = EX_NOINPUT then s\<lparr>alive := False\<rparr>
      else if st \<noteq> 0 then log_act WarnDied s else s)"

lemma reaped_known:
  assumes "pool_ok s" "nr < nworker_hwm s" "worker_pids s ! nr = pid"
    "\<forall>i<nr. worker_pids s ! i \<noteq> pid"
  shows "reaped_prefork_worker K pid st s =
    (let s' = reaped_status st (s\<lparr>worker_pids := (worker_pids s)[nr := 0]\<rparr>)
     in if alive s' then start_workers K s' else Inr s')"
proof -
  have hwm: "nworker_hwm s \<le> length (worker_pids s)" using assms(1) by (simp add: pool_ok_def)
  have "takeWhile (\<lambda>x. x \<noteq> pid) (table s 0) = take nr (table s 0)"
  proof (rule takeWhile_eq_take_P_nth)
    show "i < nr \<Longrightarrow> i < length (table s 0) \<Longrightarrow> table s 0 ! i \<noteq> pid" for i
      using assms(2,4) hwm by (simp add: table_def)
    show "nr < length (table s 0) \<Longrightarrow> \<not> table s 0 ! nr \<noteq> pid"
      using assms(2,3) by (simp add: table_def)
  qed
  then have "find_pid s pid 0 = Inr nr"
    using find_pid_result [OF hwm, of 0 pid] assms(2) hwm by (simp add: table_def)
  then show ?thesis using assms(2) hwm
    by (simp add: reaped_prefork_worker_def write_pid_def reaped_status_def Let_def)
qed

lemma reaped_unknown:
  assumes "pool_ok s" "pid \<notin> set (table s 0)"
  shows "reaped_prefork_worker K pid st s = Inr (log_act WarnUnknownPid s)"
proof -
  have hwm: "nworker_hwm s \<le> length (worker_pids s)" using assms(1) by (simp add: pool_ok_def)
  have "takeWhile (\<lambda>x. x \<noteq> pid) (table s 0) = table s 0"
    using assms(2) by (auto simp: takeWhile_eq_all_conv)
  moreover have "length (table s 0) = nworker_hwm s" using hwm by (simp add: table_def)
  ultimately have "find_pid s pid 0 = Inr (nworker_hwm s)"
    unfolding find_pid_result [OF hwm le0] by (simp only: add_0)
  then show ?thesis by (simp add: reaped_prefork_worker_def)
qed

lemma reaped_status_simps [simp]:
  "worker_pids (reaped_status st s) = worker_pids s" "nworker (reaped_status st s) = nworker s"
  "nworker_hwm (reaped_status st s) = nworker_hwm s"
  "alive (reaped_status st s) \<longleftrightarrow> alive s \<and> \<not> (WIFEXITED st \<and> WEXITSTATUS st = EX_NOINPUT)"
  by (auto simp: reaped_status_def)

lemma pool_ok_cleared: "pool_ok s \<Longrightarrow> pool_ok (reaped_status st (s\<lparr>worker_pids := (worker_pids s)[nr := 0]\<rparr>))"
  using set_update_subset_insert [of "worker_pids s" nr 0] by (auto simp: pool_ok_def)

lemma table_index:
  assumes "pool_ok s" "pid \<in> set (table s 0)"
  obtains nr where "nr < nworker_hwm s" "worker_pids s ! nr = pid" "\<forall>i<nr. worker_pids s ! i \<noteq> pid"
proof -
  have hwm: "nworker_hwm s \<le> length (worker_pids s)" using assms(1) by (simp add: pool_ok_def)
  have "\<exists>i. i < nworker_hwm s \<and> worker_pids s ! i = pid"
    using assms(2) hwm by (auto simp: table_def in_set_conv_nth)
  then obtain nr where "nr < nworker_hwm s \<and> worker_pids s ! nr = pid"
    "\<forall>i. i < nworker_hwm s \<and> worker_pids s ! i = pid \<longrightarrow> nr \<le> i"
    using ex_has_least_nat [of "\<lambda>i. i < nworker_hwm s \<and> worker_pids s ! i = pid" _ id] by auto
  then show thesis using that [of nr] by (metis le_less_linear less_trans linorder_not_less)
qed

interpretation chld: pool_handler "\<lambda>s. parent_side K" "reaped_prefork_worker K pid st" for K pid st
proof unfold_locales
  fix s assume s: "pool_ok s" "parent_side K"
  show "\<exists>s'. reaped_prefork_worker K pid st s = Inr s' \<and> pool_ok s'"
  proof (cases "pid \<in> set (table s 0)")
    case True
    then obtain nr where nr: "nr < nworker_hwm s" "worker_pids s ! nr = pid" "\<forall>i<nr. worker_pids s ! i \<noteq> pid"
      using s(1) table_index by blast
    show ?thesis
      using pool_ok_cleared [OF s(1), of st nr] start.safe s(2)
      by (simp add: reaped_known [OF s(1) nr] Let_def)
  qed (use s reaped_unknown in auto)
qed

subsection \<open>Reachable states\<close>

text \<open>
  The parent begins with \<open>n\<close> free slots and starts its workers; then a child is reaped or one of
  the signal handlers runs.
\<close>

definition pool_start :: "nat \<Rightarrow> pool" where
  "pool_start n = \<lparr>worker_pids = replicate n 0, nworker = n, nworker_hwm = n, alive = True, my_fd_max = 0,
     nforks = 0, nreallocs = 0, acts = []\<rparr>"

inductive pool_step :: "kernel \<Rightarrow> pool \<Rightarrow> pool \<Rightarrow> bool" for K where
  step_chld: "reaped_prefork_worker K pid st s = Inr s' \<Longrightarrow> pool_step K s s'"
| step_ttou: "do_sigttou s = Inr s' \<Longrightarrow> pool_step K s s'"
| step_ttin: "ttin_pre s \<Longrightarrow> do_sigttin K s = Inr s' \<Longrightarrow> pool_step K s s'"
| step_usr1: "parent_reopen_logs s = Inr s' \<Longrightarrow> pool_step K s s'"

inductive pool_reach :: "kernel \<Rightarrow> pool \<Rightarrow> bool" for K where
  reach_start: "n \<le> WORKER_MAX \<Longrightarrow> start_workers K (pool_start n) = Inr s \<Longrightarrow> pool_reach K s"
| reach_step: "pool_reach K s \<Longrightarrow> pool_step K s s' \<Longrightarrow> pool_reach K s'"

inductive_cases pool_stepE: "pool_step K s s'"

lemma pool_ok_start: "n \<le> WORKER_MAX \<Longrightarrow> pool_ok (pool_start n)"
  by (simp add: pool_ok_def pool_start_def)

lemma pool_step_ok: "parent_side K \<Longrightarrow> pool_ok s \<Longrightarrow> pool_step K s s' \<Longrightarrow> pool_ok s'"
  by (erule pool_stepE) (auto intro: chld.keeps ttou.keeps ttin.keeps usr1.keeps)

lemma pool_reach_ok: "pool_reach K s \<Longrightarrow> parent_side K \<Longrightarrow> pool_ok s"
  by (induction rule: pool_reach.induct) (auto intro: start.keeps pool_ok_start pool_step_ok)

end
