(* ===== verification/Workers_Spec.thy ===== *)
theory Workers_Spec
  imports Workers_Correct
begin

text \<open>
  Properties of the worker pool: what the handlers guarantee in every reachable state, how
  the loop ends, and the two situations in which the table goes wrong.
\<close>

subsection \<open>The last worker\<close>

lemma live_clear:
  assumes "distinct (live xs)" "nr < length xs" "xs ! nr \<noteq> 0"
  shows "set (live (xs[nr := 0])) = set (live xs) - {xs ! nr}" "distinct (live (xs[nr := 0]))"
proof -
  have "live xs = live (take nr xs) @ xs ! nr # live (drop (Suc nr) xs)"
    unfolding live_def using assms(2,3)
    by (subst (1) id_take_nth_drop [of nr xs]) simp_all
  moreover have "live (xs[nr := 0]) = live (take nr xs) @ live (drop (Suc nr) xs)"
    using assms(2) by (simp add: upd_conv_take_nth_drop live_def)
  ultimately show "set (live (xs[nr := 0])) = set (live xs) - {xs ! nr}" "distinct (live (xs[nr := 0]))"
    using assms(1) by auto
qed

definition noinput :: "int \<Rightarrow> bool" where
  "noinput st \<longleftrightarrow> WIFEXITED st \<and> WEXITSTATUS st = EX_NOINPUT"

lemma reaped_noinput:
  assumes ok: "pool_ok s" and d: "distinct (live (table s 0))" and p: "p \<in> set (live (table s 0))"
    and st: "noinput st"
  shows "\<exists>s'. reaped_prefork_worker K p st s = Inr s' \<and> pool_ok s' \<and> \<not> alive s' \<and> nforks s' = nforks s
     \<and> set (live (table s' 0)) = set (live (table s 0)) - {p} \<and> distinct (live (table s' 0))"
proof -
  have "p \<in> set (table s 0)" "p \<noteq> 0" using p by (auto simp: live_def)
  then obtain nr where nr: "nr < nworker_hwm s" "worker_pids s ! nr = p" "\<forall>i<nr. worker_pids s ! i \<noteq> p"
    using ok table_index by blast
  let ?s = "reaped_status st (s\<lparr>worker_pids := (worker_pids s)[nr := 0]\<rparr>)"
  have hwm: "nworker_hwm s \<le> length (worker_pids s)" using ok by (simp add: pool_ok_def)
  have tab: "table ?s 0 = (table s 0)[nr := 0]" using nr(1) by (simp add: table_def take_update_swap)
  have nth: "table s 0 ! nr = p" "nr < length (table s 0)" using nr(1,2) hwm by (simp_all add: table_def)
  have "reaped_prefork_worker K p st s = Inr ?s"
    using st by (simp add: reaped_known [OF ok nr] Let_def noinput_def)
  moreover have "nforks ?s = nforks s" by (simp add: reaped_status_def)
  ultimately show ?thesis
    using live_clear [OF d nth(2)] nth(1) \<open>p \<noteq> 0\<close> st pool_ok_cleared [OF ok, of st nr]
    by (auto simp: tab noinput_def)
qed

lemma do_sigchld_noinput:
  assumes "pool_ok s" "distinct (live (table s 0))" "distinct ps" "set ps = set (live (table s 0))"
    "noinput st" "ps \<noteq> [] \<or> \<not> alive s"
  shows "\<exists>s'. do_sigchld False K (map (\<lambda>p. Reaped p st) ps @ [ECHILD]) s = Inr s' \<and> pool_ok s' \<and> \<not> alive s'
     \<and> nforks s' = nforks s \<and> live (table s' 0) = []"
  using assms
proof (induction ps arbitrary: s)
  case (Cons p ps)
  then obtain t where t: "reaped_prefork_worker K p st s = Inr t" "pool_ok t" "\<not> alive t" "nforks t = nforks s"
    "set (live (table t 0)) = set (live (table s 0)) - {p}" "distinct (live (table t 0))"
    using reaped_noinput [of s p st K] by auto
  have "set ps = set (live (table t 0))" using Cons.prems(3,4) t(5) by auto
  then show ?case using Cons.IH [of t] Cons.prems t by auto
qed simp

subsection \<open>Properties\<close>


text \<open>A kernel on which every \<open>fork\<close> succeeds, with process numbers from 101.\<close>

definition sample_kernel :: kernel where
  "sample_kernel = \<lparr>fork_ret = (\<lambda>k. 101 + int k), realloc_ok = (\<lambda>k. True), rlimit_nofile = Some 1024\<rparr>"

lemma parent_side_sample: "parent_side sample_kernel"
  by (simp add: parent_side_def sample_kernel_def)

lemma fork_sample: "\<forall>k. 0 < fork_ret sample_kernel k"
  by (simp add: sample_kernel_def)

definition pool3 :: pool where
  "pool3 = \<lparr>worker_pids = [101, 102, 103], nworker = 3, nworker_hwm = 3, alive = True, my_fd_max = 0,
     nforks = 3, nreallocs = 0, acts = []\<rparr>"

lemmas pool_eval = prefork_byte_def do_sigttou_def do_sigttin_def parent_reopen_logs_def living_workers_def
  reaped_prefork_worker_def kill_from.simps count_living.simps find_pid.simps start_workers_def
  start_workers_loop.simps start_worker_def insert_pid_def read_pid_def write_pid_def log_act_def
  realloc_pids_def WORKER_MAX_def Let_def pool3_def sample_kernel_def pool_start_def

lemma start_pool3: "start_workers sample_kernel (pool_start 3) = Inr pool3"
  by (simp add: pool_eval numeral_eq_Suc)

lemma pool_reach_pool3: "pool_reach sample_kernel pool3"
  by (rule reach_start [OF _ start_pool3]) (simp add: WORKER_MAX_def)

lemma pool_ok_pool3: "pool_ok pool3"
  using pool_reach_ok [OF pool_reach_pool3 parent_side_sample] .




text \<open>
  SIGTTOU with more than one worker lowers \<open>nworker\<close> by one, changes nothing else of the
  table, and sends SIGTERM to exactly the processes in the slots from the new \<open>nworker\<close> up.
\<close>

theorem do_sigttou_effect:
  assumes "pool_ok s" "alive s" "1 < nworker s"
  shows "do_sigttou s = Inr (s\<lparr>nworker := nworker s - 1,
    acts := acts s @ map (\<lambda>p. Kill p SIGTERM)
      (filter (\<lambda>p. p \<noteq> 0) (drop (nworker s - 1) (take (nworker_hwm s) (worker_pids s))))\<rparr>)"
  using do_sigttou_result [OF assms] by (simp add: live_def table_def)

theorem do_sigttou_effect_witness:
  "pool_ok pool3 \<and> alive pool3 \<and> 1 < nworker pool3
   \<and> do_sigttou pool3 = Inr (pool3\<lparr>nworker := 2, acts := [Kill 103 SIGTERM]\<rparr>)"
  using do_sigttou_effect [OF pool_ok_pool3] pool_ok_pool3 by (simp add: pool3_def)



text \<open>
  The byte that the signal handler puts into the pipe makes the loop run the handler of
  the same signal, and the loop never sees a byte it does not know.
\<close>

theorem sigp_dispatch:
  "sigp sig w = Inr (Some c) \<Longrightarrow>
     prefork_byte K c s = (case sig of SIGCHLD \<Rightarrow> Inr s | SIGTTOU \<Rightarrow> do_sigttou s
       | SIGTTIN \<Rightarrow> do_sigttin K s | SIGUSR1 \<Rightarrow> parent_reopen_logs s | _ \<Rightarrow> Inl ExitFailure)
     \<and> sig \<in> {SIGCHLD, SIGTTOU, SIGTTIN, SIGUSR1}"
  by (cases sig; cases w) (auto simp: sigp_def sigp_char_def prefork_byte_def)

theorem sigp_dispatch_witness:
  "sigp SIGTTOU Wrote = Inr (Some CHR ''-'')
   \<and> prefork_byte sample_kernel CHR ''-'' pool3 = do_sigttou pool3"
  using sigp_dispatch [of SIGTTOU Wrote "CHR ''-''" sample_kernel pool3]
  by (simp add: sigp_def sigp_char_def)

text \<open>
  C37: on SIGUSR1 the parent reopens its own logs and signals only the processes in slots from
  \<open>nworker\<close> up to the high-water mark, so that when no worker was retired, none of the running
  workers is told to reopen its logs.
\<close>

theorem parent_reopen_logs_skips_active:
  assumes "pool_ok s"
  shows "parent_reopen_logs s = Inr (s\<lparr>acts := acts s @ ReopenLogs # map (\<lambda>p. Kill p SIGUSR1)
      (filter (\<lambda>p. p \<noteq> 0) (drop (nworker s) (take (nworker_hwm s) (worker_pids s))))\<rparr>)
    \<and> (nworker s = nworker_hwm s \<longrightarrow> parent_reopen_logs s = Inr (log_act ReopenLogs s))"
  using assms kill_from_result [of "log_act ReopenLogs s" SIGUSR1 "nworker s"]
  by (simp add: parent_reopen_logs_def Let_def pool_ok_def live_def) (auto simp: table_def log_act_def)

theorem parent_reopen_logs_skips_active_witness:
  "pool_ok pool3 \<and> live (worker_pids pool3) = [101, 102, 103]
   \<and> parent_reopen_logs pool3 = Inr (pool3\<lparr>acts := [ReopenLogs]\<rparr>)"
  using parent_reopen_logs_skips_active [OF pool_ok_pool3] pool_ok_pool3
  by (simp add: pool3_def live_def log_act_def)


text \<open>
  A SIGTTIN right after a SIGTTOU forgets the worker that was told to stop but has not
  been reaped: its process is no longer in the table, and reaping it is reported as unknown.
\<close>

theorem ttin_after_ttou_forgets_worker:
  "\<exists>s. prefork_bytes sample_kernel ''-+'' pool3 = Inr s \<and> 103 \<notin> set (worker_pids s)
     \<and> Kill 103 SIGTERM \<in> set (acts s)
     \<and> reaped_prefork_worker sample_kernel 103 0 s = Inr (log_act WarnUnknownPid s)"
proof -
  have "prefork_bytes sample_kernel ''-+'' pool3 =
      Inr \<lparr>worker_pids = [101, 102, 104], nworker = 3, nworker_hwm = 3, alive = True, my_fd_max = 0, nforks = 4,
        nreallocs = 1, acts = [Kill 103 SIGTERM]\<rparr>" (is "_ = Inr ?s")
    by (simp add: pool_eval)
  moreover have "reaped_prefork_worker sample_kernel 103 0 ?s = Inr (log_act WarnUnknownPid ?s)"
    by (simp add: pool_eval)
  ultimately show ?thesis by auto
qed

end
