(* ===== verification/Clib.thy ===== *)
theory Clib
  imports PI_Prelude "HOL-Library.Signed_Division"
begin

text \<open>
  The parts of the C library that the sources call: character classes of the C locale, the
  string-to-number functions with their end pointer, narrowing conversions, and \<open>struct tm\<close>
  with \<open>gmtime_r\<close>.  A C string is the list of its characters before the terminator; a pointer
  into a string is the rest of it, and an end pointer the number of characters consumed.
  \<open>long\<close> and \<open>time_t\<close> have 64 bits and \<open>int\<close> has 32.
\<close>

subsection \<open>Characters\<close>

definition chr_code :: "char \<Rightarrow> nat" where
  "chr_code c = of_char c"

definition chr_at :: "string \<Rightarrow> nat \<Rightarrow> char" where
  "chr_at s i = (if i < length s then s ! i else CHR 0x00)"

definition c_isdigit :: "char \<Rightarrow> bool" where
  "c_isdigit c \<longleftrightarrow> chr_code CHR ''0'' \<le> chr_code c \<and> chr_code c \<le> chr_code CHR ''9''"

definition c_isupper :: "char \<Rightarrow> bool" where
  "c_isupper c \<longleftrightarrow> chr_code CHR ''A'' \<le> chr_code c \<and> chr_code c \<le> chr_code CHR ''Z''"

definition c_islower :: "char \<Rightarrow> bool" where
  "c_islower c \<longleftrightarrow> chr_code CHR ''a'' \<le> chr_code c \<and> chr_code c \<le> chr_code CHR ''z''"

definition c_isalpha :: "char \<Rightarrow> bool" where
  "c_isalpha c \<longleftrightarrow> c_isupper c \<or> c_islower c"

definition c_isalnum :: "char \<Rightarrow> bool" where
  "c_isalnum c \<longleftrightarrow> c_isalpha c \<or> c_isdigit c"

definition c_isspace :: "char \<Rightarrow> bool" where
  "c_isspace c \<longleftrightarrow> c = CHR '' '' \<or> (9 \<le> chr_code c \<and> chr_code c \<le> 13)"

definition c_toupper :: "char \<Rightarrow> char" where
  "c_toupper c = (if c_islower c then char_of (chr_code c - 32) else c)"

subsection \<open>Conversions\<close>

definition to_s32 :: "int \<Rightarrow> int" where
  "to_s32 x = (x + 2 ^ 31) mod 2 ^ 32 - 2 ^ 31"

definition to_s64 :: "int \<Rightarrow> int" where
  "to_s64 x = (x + 2 ^ 63) mod 2 ^ 64 - 2 ^ 63"

definition to_u64 :: "int \<Rightarrow> int" where
  "to_u64 x = x mod 2 ^ 64"

definition ULONG_MAX :: int where
  "ULONG_MAX = 2 ^ 64 - 1"

definition LONG_MAX :: int where
  "LONG_MAX = 2 ^ 63 - 1"

definition LONG_MIN :: int where
  "LONG_MIN = - (2 ^ 63)"

subsection \<open>Numbers in strings\<close>

definition digit_val :: "char \<Rightarrow> int" where
  "digit_val c = int (chr_code c) - int (chr_code CHR ''0'')"

fun dec_val :: "int \<Rightarrow> string \<Rightarrow> int" where
  "dec_val acc [] = acc"
| "dec_val acc (c # cs) = dec_val (10 * acc + digit_val c) cs"

text \<open>Sign, magnitude and number of characters; nothing is consumed when there is no digit.\<close>

definition strto_scan :: "string \<Rightarrow> bool \<times> int \<times> nat" where
  "strto_scan s =
     (let sp = takeWhile c_isspace s; r = drop (length sp) s;
          neg = (chr_at r 0 = CHR ''-'');
          sg = (if neg \<or> chr_at r 0 = CHR ''+'' then 1 else 0);
          ds = takeWhile c_isdigit (drop sg r)
      in if ds = [] then (False, 0, 0) else (neg, dec_val 0 ds, length sp + sg + length ds))"

definition strtoul :: "string \<Rightarrow> int \<times> nat" where
  "strtoul s =
     (let (neg, v, n) = strto_scan s
      in (if v > ULONG_MAX then ULONG_MAX else if neg then to_u64 (- v) else v, n))"

definition strtol :: "string \<Rightarrow> int \<times> nat" where
  "strtol s =
     (let (neg, v, n) = strto_scan s
      in (if neg then max LONG_MIN (- v) else min LONG_MAX v, n))"

subsection \<open>Broken-down time\<close>

record tm =
  tm_sec :: int
  tm_min :: int
  tm_hour :: int
  tm_mday :: int
  tm_mon :: int
  tm_year :: int
  tm_wday :: int
  tm_yday :: int
  tm_isdst :: int

definition leap :: "int \<Rightarrow> bool" where
  "leap y \<longleftrightarrow> y mod 4 = 0 \<and> (y mod 100 \<noteq> 0 \<or> y mod 400 = 0)"

definition year_days :: "int \<Rightarrow> int" where
  "year_days y = (if leap y then 366 else 365)"

definition month_days :: "int \<Rightarrow> nat \<Rightarrow> int" where
  "month_days y m =
     (if m = 1 then (if leap y then 29 else 28)
      else if m \<in> {3, 5, 8, 10} then 30 else 31)"

text \<open>The year that the \<open>d\<close>-th day after the first of January of \<open>y\<close> lies in, and the day in it.\<close>

lemma year_days_pos: "0 < year_days y"
  by (simp add: year_days_def)

function year_of :: "int \<Rightarrow> int \<Rightarrow> int \<times> int" where
  "year_of y d = (if d < year_days y then (y, d) else year_of (y + 1) (d - year_days y))"
  by pat_completeness auto
termination
  by (relation "measure (\<lambda>(y, d). nat d)") (auto simp: year_days_def split: if_splits)

declare year_of.simps [simp del]

fun month_of :: "int \<Rightarrow> nat list \<Rightarrow> int \<Rightarrow> nat \<times> int" where
  "month_of y [] d = (11, d)"
| "month_of y [m] d = (m, d)"
| "month_of y (m # ms) d = (if d < month_days y m then (m, d) else month_of y ms (d - month_days y m))"

text \<open>
  \<open>gmtime_r\<close> fails when the year does not fit.  Years repeat every 146097 days (400 years), and
  the first of January 1970 was a Thursday.
\<close>

definition months :: "nat list" where
  "months = [0..<12]"

definition gmtime_r :: "int \<Rightarrow> tm option" where
  "gmtime_r t =
     (let days = t div 86400; sec = t mod 86400;
          (y, yd) = year_of (1970 + 400 * (days div 146097)) (days mod 146097);
          (m, md) = month_of y months yd
      in if y - 1900 > 2 ^ 31 - 1 \<or> y - 1900 < - (2 ^ 31) then None
         else Some \<lparr>tm_sec = sec mod 60, tm_min = sec div 60 mod 60, tm_hour = sec div 3600,
           tm_mday = md + 1, tm_mon = int m, tm_year = y - 1900,
           tm_wday = (days + 4) mod 7, tm_yday = yd, tm_isdst = 0\<rparr>)"

subsection \<open>Lemmas on numbers in strings\<close>

lemma sdiv_nonneg: "0 \<le> (x::int) \<Longrightarrow> 0 < y \<Longrightarrow> x sdiv y = x div y"
  by (cases "x = 0") (auto simp: signed_divide_int_def)

lemma chr_at_simps [simp]:
  "chr_at [] i = CHR 0x00" "chr_at (c # s) 0 = c" "chr_at (c # s) (Suc i) = chr_at s i"
  by (simp_all add: chr_at_def)

lemma chr_at_numeral [simp]: "chr_at (c # s) (numeral k) = chr_at s (pred_numeral k)"
  by (simp add: numeral_eq_Suc)

lemma chr_at_drop: "chr_at (drop n s) i = chr_at s (n + i)"
  by (auto simp: chr_at_def)

lemma chr_code_eq: "chr_code a = chr_code b \<longleftrightarrow> a = b"
  by (simp add: chr_code_def)

lemma nul_class [simp]: "\<not> c_isdigit CHR 0x00" "\<not> c_isalpha CHR 0x00" "\<not> c_isalnum CHR 0x00"
  by (simp_all add: c_isdigit_def c_isalnum_def c_isalpha_def c_isupper_def c_islower_def chr_code_def)

lemma strto_scan_le: "strto_scan s = (neg, v, n) \<Longrightarrow> n \<le> length s"
proof -
  assume a: "strto_scan s = (neg, v, n)"
  define sp where "sp = takeWhile c_isspace s"
  define r where "r = drop (length sp) s"
  define sg where "sg = (if chr_at r 0 = CHR ''-'' \<or> chr_at r 0 = CHR ''+'' then 1 else 0 :: nat)"
  define ds where "ds = takeWhile c_isdigit (drop sg r)"
  have len: "length ds \<le> length r - sg" unfolding ds_def using length_takeWhile_le [of c_isdigit "drop sg r"] by simp
  have sg: "sg \<le> length r" by (cases r) (auto simp: sg_def)
  have "length sp \<le> length s" unfolding sp_def by (rule length_takeWhile_le)
  then have "length sp + length r = length s" by (simp add: r_def)
  moreover have "n \<le> length sp + sg + length ds"
    using a by (auto simp: strto_scan_def Let_def sp_def r_def sg_def ds_def split: if_splits)
  ultimately show ?thesis using len sg by simp
qed

lemma strtoul_le: "strtoul s = (v, n) \<Longrightarrow> n \<le> length s"
  by (auto simp: strtoul_def Let_def split: prod.splits dest: strto_scan_le)

lemma strtol_le: "strtol s = (v, n) \<Longrightarrow> n \<le> length s"
  by (auto simp: strtol_def Let_def split: prod.splits dest: strto_scan_le)

lemma digit_not_space: "c_isdigit c \<Longrightarrow> \<not> c_isspace c \<and> c \<noteq> CHR ''-'' \<and> c \<noteq> CHR ''+''"
  by (auto simp: c_isdigit_def c_isspace_def chr_code_def)

lemma strto_scan_digits:
  assumes "ds \<noteq> []" "list_all c_isdigit ds" "\<not> c_isdigit (chr_at rest 0)"
  shows "strto_scan (ds @ rest) = (False, dec_val 0 ds, length ds)"
proof -
  obtain c cs where ds: "ds = c # cs" using assms(1) by (cases ds) auto
  have "takeWhile c_isdigit (ds @ rest) = ds"
    using assms(2,3) by (cases rest) (auto simp: takeWhile_append2 list_all_iff)
  then show ?thesis
    using assms(2) digit_not_space [of c] by (simp add: strto_scan_def ds Let_def)
qed

subsection \<open>Decimal numerals\<close>

definition digit_chr :: "nat \<Rightarrow> char" where
  "digit_chr d = char_of (48 + d)"

text \<open>\<open>n\<close> in \<open>k\<close> decimal digits, with leading zeros.\<close>

fun dec_fix :: "nat \<Rightarrow> nat \<Rightarrow> string" where
  "dec_fix 0 n = []"
| "dec_fix (Suc k) n = dec_fix k (n div 10) @ [digit_chr (n mod 10)]"

text \<open>What \<open>%llu\<close>, \<open>%zu\<close> and \<open>%d\<close> print for a natural number.\<close>

fun dec_str :: "nat \<Rightarrow> string" where
  "dec_str n = (if n < 10 then [digit_chr n] else dec_str (n div 10) @ [digit_chr (n mod 10)])"

declare dec_str.simps [simp del]

lemma chr_code_digit: "d < 10 \<Longrightarrow> chr_code (digit_chr d) = 48 + d"
  by (simp add: chr_code_def digit_chr_def)

lemma digit_chr_props: "d < 10 \<Longrightarrow> c_isdigit (digit_chr d)" "d < 10 \<Longrightarrow> digit_val (digit_chr d) = int d"
  by (simp_all add: c_isdigit_def digit_val_def chr_code_digit) (simp_all add: chr_code_def)

lemma dec_val_append: "dec_val a (xs @ ys) = dec_val (dec_val a xs) ys"
  by (induction xs arbitrary: a) auto

lemma length_dec_fix [simp]: "length (dec_fix k n) = k"
  by (induction k arbitrary: n) auto

lemma dec_fix_digits: "list_all c_isdigit (dec_fix k n)"
  by (induction k arbitrary: n) (auto simp: digit_chr_props)

lemma dec_val_dec_fix: "n < 10 ^ k \<Longrightarrow> dec_val 0 (dec_fix k n) = int n"
proof (induction k arbitrary: n)
  case (Suc k)
  then have "n div 10 < 10 ^ k" by (simp add: less_mult_imp_div_less mult.commute)
  then have "dec_val 0 (dec_fix k (n div 10)) = int (n div 10)" by (rule Suc.IH)
  moreover have "10 * int (n div 10) + int (n mod 10) = int n"
    by (metis of_nat_add of_nat_mult of_nat_numeral mult_div_mod_eq)
  ultimately show ?case by (simp add: dec_val_append digit_chr_props)
qed simp

lemma strto_scan_dec_fix:
  assumes "0 < k" "n < 10 ^ k" "\<not> c_isdigit (chr_at rest 0)"
  shows "strto_scan (dec_fix k n @ rest) = (False, int n, k)"
proof -
  have "dec_fix k n \<noteq> []" using assms(1) by (metis length_dec_fix list.size(3) less_irrefl)
  then show ?thesis using strto_scan_digits [OF _ dec_fix_digits assms(3)] dec_val_dec_fix [OF assms(2)] by simp
qed

lemma strtoul_dec_fix:
  assumes "0 < k" "n < 10 ^ k" "n < 2 ^ 64" "\<not> c_isdigit (chr_at rest 0)"
  shows "strtoul (dec_fix k n @ rest) = (int n, k)"
proof -
  have "int n \<le> ULONG_MAX" using assms(3) by (simp add: ULONG_MAX_def)
  then show ?thesis using strto_scan_dec_fix [OF assms(1,2,4)] by (simp add: strtoul_def)
qed

lemma strtol_dec_fix:
  assumes "0 < k" "n < 10 ^ k" "n < 2 ^ 63" "\<not> c_isdigit (chr_at rest 0)"
  shows "strtol (dec_fix k n @ rest) = (int n, k)"
proof -
  have "int n \<le> LONG_MAX" using assms(3) by (simp add: LONG_MAX_def)
  then show ?thesis using strto_scan_dec_fix [OF assms(1,2,4)] by (simp add: strtol_def)
qed

lemma chr_at_append [simp]: "chr_at (xs @ ys) i = (if i < length xs then chr_at xs i else chr_at ys (i - length xs))"
  by (auto simp: chr_at_def nth_append)

lemma chr_at_dec_fix: "i < k \<Longrightarrow> c_isdigit (chr_at (dec_fix k n) i)"
  using dec_fix_digits [of k n] by (simp add: chr_at_def list_all_length)

lemma dec_val_add: "dec_val a ds = a * 10 ^ length ds + dec_val 0 ds"
proof (induction ds arbitrary: a)
  case (Cons d ds)
  show ?case unfolding dec_val.simps
    by (subst Cons.IH, subst (2) Cons.IH) (simp add: algebra_simps)
qed simp

lemma dec_val_dec_fix_add: "n < 10 ^ k \<Longrightarrow> dec_val a (dec_fix k n) = a * 10 ^ k + int n"
  by (subst dec_val_add) (simp add: dec_val_dec_fix)

lemma dec_str_digits: "list_all c_isdigit (dec_str n)" "dec_str n \<noteq> []"
  by (induction n rule: dec_str.induct) (subst dec_str.simps; simp add: digit_chr_props)+

lemma dec_val_dec_str: "dec_val 0 (dec_str n) = int n"
proof (induction n rule: dec_str.induct)
  case (1 n)
  show ?case
  proof (cases "n < 10")
    case False
    have "10 * int (n div 10) + int (n mod 10) = int n"
      by (metis of_nat_add of_nat_mult of_nat_numeral mult_div_mod_eq)
    then show ?thesis using False 1 by (simp add: dec_str.simps [of n] dec_val_append digit_chr_props)
  qed (simp add: dec_str.simps [of n] digit_chr_props)
qed

lemma length_dec_str: "n < 10 ^ k \<Longrightarrow> 0 < k \<Longrightarrow> length (dec_str n) \<le> k"
proof (induction n arbitrary: k rule: dec_str.induct)
  case (1 n)
  show ?case
  proof (cases "n < 10")
    case False
    then obtain j where k: "k = Suc j" "0 < j" using 1(2,3) by (cases k; cases "k = 1") auto
    then have "n div 10 < 10 ^ j" using 1(2) by (simp add: less_mult_imp_div_less mult.commute)
    then show ?thesis using 1(1) [OF False] k False by (simp add: dec_str.simps [of n])
  qed (use 1 in \<open>simp add: dec_str.simps [of n]\<close>)
qed

end
