(* ===== verification/Approxidate.thy ===== *)
theory Approxidate
  imports Clib
begin

text \<open>
  The date parser of \<open>approxidate.h\<close>: \<open>tm_to_time_t\<close>, the matchers of names, numbers and time
  zones, the exact parser \<open>parse_date_basic\<close> and the approximate one \<open>approxidate_str\<close>.
  A pointer \<open>date\<close> is the rest of the string; \<open>struct tm\<close> and the other variables passed by
  address are passed in and returned.  The C library functions that depend on the clock and
  on the time zone are fields of a record.  Arithmetic on \<open>int\<close> is exact, since its overflow is
  undefined in C; conversions that narrow are written out.
\<close>

text \<open>
  \<open>c_time\<close> is what \<open>time\<close> returns throughout one parse, \<open>c_mktime\<close> the result of \<open>mktime\<close> with
  the structure as it normalises it, \<open>c_localtime\<close> the result of \<open>localtime_r\<close>.
\<close>

record clock =
  c_time :: int
  c_mktime :: "tm \<Rightarrow> int \<times> tm"
  c_localtime :: "int \<Rightarrow> tm option"

subsection \<open>Seconds since 1970\<close>

definition mdays :: "int list" where
  "mdays = [0, 31, 59, 90, 120, 151, 181, 212, 243, 273, 304, 334]"

definition tm_to_time_t :: "tm \<Rightarrow> int" where
  "tm_to_time_t tm =
     (let year = tm_year tm - 70; month = tm_mon tm; day = tm_mday tm
      in if year < 0 \<or> year > 129 then -1
         else if month < 0 \<or> month > 11 then -1
         else
           let day = (if month < 2 \<or> (year + 2) smod 4 \<noteq> 0 then day - 1 else day)
           in if tm_hour tm < 0 \<or> tm_min tm < 0 \<or> tm_sec tm < 0 then -1
              else to_s64 (to_u64 ((year * 365 + (year + 1) sdiv 4 + mdays ! nat month + day) * 24 * 60 * 60)
                     + tm_hour tm * 60 * 60 + tm_min tm * 60 + tm_sec tm))"

subsection \<open>Names\<close>

definition month_names :: "string list" where
  "month_names =
     [''January'', ''February'', ''March'', ''April'', ''May'', ''June'',
      ''July'', ''August'', ''September'', ''October'', ''November'', ''December'']"

definition weekday_names :: "string list" where
  "weekday_names =
     [''Sundays'', ''Mondays'', ''Tuesdays'', ''Wednesdays'', ''Thursdays'', ''Fridays'', ''Saturdays'']"

definition timezone_names :: "(string \<times> int \<times> int) list" where
  "timezone_names =
     [(''IDLW'', -12, 0), (''NT'', -11, 0), (''CAT'', -10, 0), (''HST'', -10, 0), (''HDT'', -10, 1),
      (''YST'', -9, 0), (''YDT'', -9, 1), (''PST'', -8, 0), (''PDT'', -8, 1), (''MST'', -7, 0),
      (''MDT'', -7, 1), (''CST'', -6, 0), (''CDT'', -6, 1), (''EST'', -5, 0), (''EDT'', -5, 1),
      (''AST'', -3, 0), (''ADT'', -3, 1), (''WAT'', -1, 0),
      (''GMT'', 0, 0), (''UTC'', 0, 0), (''Z'', 0, 0),
      (''WET'', 0, 0), (''BST'', 0, 1), (''CET'', 1, 0), (''MET'', 1, 0), (''MEWT'', 1, 0),
      (''MEST'', 1, 1), (''CEST'', 1, 1), (''MESZ'', 1, 1), (''FWT'', 1, 0), (''FST'', 1, 1),
      (''EET'', 2, 0), (''EEST'', 2, 1), (''WAST'', 7, 0), (''WADT'', 7, 1), (''CCT'', 8, 0),
      (''JST'', 9, 0), (''EAST'', 10, 0), (''EADT'', 10, 1), (''GST'', 10, 0), (''NZT'', 12, 0),
      (''NZST'', 12, 0), (''NZDT'', 12, 1), (''IDLE'', 12, 0)]"

text \<open>
  The pointer \<open>str\<close> stops at its terminator: there the characters differ, so the loop ends or
  the match fails.
\<close>

fun match_string_loop :: "string \<Rightarrow> string \<Rightarrow> nat \<Rightarrow> nat" where
  "match_string_loop [] str i = i"
| "match_string_loop (c # date) str i =
     (if c = chr_at str 0 \<or> c_toupper c = c_toupper (chr_at str 0)
      then match_string_loop date (drop 1 str) (Suc i)
      else if \<not> c_isalnum c then i
      else 0)"

definition match_string :: "string \<Rightarrow> string \<Rightarrow> nat" where
  "match_string date str = match_string_loop date str 0"

definition skip_alpha :: "string \<Rightarrow> nat" where
  "skip_alpha date = Suc (length (takeWhile c_isalpha (drop 1 date)))"

text \<open>The first name of a table that matches, with its index and the length of the match.\<close>

fun first_match :: "(string \<Rightarrow> nat \<Rightarrow> bool) \<Rightarrow> string \<Rightarrow> string list \<Rightarrow> nat \<Rightarrow> (nat \<times> nat) option" where
  "first_match ok date [] i = None"
| "first_match ok date (nm # names) i =
     (let match = match_string date nm
      in if ok nm match then Some (i, match) else first_match ok date names (Suc i))"

definition match_alpha :: "string \<Rightarrow> tm \<Rightarrow> int \<Rightarrow> nat \<times> tm \<times> int" where
  "match_alpha date tm offset =
     (case first_match (\<lambda>nm m. m \<ge> 3) date month_names 0 of
        Some (i, match) \<Rightarrow> (match, tm\<lparr>tm_mon := int i\<rparr>, offset)
      | None \<Rightarrow>
     (case first_match (\<lambda>nm m. m \<ge> 3) date weekday_names 0 of
        Some (i, match) \<Rightarrow> (match, tm\<lparr>tm_wday := int i\<rparr>, offset)
      | None \<Rightarrow>
     (case first_match (\<lambda>nm m. m \<ge> 3 \<or> m = length nm) date (map fst timezone_names) 0 of
        Some (i, match) \<Rightarrow>
          let (off, dst) = snd (timezone_names ! i); off = off + dst
          in (match, tm, if offset = -1 then 60 * off else offset)
      | None \<Rightarrow>
          if match_string date ''PM'' = 2 then (2, tm\<lparr>tm_hour := tm_hour tm smod 12 + 12\<rparr>, offset)
          else if match_string date ''AM'' = 2 then (2, tm\<lparr>tm_hour := tm_hour tm smod 12 + 0\<rparr>, offset)
          else (skip_alpha date, tm, offset))))"

subsection \<open>Numbers\<close>

definition is_date :: "int \<Rightarrow> int \<Rightarrow> int \<Rightarrow> tm option \<Rightarrow> int \<Rightarrow> tm \<Rightarrow> bool \<times> tm" where
  "is_date year month day now_tm now tm =
     (if month > 0 \<and> month < 13 \<and> day > 0 \<and> day < 32 then
        let r = tm\<lparr>tm_mon := month - 1, tm_mday := day\<rparr>
        in case now_tm of
             None \<Rightarrow>
               if year = -1 then (True, r)
               else if year \<ge> 1970 \<and> year < 2100 then (True, r\<lparr>tm_year := year - 1900\<rparr>)
               else if year > 70 \<and> year < 100 then (True, r\<lparr>tm_year := year\<rparr>)
               else if year < 38 then (True, r\<lparr>tm_year := year + 100\<rparr>)
               else (False, r)
           | Some now_tm \<Rightarrow>
               let y = (if year = -1 then Some (tm_year now_tm)
                        else if year \<ge> 1970 \<and> year < 2100 then Some (year - 1900)
                        else if year > 70 \<and> year < 100 then Some year
                        else if year < 38 then Some (year + 100)
                        else None)
               in case y of
                    None \<Rightarrow> (False, tm)
                  | Some y \<Rightarrow>
                      let r = r\<lparr>tm_year := y\<rparr>
                      in if now + 10 * 24 * 3600 < tm_to_time_t r then (False, tm)
                         else (True, tm\<lparr>tm_mon := tm_mon r, tm_mday := tm_mday r,
                                        tm_year := (if year \<noteq> -1 then tm_year r else tm_year tm)\<rparr>)
      else (False, tm))"

text \<open>The \<open>break\<close> of the date cases at the first order of the numbers that is a date.\<close>

fun try_dates :: "(tm \<Rightarrow> bool \<times> tm) list \<Rightarrow> tm \<Rightarrow> bool \<times> tm" where
  "try_dates [] tm = (False, tm)"
| "try_dates (f # fs) tm = (let (ok, tm) = f tm in if ok then (True, tm) else try_dates fs tm)"

definition match_multi_number :: "clock \<Rightarrow> int \<Rightarrow> char \<Rightarrow> string \<Rightarrow> nat \<Rightarrow> tm \<Rightarrow> nat \<times> tm" where
  "match_multi_number C num c date end tm =
     (let (num2, n) = strtol (drop (end + 1) date); end = end + 1 + n;
          (num3, end) =
            (if chr_at date end = c \<and> c_isdigit (chr_at date (end + 1))
             then let (num3, n) = strtol (drop (end + 1) date) in (num3, end + 1 + n)
             else (-1, end))
      in if c = CHR '':'' then
           let num3 = (if num3 < 0 then 0 else num3)
           in if num < 25 \<and> num2 \<ge> 0 \<and> num2 < 60 \<and> num3 \<ge> 0 \<and> num3 \<le> 60
              then (end, tm\<lparr>tm_hour := num, tm_min := num2, tm_sec := num3\<rparr>)
              else (0, tm)
         else if c = CHR ''-'' \<or> c = CHR ''/'' \<or> c = CHR ''.'' then
           let now = c_time C; refuse_future = gmtime_r now;
               date_of = (\<lambda>y m d. is_date (to_s32 y) (to_s32 m) (to_s32 d) refuse_future now);
               (ok, tm) = try_dates
                 ((if num > 70 then [date_of num num2 num3, date_of num num3 num2] else [])
                  @ (if c \<noteq> CHR ''.'' then [date_of num3 num num2] else [])
                  @ [date_of num3 num2 num]
                  @ (if c = CHR ''.'' then [date_of num3 num num2] else [])) tm
           in (if ok then end else 0, tm)
         else (end, tm))"

definition nodate :: "tm \<Rightarrow> bool" where
  "nodate tm \<longleftrightarrow>
     (tm_year tm AND tm_mon tm AND tm_mday tm AND tm_hour tm AND tm_min tm AND tm_sec tm) < 0"

definition match_guess :: "int \<Rightarrow> nat \<Rightarrow> tm \<Rightarrow> int \<Rightarrow> tm \<times> int" where
  "match_guess num n tm offset =
     (if n = 4 then
        if num \<le> 1400 \<and> offset = -1 then (tm, num div 100 * 60 + num mod 100)
        else if num > 1900 \<and> num < 2100 then (tm\<lparr>tm_year := num - 1900\<rparr>, offset)
        else (tm, offset)
      else if n > 2 then (tm, offset)
      else if num > 0 \<and> num < 32 \<and> tm_mday tm < 0 then (tm\<lparr>tm_mday := num\<rparr>, offset)
      else if n = 2 \<and> tm_year tm < 0 \<and> num < 10 \<and> tm_mday tm \<ge> 0 then (tm\<lparr>tm_year := num + 100\<rparr>, offset)
      else if n = 2 \<and> tm_year tm < 0 \<and> num \<ge> 70 then (tm\<lparr>tm_year := num\<rparr>, offset)
      else if num > 0 \<and> num < 13 \<and> tm_mon tm < 0 then (tm\<lparr>tm_mon := num - 1\<rparr>, offset)
      else (tm, offset))"

definition is_sep :: "char \<Rightarrow> bool" where
  "is_sep c \<longleftrightarrow> c \<in> {CHR '':'', CHR ''.'', CHR ''/'', CHR ''-''}"

definition match_digit :: "clock \<Rightarrow> string \<Rightarrow> tm \<Rightarrow> int \<Rightarrow> bool \<Rightarrow> nat \<times> tm \<times> int \<times> bool" where
  "match_digit C date tm offset tm_gmt =
     (let (num, end) = strtoul date;
          stamp = (if num \<ge> 100000000 \<and> nodate tm then gmtime_r (to_s64 num) else None)
      in case stamp of
           Some tm \<Rightarrow> (end, tm, offset, True)
         | None \<Rightarrow>
             let (match, tm) =
                   (if is_sep (chr_at date end) \<and> c_isdigit (chr_at date (end + 1))
                    then match_multi_number C num (chr_at date end) date end tm else (0, tm))
             in if match \<noteq> 0 then (match, tm, offset, tm_gmt)
                else
                  let n = Suc (length (takeWhile c_isdigit (drop 1 date)));
                      (tm, offset) = match_guess num n tm offset
                  in (n, tm, offset, tm_gmt))"

definition match_tz :: "string \<Rightarrow> int \<Rightarrow> nat \<times> int" where
  "match_tz date offp =
     (let (v, n) = strtoul (drop 1 date); hour = to_s32 v;
          (hour, min, end) =
            (if n = 4 then (hour sdiv 100, hour smod 100, 1 + n)
             else if n \<noteq> 2 then (hour, 99, 1 + n)
             else if chr_at date (1 + n) = CHR '':'' then
               let (v, k) = strtoul (drop (n + 2) date); end = n + 2 + k
               in (hour, if end - 1 \<noteq> 5 then 99 else to_s32 v, end)
             else (hour, 0, 1 + n))
      in (end, if min < 60 \<and> hour < 24
               then (if chr_at date 0 = CHR ''-'' then - (hour * 60 + min) else hour * 60 + min)
               else offp))"

definition match_object_header_date :: "string \<Rightarrow> (int \<times> int) option" where
  "match_object_header_date date =
     (if chr_code (chr_at date 0) < chr_code CHR ''0'' \<or> chr_code CHR ''9'' \<le> chr_code (chr_at date 0) then None
      else
        let (stamp, end) = strtoul date
        in if chr_at date end \<noteq> CHR '' '' \<or> stamp = ULONG_MAX
              \<or> (chr_at date (end + 1) \<noteq> CHR ''+'' \<and> chr_at date (end + 1) \<noteq> CHR ''-'') then None
           else
             let start = end + 2; (v, n) = strtol (drop start date); ofs = to_s32 v
             in if (chr_at date (start + n) \<noteq> CHR 0x00 \<and> chr_at date (start + n) \<noteq> CHR 0x0A) \<or> n \<noteq> 4 then None
                else
                  let ofs = (ofs sdiv 100) * 60 + ofs smod 100;
                      ofs = (if chr_at date (start - 1) = CHR ''-'' then - ofs else ofs)
                  in Some (to_s64 stamp, ofs))"

subsection \<open>The exact parser\<close>

definition match_one :: "clock \<Rightarrow> string \<Rightarrow> tm \<Rightarrow> int \<Rightarrow> bool \<Rightarrow> nat \<times> tm \<times> int \<times> bool" where
  "match_one C date tm offset tm_gmt =
     (let c = chr_at date 0;
          (match, tm, offset, tm_gmt) =
            (if c_isalpha c then
               let (match, tm, offset) = match_alpha date tm offset in (match, tm, offset, tm_gmt)
             else if c_isdigit c then match_digit C date tm offset tm_gmt
             else if (c = CHR ''-'' \<or> c = CHR ''+'') \<and> c_isdigit (chr_at date 1) then
               let (match, offset) = match_tz date offset in (match, tm, offset, tm_gmt)
             else (0, tm, offset, tm_gmt))
      in (if match = 0 then 1 else match, tm, offset, tm_gmt))"

lemma match_one_pos: "match_one C date tm offset g = (n, r) \<Longrightarrow> 0 < n"
  by (auto simp: match_one_def Let_def split: prod.splits if_splits)

function parse_date_loop :: "clock \<Rightarrow> string \<Rightarrow> tm \<Rightarrow> int \<Rightarrow> bool \<Rightarrow> tm \<times> int \<times> bool" where
  "parse_date_loop C date tm offset tm_gmt =
     (if date = [] \<or> chr_at date 0 = CHR 0x0A then (tm, offset, tm_gmt)
      else case match_one C date tm offset tm_gmt of
             (match, tm, offset, tm_gmt) \<Rightarrow> parse_date_loop C (drop match date) tm offset tm_gmt)"
  by pat_completeness auto
termination
  by (relation "measure (\<lambda>(C, date, tm, offset, g). length date)")
    (auto dest!: match_one_pos [OF sym])

declare parse_date_loop.simps [simp del]

definition tm_unset :: tm where
  "tm_unset = \<lparr>tm_sec = -1, tm_min = -1, tm_hour = -1, tm_mday = -1, tm_mon = -1, tm_year = -1,
     tm_wday = 0, tm_yday = 0, tm_isdst = -1\<rparr>"

definition parse_date_finish :: "clock \<Rightarrow> tm \<Rightarrow> int \<Rightarrow> bool \<Rightarrow> (int \<times> int) option" where
  "parse_date_finish C tm offset tm_gmt =
     (let timestamp = tm_to_time_t tm;
          offset = (if offset = -1 then to_s32 (timestamp - fst (c_mktime C tm)) sdiv 60 else offset)
      in if timestamp = -1 then None
         else Some (if tm_gmt then timestamp else timestamp - offset * 60, offset))"

text \<open>Success with the time stamp and the offset from UTC in minutes, or failure.\<close>

definition parse_date_basic :: "clock \<Rightarrow> string \<Rightarrow> (int \<times> int) option" where
  "parse_date_basic C date =
     (case (if chr_at date 0 = CHR ''@'' then match_object_header_date (drop 1 date) else None) of
        Some r \<Rightarrow> Some r
      | None \<Rightarrow>
          let (tm, offset, tm_gmt) = parse_date_loop C date tm_unset (-1) False
          in parse_date_finish C tm offset tm_gmt)"

subsection \<open>Relative times\<close>

definition fill_tm :: "tm \<Rightarrow> tm \<Rightarrow> tm" where
  "fill_tm tm now =
     (let tm = (if tm_mday tm < 0 then tm\<lparr>tm_mday := tm_mday now\<rparr> else tm);
          tm = (if tm_mon tm < 0 then tm\<lparr>tm_mon := tm_mon now\<rparr> else tm)
      in if tm_year tm < 0 then
           tm\<lparr>tm_year := (if tm_mon tm > tm_mon now then tm_year now - 1 else tm_year now)\<rparr>
         else tm)"

definition update_tm :: "clock \<Rightarrow> tm \<Rightarrow> tm \<Rightarrow> int \<Rightarrow> int \<times> tm" where
  "update_tm C tm now sec =
     (let (t, tm) = c_mktime C (fill_tm tm now);
          n = to_s64 (to_u64 t - sec)
      in (n, case c_localtime C n of Some tm \<Rightarrow> tm | None \<Rightarrow> tm))"

definition date_now :: "clock \<Rightarrow> tm \<Rightarrow> tm \<Rightarrow> tm" where
  "date_now C tm now = snd (update_tm C tm now 0)"

definition date_yesterday :: "clock \<Rightarrow> tm \<Rightarrow> tm \<Rightarrow> tm" where
  "date_yesterday C tm now = snd (update_tm C tm now (24 * 60 * 60))"

definition date_time :: "clock \<Rightarrow> tm \<Rightarrow> tm \<Rightarrow> int \<Rightarrow> tm" where
  "date_time C tm now hour =
     (let tm = (if tm_hour tm < hour then date_yesterday C tm now else tm)
      in tm\<lparr>tm_hour := hour, tm_min := 0, tm_sec := 0\<rparr>)"

definition date_ampm :: "tm \<Rightarrow> int \<Rightarrow> int \<Rightarrow> tm" where
  "date_ampm tm n base =
     (if n \<noteq> 0 then tm\<lparr>tm_min := 0, tm_sec := 0, tm_hour := n smod 12 + base\<rparr>
      else tm\<lparr>tm_hour := tm_hour tm smod 12 + base\<rparr>)"

definition date_never :: "clock \<Rightarrow> tm \<Rightarrow> tm" where
  "date_never C tm = (case c_localtime C 0 of Some tm \<Rightarrow> tm | None \<Rightarrow> tm)"

datatype special_fn = DateYesterday | DateNoon | DateMidnight | DateTea | DatePM | DateAM | DateNever | DateNow

definition special :: "(string \<times> special_fn) list" where
  "special =
     [(''yesterday'', DateYesterday), (''noon'', DateNoon), (''midnight'', DateMidnight),
      (''tea'', DateTea), (''PM'', DatePM), (''AM'', DateAM), (''never'', DateNever), (''now'', DateNow)]"

text \<open>A call through the table, with the structure and the pending number.\<close>

fun special_call :: "clock \<Rightarrow> special_fn \<Rightarrow> tm \<Rightarrow> tm \<Rightarrow> int \<Rightarrow> tm \<times> int" where
  "special_call C DateYesterday tm now num = (date_yesterday C tm now, num)"
| "special_call C DateNoon tm now num = (date_time C tm now 12, num)"
| "special_call C DateMidnight tm now num = (date_time C tm now 0, num)"
| "special_call C DateTea tm now num = (date_time C tm now 17, num)"
| "special_call C DatePM tm now num = (date_ampm tm num 12, 0)"
| "special_call C DateAM tm now num = (date_ampm tm num 0, 0)"
| "special_call C DateNever tm now num = (date_never C tm, num)"
| "special_call C DateNow tm now num = (date_now C tm now, num)"

definition number_name :: "string list" where
  "number_name =
     [''zero'', ''one'', ''two'', ''three'', ''four'', ''five'', ''six'', ''seven'', ''eight'', ''nine'', ''ten'']"

definition typelen :: "(string \<times> int) list" where
  "typelen =
     [(''seconds'', 1), (''minutes'', 60), (''hours'', 60 * 60), (''days'', 24 * 60 * 60),
      (''weeks'', 7 * 24 * 60 * 60)]"

function months_back :: "int \<Rightarrow> int \<Rightarrow> int \<times> int" where
  "months_back n year = (if n < 0 then months_back (n + 12) (year - 1) else (n, year))"
  by pat_completeness auto
termination
  by (relation "measure (\<lambda>(n, year). nat (- n))") auto

declare months_back.simps [simp del]

text \<open>The unit of a pending number: what \<open>approxidate_alpha\<close> does after its \<open>if (!*num)\<close>.\<close>

definition approxidate_unit :: "clock \<Rightarrow> string \<Rightarrow> tm \<Rightarrow> tm \<Rightarrow> int \<Rightarrow> bool \<Rightarrow> tm \<times> int \<times> bool" where
  "approxidate_unit C date tm now num touched =
     (case first_match (\<lambda>nm m. m \<ge> length nm - 1) date (map fst typelen) 0 of
        Some (i, _) \<Rightarrow>
          (snd (update_tm C tm now (to_u64 (snd (typelen ! i) * to_u64 num))), 0, True)
      | None \<Rightarrow>
     (case first_match (\<lambda>nm m. m \<ge> 3) date weekday_names 0 of
        Some (i, _) \<Rightarrow>
          let n = num - 1; diff = tm_wday tm - int i;
              n = (if diff \<le> 0 then n + 1 else n);
              diff = diff + 7 * n
          in (snd (update_tm C tm now (to_u64 (diff * 24 * 60 * 60))), 0, True)
      | None \<Rightarrow>
          if match_string date ''months'' \<ge> 5 then
            let tm = snd (update_tm C tm now 0);
                (n, year) = months_back (tm_mon tm - num) (tm_year tm)
            in (tm\<lparr>tm_year := year, tm_mon := n\<rparr>, 0, True)
          else if match_string date ''years'' \<ge> 4 then
            let tm = snd (update_tm C tm now 0)
            in (tm\<lparr>tm_year := tm_year tm - num\<rparr>, 0, True)
          else (tm, num, touched)))"

definition approxidate_alpha ::
  "clock \<Rightarrow> string \<Rightarrow> tm \<Rightarrow> tm \<Rightarrow> int \<Rightarrow> bool \<Rightarrow> nat \<times> tm \<times> int \<times> bool"
where
  "approxidate_alpha C date tm now num touched =
     (skip_alpha date,
      case first_match (\<lambda>nm m. m \<ge> 3) date month_names 0 of
        Some (i, _) \<Rightarrow> (tm\<lparr>tm_mon := int i\<rparr>, num, True)
      | None \<Rightarrow>
     (case first_match (\<lambda>nm m. m = length nm) date (map fst special) 0 of
        Some (i, _) \<Rightarrow> (let (tm, num) = special_call C (snd (special ! i)) tm now num in (tm, num, True))
      | None \<Rightarrow>
          if num = 0 then
            (case first_match (\<lambda>nm m. m = length nm) date (drop 1 number_name) 1 of
               Some (i, _) \<Rightarrow> (tm, int i, True)
             | None \<Rightarrow> if match_string date ''last'' = 4 then (tm, 1, True) else (tm, num, touched))
          else approxidate_unit C date tm now num touched))"

definition approxidate_digit :: "clock \<Rightarrow> string \<Rightarrow> tm \<Rightarrow> int \<Rightarrow> nat \<times> tm \<times> int" where
  "approxidate_digit C date tm num =
     (let (number, end) = strtoul date;
          (match, tm) =
            (if is_sep (chr_at date end) \<and> c_isdigit (chr_at date (end + 1))
             then match_multi_number C number (chr_at date end) date end tm else (0, tm))
      in if match \<noteq> 0 then (match, tm, num)
         else (end, tm, if chr_at date 0 \<noteq> CHR ''0'' \<or> end \<le> 2 then to_s32 number else num))"

definition pending_number :: "tm \<Rightarrow> int \<Rightarrow> tm \<times> int" where
  "pending_number tm num =
     (let number = num
      in if number \<noteq> 0 then
           (if tm_mday tm < 0 \<and> number < 32 then tm\<lparr>tm_mday := number\<rparr>
            else if tm_mon tm < 0 \<and> number < 13 then tm\<lparr>tm_mon := number - 1\<rparr>
            else if tm_year tm < 0 then
              if number > 1969 \<and> number < 2100 then tm\<lparr>tm_year := number - 1900\<rparr>
              else if number > 69 \<and> number < 100 then tm\<lparr>tm_year := number\<rparr>
              else if number < 38 then tm\<lparr>tm_year := 100 + number\<rparr>
              else tm
            else tm, 0)
         else (tm, num))"

definition approxidate_one ::
  "clock \<Rightarrow> string \<Rightarrow> tm \<Rightarrow> tm \<Rightarrow> int \<Rightarrow> bool \<Rightarrow> nat \<times> tm \<times> int \<times> bool"
where
  "approxidate_one C date tm now num touched =
     (let c = chr_at date 0
      in if c_isdigit c then
           let (tm, num) = pending_number tm num;
               (n, tm, num) = approxidate_digit C date tm num
           in (n, tm, num, True)
         else if c_isalpha c then approxidate_alpha C date tm now num touched
         else (1, tm, num, touched))"

lemma strtoul_digit_pos: "c_isdigit (chr_at date 0) \<Longrightarrow> strtoul date = (v, n) \<Longrightarrow> 0 < n"
  using digit_not_space [of "chr_at date 0"]
  by (cases date) (auto simp: strtoul_def strto_scan_def Let_def split: if_splits)

lemma approxidate_one_pos:
  "approxidate_one C date tm now num touched = (n, r) \<Longrightarrow> 0 < n"
  by (auto simp: approxidate_one_def approxidate_alpha_def approxidate_digit_def skip_alpha_def Let_def
      split: prod.splits if_splits dest: strtoul_digit_pos)

function approxidate_loop ::
  "clock \<Rightarrow> string \<Rightarrow> tm \<Rightarrow> tm \<Rightarrow> int \<Rightarrow> bool \<Rightarrow> tm \<times> int \<times> bool"
where
  "approxidate_loop C date tm now num touched =
     (if date = [] then (tm, num, touched)
      else case approxidate_one C date tm now num touched of
             (n, tm, num, touched) \<Rightarrow> approxidate_loop C (drop n date) tm now num touched)"
  by pat_completeness auto
termination
  by (relation "measure (\<lambda>(C, date, tm, now, num, touched). length date)")
    (auto dest!: approxidate_one_pos [OF sym])

declare approxidate_loop.simps [simp del]

definition tm_zero :: tm where
  "tm_zero = \<lparr>tm_sec = 0, tm_min = 0, tm_hour = 0, tm_mday = 0, tm_mon = 0, tm_year = 0,
     tm_wday = 0, tm_yday = 0, tm_isdst = 0\<rparr>"

text \<open>The time, and whether anything in the string was recognised (\<open>*error_ret\<close> is left alone).\<close>

definition approxidate_str :: "clock \<Rightarrow> string \<Rightarrow> int \<Rightarrow> int \<times> bool" where
  "approxidate_str C date time_sec =
     (let now = (case c_localtime C time_sec of Some tm \<Rightarrow> tm | None \<Rightarrow> tm_zero);
          tm = now\<lparr>tm_year := -1, tm_mon := -1, tm_mday := -1\<rparr>;
          (tm, num, touched) = approxidate_loop C date tm now 0 False;
          (tm, num) = pending_number tm num
      in (fst (update_tm C tm now 0), touched))"

text \<open>The return value, and what was stored to \<open>*out\<close> if anything was.\<close>

definition git_date_offset_parse :: "clock \<Rightarrow> string \<Rightarrow> int \<times> int option \<times> int option" where
  "git_date_offset_parse C date =
     (case parse_date_basic C date of
        Some (timestamp, offset) \<Rightarrow> (0, Some timestamp, Some offset)
      | None \<Rightarrow>
          if c_time C = -1 then (-1, None, None)
          else let (t, touched) = approxidate_str C date (c_time C)
               in (if touched then 0 else -1, Some t, None))"

definition git_date_parse :: "clock \<Rightarrow> string \<Rightarrow> int \<times> int option" where
  "git_date_parse C date = (let (r, out, offset) = git_date_offset_parse C date in (r, out))"

end
