(* ===== verification/Calendar.thy ===== *)
theory Calendar
  imports Approxidate
begin

text \<open>
  The calendar: \<open>tm_to_time_t\<close> against the sum of the lengths of years and months, and
  \<open>gmtime_r\<close> as its inverse.
\<close>

subsection \<open>Days since 1970\<close>

definition days_to_year :: "int \<Rightarrow> int \<Rightarrow> int" where
  "days_to_year y y' = (\<Sum>k\<in>{y..<y'}. year_days k)"

definition days_to_month :: "int \<Rightarrow> nat \<Rightarrow> int" where
  "days_to_month y m = (\<Sum>k<m. month_days y k)"

text \<open>Day \<open>d\<close> of month \<open>m\<close> (from 0) of the Gregorian year \<open>y\<close>, counted from the first day of 1970.\<close>

definition civil_days :: "int \<Rightarrow> nat \<Rightarrow> int \<Rightarrow> int" where
  "civil_days y m d = days_to_year 1970 y + days_to_month y m + (d - 1)"

definition civil_time :: "tm \<Rightarrow> int" where
  "civil_time tm = civil_days (tm_year tm + 1900) (nat (tm_mon tm)) (tm_mday tm) * 86400
     + tm_hour tm * 3600 + tm_min tm * 60 + tm_sec tm"

lemma days_to_year_step: "y \<le> y' \<Longrightarrow> days_to_year y (y' + 1) = days_to_year y y' + year_days y'"
proof -
  assume "y \<le> y'"
  then have "{y..<y' + 1} = insert y' {y..<y'}" by auto
  then show ?thesis by (simp add: days_to_year_def)
qed

lemma days_to_year_first: "y < y' \<Longrightarrow> days_to_year y y' = year_days y + days_to_year (y + 1) y'"
proof -
  assume "y < y'"
  then have "{y..<y'} = insert y {y + 1..<y'}" by auto
  then show ?thesis by (simp add: days_to_year_def)
qed

lemma leap_1970: "0 \<le> n \<Longrightarrow> n < 130 \<Longrightarrow> leap (1970 + n) \<longleftrightarrow> (n + 2) mod 4 = 0"
proof -
  assume n: "0 \<le> n" "n < 130"
  have "(1970 + n) mod 4 = (n + 2) mod 4" by presburger
  moreover have "(1970 + n) mod 100 = 0 \<Longrightarrow> (1970 + n) mod 400 = 0"
  proof -
    assume "(1970 + n) mod 100 = 0"
    then have "n = 30" using n by presburger
    then show ?thesis by simp
  qed
  ultimately show ?thesis by (auto simp: leap_def)
qed

lemma days_to_year_1970: "n \<le> 130 \<Longrightarrow> days_to_year 1970 (1970 + int n) = int n * 365 + (int n + 1) div 4"
proof (induction n)
  case (Suc n)
  have "days_to_year 1970 (1970 + int (Suc n)) = days_to_year 1970 (1970 + int n) + year_days (1970 + int n)"
    using days_to_year_step [of 1970 "1970 + int n"] by (simp add: add.assoc)
  moreover have "year_days (1970 + int n) = (if (int n + 2) mod 4 = 0 then 366 else 365)"
    using leap_1970 [of "int n"] Suc.prems by (simp add: year_days_def)
  moreover have "(int (Suc n) + 1) div 4 = (int n + 1) div 4 + (if (int n + 2) mod 4 = 0 then 1 else 0)"
    by presburger
  ultimately show ?case using Suc by simp
qed (simp add: days_to_year_def)

lemma mdays_days_to_month:
  "m < 12 \<Longrightarrow> mdays ! m + (if m < 2 \<or> \<not> leap y then 0 else 1) = days_to_month y m"
proof -
  assume "m < 12"
  then have "m = 0 \<or> m = 1 \<or> m = 2 \<or> m = 3 \<or> m = 4 \<or> m = 5 \<or> m = 6 \<or> m = 7 \<or> m = 8 \<or> m = 9 \<or> m = 10
    \<or> m = 11" by presburger
  then show ?thesis
    by (elim disjE) (simp_all add: mdays_def days_to_month_def month_days_def numeral_eq_Suc lessThan_Suc)
qed

lemma month_days_bounds: "28 \<le> month_days y m" "month_days y m \<le> 31"
  by (simp_all add: month_days_def)

lemma days_to_month_bounds: "0 \<le> days_to_month y m" "days_to_month y m \<le> 31 * int m"
proof -
  have "0 \<le> days_to_month y m \<and> days_to_month y m \<le> 31 * int m"
  proof (induction m)
    case (Suc m)
    then show ?case using month_days_bounds [of y m] by (simp add: days_to_month_def)
  qed (simp add: days_to_month_def)
  then show "0 \<le> days_to_month y m" "days_to_month y m \<le> 31 * int m" by simp_all
qed

lemma to_s64_id: "- (2 ^ 63) \<le> x \<Longrightarrow> x < 2 ^ 63 \<Longrightarrow> to_s64 x = x"
  by (simp add: to_s64_def)

lemma to_s64_to_u64_add: "to_s64 (to_u64 x + y) = to_s64 (x + y)"
proof -
  have "(x mod 2 ^ 64 + (y + 2 ^ 63)) mod 2 ^ 64 = (x + (y + 2 ^ 63)) mod 2 ^ 64"
    by (rule mod_add_left_eq)
  then show ?thesis by (simp add: to_s64_def to_u64_def add.assoc)
qed

lemma to_s32_id: "- (2 ^ 31) \<le> x \<Longrightarrow> x < 2 ^ 31 \<Longrightarrow> to_s32 x = x"
  by (simp add: to_s32_def)

definition tm_ints :: "tm \<Rightarrow> bool" where
  "tm_ints tm \<longleftrightarrow> (\<forall>x\<in>{tm_mday tm, tm_hour tm, tm_min tm, tm_sec tm}. - (2 ^ 31) \<le> x \<and> x < 2 ^ 31)"

lemma tm_to_time_t_civil:
  assumes "70 \<le> tm_year tm" "tm_year tm < 200" "0 \<le> tm_mon tm" "tm_mon tm < 12"
    "0 \<le> tm_hour tm" "0 \<le> tm_min tm" "0 \<le> tm_sec tm" "tm_ints tm"
  shows "tm_to_time_t tm = civil_time tm"
proof -
  define n where "n = nat (tm_year tm - 70)"
  have n: "tm_year tm = int n + 70" "n < 130" using assms(1,2) by (auto simp: n_def)
  define m where "m = nat (tm_mon tm)"
  have m: "tm_mon tm = int m" "m < 12" using assms(3,4) by (auto simp: m_def)
  have leap: "leap (1970 + int n) \<longleftrightarrow> (int n + 2) smod 4 = 0"
    using leap_1970 [of "int n"] n(2) by (simp add: smod_mod_positive)
  have y: "days_to_year 1970 (1970 + int n) = int n * 365 + (int n + 1) sdiv 4"
    using days_to_year_1970 [of n] n(2) by (simp add: sdiv_nonneg)
  have day: "int n * 365 + (int n + 1) sdiv 4 + mdays ! m
      + (if int m < 2 \<or> (int n + 2) smod 4 \<noteq> 0 then tm_mday tm - 1 else tm_mday tm)
      = civil_days (1970 + int n) m (tm_mday tm)"
    using mdays_days_to_month [OF m(2), of "1970 + int n"] leap y
    by (auto simp: civil_days_def split: if_splits)
  note mb = days_to_month_bounds [of "1970 + int n" m]
  have b: "- (2 ^ 32) \<le> civil_days (1970 + int n) m (tm_mday tm)"
    "civil_days (1970 + int n) m (tm_mday tm) < 2 ^ 32"
    using mb days_to_year_1970 [of n] n(2) m(2) assms(8) by (auto simp: civil_days_def tm_ints_def)
  have "tm_to_time_t tm = to_s64 (to_u64 ((int n * 365 + (int n + 1) sdiv 4 + mdays ! m
      + (if int m < 2 \<or> (int n + 2) smod 4 \<noteq> 0 then tm_mday tm - 1 else tm_mday tm)) * 24 * 60 * 60)
      + tm_hour tm * 60 * 60 + tm_min tm * 60 + tm_sec tm)"
    using assms(5-7) n(2) m(2) by (simp add: tm_to_time_t_def Let_def n(1) m(1))
  also have "\<dots> = to_s64 (civil_time tm)"
    unfolding day by (simp add: to_s64_to_u64_add add.assoc civil_time_def n(1) m(1) mult.assoc add.commute [of 1900])
      (simp add: add.commute)
  finally have "tm_to_time_t tm = to_s64 (civil_time tm)" .
  moreover have "to_s64 (civil_time tm) = civil_time tm"
    using b assms(5-8) by (intro to_s64_id) (auto simp: civil_time_def n(1) m(1) tm_ints_def algebra_simps)
  ultimately show ?thesis by simp
qed

subsection \<open>The inverse\<close>

lemma year_of_correct:
  assumes "0 \<le> d"
  shows "case year_of y d of (y', d') \<Rightarrow>
    y \<le> y' \<and> 0 \<le> d' \<and> d' < year_days y' \<and> d = days_to_year y y' + d'"
  using assms
proof (induction y d rule: year_of.induct)
  case (1 y d)
  show ?case
  proof (cases "d < year_days y")
    case True
    then show ?thesis using 1(2) by (subst year_of.simps) (simp add: days_to_year_def)
  next
    case False
    then show ?thesis using 1(1) by (subst year_of.simps) (auto simp: days_to_year_first split: prod.splits)
  qed
qed

lemma days_to_month_numeral:
  "days_to_month y 0 = 0" "days_to_month y (Suc m) = days_to_month y m + month_days y m"
  by (simp_all add: days_to_month_def)

lemma days_to_month_12: "days_to_month y 12 = year_days y"
  by (simp add: days_to_month_numeral numeral_eq_Suc month_days_def year_days_def)

lemma month_of_correct:
  assumes "days_to_month y k \<le> d" "d < days_to_month y 12" "k < 12"
  shows "case month_of y [k..<12] (d - days_to_month y k) of (m, d') \<Rightarrow>
    m < 12 \<and> 0 \<le> d' \<and> d' < month_days y m \<and> d = days_to_month y m + d'"
  using assms
proof (induction "11 - k" arbitrary: k)
  case 0
  then have "k = 11" by simp
  then show ?case using 0 by (simp add: upt_rec days_to_month_numeral numeral_eq_Suc)
next
  case (Suc n)
  then have k: "k < 11" by simp
  then have upt: "[k..<12] = k # Suc k # [Suc (Suc k)..<12]" by (simp add: upt_conv_Cons)
  have upt': "[Suc k..<12] = Suc k # [Suc (Suc k)..<12]" using k by (simp add: upt_conv_Cons)
  show ?case
  proof (cases "d < days_to_month y (Suc k)")
    case True
    then show ?thesis using Suc.prems k unfolding upt by (simp add: days_to_month_numeral)
  next
    case False
    then have "case month_of y [Suc k..<12] (d - days_to_month y (Suc k)) of (m, d') \<Rightarrow>
      m < 12 \<and> 0 \<le> d' \<and> d' < month_days y m \<and> d = days_to_month y m + d'"
      using Suc k by (intro Suc.hyps) auto
    then show ?thesis using False unfolding upt upt' by (simp add: days_to_month_numeral diff_diff_eq)
  qed
qed

lemma days_to_year_mono: "y \<le> y' \<Longrightarrow> 0 \<le> days_to_year y y'"
  by (auto simp: days_to_year_def year_days_def intro!: sum_nonneg)

lemma days_to_year_split: "a \<le> b \<Longrightarrow> b \<le> c \<Longrightarrow> days_to_year a c = days_to_year a b + days_to_year b c"
proof -
  assume "a \<le> b" "b \<le> c"
  then have "{a..<c} = {a..<b} \<union> {b..<c}" "{a..<b} \<inter> {b..<c} = {}" by auto
  then show ?thesis by (simp add: days_to_year_def sum.union_disjoint)
qed

lemma sexagesimal: "x div 3600 * 3600 + x div 60 mod 60 * 60 + x mod 60 = (x::int)"
proof -
  have "a * 3600 + b * 60 + r = x" if "q * 60 + r = x" "a * 60 + b = q" for a b q r
    using that by simp
  from this [OF div_mult_mod_eq div_mult_mod_eq] show ?thesis
    using zdiv_zmult2_eq [of 60 x 60] by simp
qed

lemma gmtime_r_civil:
  assumes "0 \<le> t" "t < 4102444800"
  shows "\<exists>tm. gmtime_r t = Some tm \<and> civil_time tm = t \<and> 70 \<le> tm_year tm \<and> tm_year tm < 200
    \<and> 0 \<le> tm_mon tm \<and> tm_mon tm < 12 \<and> 1 \<le> tm_mday tm
    \<and> tm_mday tm \<le> month_days (tm_year tm + 1900) (nat (tm_mon tm))
    \<and> 0 \<le> tm_hour tm \<and> tm_hour tm < 24 \<and> 0 \<le> tm_min tm \<and> tm_min tm < 60 \<and> 0 \<le> tm_sec tm \<and> tm_sec tm < 60"
proof -
  define days where "days = t div 86400"
  define sec where "sec = t mod 86400"
  have d: "0 \<le> days" "days < 47482" and s: "0 \<le> sec" "sec < 86400" and t: "t = days * 86400 + sec"
    using assms by (auto simp: days_def sec_def)
  have era: "days div 146097 = 0" "days mod 146097 = days" using d by simp_all
  obtain y yd where y: "year_of 1970 days = (y, yd)" "1970 \<le> y" "0 \<le> yd" "yd < year_days y"
    "days = days_to_year 1970 y + yd"
    using year_of_correct [OF d(1), of 1970] by (auto split: prod.splits)
  have y2100: "y < 2100"
  proof (rule ccontr)
    assume "\<not> y < 2100"
    then have "days_to_year 1970 y = days_to_year 1970 2100 + days_to_year 2100 y"
      by (intro days_to_year_split) auto
    then show False
      using \<open>\<not> y < 2100\<close> d(2) y(3,5) days_to_year_1970 [of 130] days_to_year_mono [of 2100 y] by simp
  qed
  obtain m md where m: "month_of y months yd = (m, md)" "m < 12" "0 \<le> md" "md < month_days y m"
    "yd = days_to_month y m + md"
    using month_of_correct [of y 0 yd] y(3,4) unfolding months_def [symmetric]
    by (auto simp: days_to_month_numeral days_to_month_12 split: prod.splits)
  define tm where "tm = \<lparr>tm_sec = sec mod 60, tm_min = sec div 60 mod 60, tm_hour = sec div 3600,
    tm_mday = md + 1, tm_mon = int m, tm_year = y - 1900, tm_wday = (days + 4) mod 7, tm_yday = yd, tm_isdst = 0\<rparr>"
  have "gmtime_r t = Some tm"
    using y(1,2) y2100 m(1) era
    by (simp add: gmtime_r_def Let_def tm_def flip: days_def sec_def)
  moreover have "civil_time tm = days * 86400 + (sec div 3600 * 3600 + sec div 60 mod 60 * 60 + sec mod 60)"
    using y(5) m(5) by (simp add: civil_time_def civil_days_def tm_def algebra_simps)
  moreover have "sec div 3600 * 3600 + sec div 60 mod 60 * 60 + sec mod 60 = sec"
    by (rule sexagesimal)
  ultimately have "gmtime_r t = Some tm \<and> civil_time tm = t" by (simp only: t)
  moreover have "0 \<le> sec div 3600" "sec div 3600 < 24" using s by auto
  ultimately show ?thesis using y(2) y2100 m(2-4) by (intro exI [of _ tm]) (simp add: tm_def)
qed

end
