(* ===== verification/Approxidate_Bounds.thy ===== *)
theory Approxidate_Bounds
  imports Calendar
begin

text \<open>
  The matchers never pass the end of the string: each consumes at least one character and at
  most what is left, so the loops of the parsers end and read no byte after the terminator.
\<close>

lemma match_string_loop_le: "match_string_loop date str i \<le> i + length date"
  by (induction date str i rule: match_string_loop.induct) (auto simp: le_Suc_eq)

lemma match_string_le: "match_string date str \<le> length date"
  using match_string_loop_le [of date str 0] by (simp add: match_string_def)

lemma first_match_le: "first_match ok date names i = Some (k, m) \<Longrightarrow> m \<le> length date \<and> (\<exists>nm. ok nm m)"
  by (induction names arbitrary: i) (auto simp: Let_def match_string_le split: if_splits)

lemma skip_alpha_le: "date \<noteq> [] \<Longrightarrow> skip_alpha date \<le> length date"
  using length_takeWhile_le [of c_isalpha "drop 1 date"] by (cases date) (auto simp: skip_alpha_def)

lemma match_alpha_le:
  assumes "date \<noteq> []" "match_alpha date tm offset = (n, r)"
  shows "n \<le> length date"
  using assms match_string_le [of date "''PM''"] match_string_le [of date "''AM''"]
  by (auto simp: match_alpha_def Let_def skip_alpha_le split: option.splits if_splits prod.splits
      dest: first_match_le)

lemma chr_at_not_nul: "chr_at s i \<noteq> CHR 0x00 \<Longrightarrow> i < length s"
  by (auto simp: chr_at_def split: if_splits)

lemma c_isdigit_less: "c_isdigit (chr_at s i) \<Longrightarrow> i < length s"
  by (intro chr_at_not_nul) auto

lemma match_multi_number_le:
  assumes "end < length date" "match_multi_number C num c date end tm = (n, r)"
  shows "n \<le> length date"
proof -
  obtain num2 n2 where s2: "strtol (drop (end + 1) date) = (num2, n2)" by fastforce
  then have e2: "end + 1 + n2 \<le> length date" using strtol_le [OF s2] assms(1) by simp
  define e3 where "e3 = (if chr_at date (end + 1 + n2) = c \<and> c_isdigit (chr_at date (end + 1 + n2 + 1))
    then end + 1 + n2 + 1 + snd (strtol (drop (end + 1 + n2 + 1) date)) else end + 1 + n2)"
  have "e3 \<le> length date"
  proof (cases "chr_at date (end + 1 + n2) = c \<and> c_isdigit (chr_at date (end + 1 + n2 + 1))")
    case True
    then have "end + 1 + n2 + 1 < length date" by (intro c_isdigit_less) simp
    then show ?thesis using strtol_le [of "drop (end + 1 + n2 + 1) date"] True
      by (cases "strtol (drop (end + 1 + n2 + 1) date)") (auto simp: e3_def)
  next
    case False
    then show ?thesis using e2 by (auto simp: e3_def)
  qed
  moreover have "n = 0 \<or> n = e3"
    using assms(2) s2 by (auto simp: match_multi_number_def Let_def e3_def split: prod.splits if_splits)
  ultimately show ?thesis by auto
qed

lemma match_digit_le:
  assumes "c_isdigit (chr_at date 0)" "match_digit C date tm offset g = (n, r)"
  shows "n \<le> length date"
proof -
  obtain num e where s: "strtoul date = (num, e)" by fastforce
  have e: "e \<le> length date" using s by (rule strtoul_le)
  have multi: "n \<le> length date"
    if "c_isdigit (chr_at date (e + 1))" "match_multi_number C num c date e tm = (n, tm')" for c n tm'
    using match_multi_number_le [OF _ that(2)] c_isdigit_less [OF that(1)] by simp
  have "date \<noteq> []" using assms(1) by auto
  then have "Suc (length (takeWhile c_isdigit (drop 1 date))) \<le> length date"
    using length_takeWhile_le [of c_isdigit "drop 1 date"] by (cases date) auto
  then show ?thesis using assms(2) s e multi
    by (auto simp: match_digit_def Let_def split: option.splits prod.splits if_splits)
qed

lemma match_tz_le:
  assumes "c_isdigit (chr_at date 1)" "match_tz date offp = (n, r)"
  shows "n \<le> length date"
proof -
  obtain v k where s: "strtoul (drop 1 date) = (v, k)" by fastforce
  have len: "1 < length date" using assms(1) by (rule c_isdigit_less)
  then have k: "1 + k \<le> length date" using strtoul_le [OF s] by simp
  obtain v2 k2 where s2: "strtoul (drop (k + 2) date) = (v2, k2)" by fastforce
  have colon: "k + 2 + k2 \<le> length date" if "chr_at date (1 + k) = CHR '':''"
  proof -
    have "1 + k < length date" using that by (intro chr_at_not_nul) simp
    then show ?thesis using strtoul_le [OF s2] by simp
  qed
  have "n = 1 + k \<or> (chr_at date (1 + k) = CHR '':'' \<and> n = k + 2 + k2)"
    using assms(2) s s2 unfolding match_tz_def Let_def by (auto simp: numeral_3_eq_3 split: if_splits)
  then show ?thesis using k colon by auto
qed

lemma match_one_le:
  assumes "date \<noteq> []" "match_one C date tm offset g = (n, r)"
  shows "n \<le> length date"
proof -
  have "1 \<le> length date" using assms(1) by (cases date) auto
  then show ?thesis
    using assms by (auto simp: match_one_def Let_def split: prod.splits if_splits
        dest: match_alpha_le match_digit_le match_tz_le [unfolded One_nat_def])
qed

lemma approxidate_digit_le:
  assumes "c_isdigit (chr_at date 0)" "approxidate_digit C date tm num = (n, r)"
  shows "n \<le> length date"
proof -
  obtain number e where s: "strtoul date = (number, e)" by fastforce
  have multi: "n \<le> length date"
    if "c_isdigit (chr_at date (e + 1))" "match_multi_number C number c date e tm = (n, tm')" for c n tm'
    using match_multi_number_le [OF _ that(2)] c_isdigit_less [OF that(1)] by simp
  then show ?thesis using assms(2) s strtoul_le [OF s]
    by (auto simp: approxidate_digit_def Let_def split: prod.splits if_splits)
qed

lemma approxidate_one_le:
  assumes "date \<noteq> []" "approxidate_one C date tm now num touched = (n, r)"
  shows "n \<le> length date"
proof -
  have "1 \<le> length date" using assms(1) by (cases date) auto
  then show ?thesis
    using assms by (auto simp: approxidate_one_def approxidate_alpha_def Let_def skip_alpha_le
        split: prod.splits if_splits dest: approxidate_digit_le)
qed

text \<open>A clock that stands at 1970 in UTC, with a \<open>mktime\<close> for normalised dates.\<close>

definition epoch_clock :: clock where
  "epoch_clock = \<lparr>c_time = 0, c_mktime = (\<lambda>tm. (tm_to_time_t tm, tm)), c_localtime = gmtime_r\<rparr>"

text \<open>
  C35: every step of the exact parser and of the approximate parser on a non-empty rest of the
  string consumes at least one character and at most all of it, so both loops end and no
  pointer passes the terminator.
\<close>

theorem date_matchers_in_bounds:
  assumes "date \<noteq> []"
  shows "0 < fst (match_one C date tm offset g) \<and> fst (match_one C date tm offset g) \<le> length date
    \<and> 0 < fst (approxidate_one C date tm now num touched)
    \<and> fst (approxidate_one C date tm now num touched) \<le> length date"
proof -
  obtain n r where "match_one C date tm offset g = (n, r)" by (rule prod.exhaust)
  moreover obtain n' r' where "approxidate_one C date tm now num touched = (n', r')" by (rule prod.exhaust)
  ultimately show ?thesis
    using match_one_pos match_one_le [OF assms] approxidate_one_pos approxidate_one_le [OF assms]
    by (metis fst_conv)
qed

theorem date_matchers_in_bounds_witness:
  "''2 days'' \<noteq> [] \<and> 0 < fst (match_one epoch_clock ''2 days'' tm_unset (-1) False)
   \<and> fst (match_one epoch_clock ''2 days'' tm_unset (-1) False) \<le> 6"
  using date_matchers_in_bounds [of "''2 days''" epoch_clock tm_unset "-1" False tm_zero 0 False]
  by simp

end
