(* ===== verification/Approxidate_Spec.thy ===== *)
theory Approxidate_Spec
  imports Approxidate_Bounds
begin

text \<open>
  Properties of the date parser: the calendar, which fields count as unset, time zones,
  object-header dates, complete dates in the ISO form, and relative times.
\<close>

subsection \<open>The calendar\<close>

lemma gmtime_roundtrip_tm:
  assumes "0 \<le> t" "t < 4102444800"
  shows "\<exists>tm. gmtime_r t = Some tm \<and> tm_to_time_t tm = t"
proof -
  obtain tm where tm: "gmtime_r t = Some tm" "civil_time tm = t" "70 \<le> tm_year tm" "tm_year tm < 200"
    "0 \<le> tm_mon tm" "tm_mon tm < 12" "1 \<le> tm_mday tm"
    "tm_mday tm \<le> month_days (tm_year tm + 1900) (nat (tm_mon tm))"
    "0 \<le> tm_hour tm" "tm_hour tm < 24" "0 \<le> tm_min tm" "tm_min tm < 60" "0 \<le> tm_sec tm" "tm_sec tm < 60"
    using gmtime_r_civil [OF assms] by blast
  have "tm_ints tm"
    using tm(7-14) month_days_bounds(2) [of "tm_year tm + 1900" "nat (tm_mon tm)"] by (auto simp: tm_ints_def)
  with tm show ?thesis using tm_to_time_t_civil [of tm] by auto
qed

text \<open>
  C27: for every year from 1970 to 2099, \<open>tm_to_time_t\<close> counts exactly the seconds since 1970 in
  the Gregorian calendar: the lengths of the years and months before the date, the day of the
  month and the time of the day.
\<close>

theorem tm_to_time_t_gregorian:
  assumes "70 \<le> tm_year tm" "tm_year tm < 200" "0 \<le> tm_mon tm" "tm_mon tm < 12"
    "0 \<le> tm_hour tm" "0 \<le> tm_min tm" "0 \<le> tm_sec tm" "tm_ints tm"
  shows "tm_to_time_t tm =
    ((\<Sum>y\<in>{1970..<tm_year tm + 1900}. year_days y)
      + (\<Sum>m<nat (tm_mon tm). month_days (tm_year tm + 1900) m) + (tm_mday tm - 1)) * 86400
    + tm_hour tm * 3600 + tm_min tm * 60 + tm_sec tm"
  using tm_to_time_t_civil [OF assms]
  by (simp add: civil_time_def civil_days_def days_to_year_def days_to_month_def)

definition tm_y2k_march :: tm where
  "tm_y2k_march = \<lparr>tm_sec = 7, tm_min = 6, tm_hour = 5, tm_mday = 1, tm_mon = 2, tm_year = 100,
     tm_wday = 0, tm_yday = 0, tm_isdst = 0\<rparr>"

theorem tm_to_time_t_gregorian_witness:
  "tm_ints tm_y2k_march \<and> tm_to_time_t tm_y2k_march = 951887167
   \<and> tm_to_time_t tm_y2k_march =
      ((\<Sum>y\<in>{1970..<2000}. year_days y) + (\<Sum>m<2. month_days 2000 m)) * 86400 + 5 * 3600 + 6 * 60 + 7"
proof -
  have "tm_ints tm_y2k_march" by (simp add: tm_ints_def tm_y2k_march_def)
  moreover have "tm_to_time_t tm_y2k_march = 951887167"
    by (simp add: tm_to_time_t_def tm_y2k_march_def mdays_def to_s64_def to_u64_def sdiv_nonneg)
  ultimately show ?thesis
    using tm_to_time_t_gregorian [of tm_y2k_march] by (simp add: tm_y2k_march_def)
qed

text \<open>
  \<open>tm_to_time_t\<close> fails with -1 exactly on what it cannot represent: a year outside 1970 to
  2099, a month outside 0 to 11, or an hour, minute or second that is negative (unset).
\<close>

theorem tm_to_time_t_fails:
  assumes "tm_year tm < 70 \<or> 200 \<le> tm_year tm \<or> tm_mon tm < 0 \<or> 12 \<le> tm_mon tm
    \<or> tm_hour tm < 0 \<or> tm_min tm < 0 \<or> tm_sec tm < 0"
  shows "tm_to_time_t tm = -1"
  using assms by (auto simp: tm_to_time_t_def Let_def)

theorem tm_to_time_t_fails_witness: "tm_hour tm_unset < 0 \<and> tm_to_time_t tm_unset = -1"
  using tm_to_time_t_fails [of tm_unset] by (simp add: tm_unset_def)

text \<open>
  \<open>gmtime_r\<close> and \<open>tm_to_time_t\<close> are inverse: every time from 1970 to the end of 2099 has a
  broken-down form, which \<open>tm_to_time_t\<close> takes back to it.
\<close>

theorem gmtime_roundtrip:
  assumes "0 \<le> t" "t < 4102444800"
  shows "\<exists>tm. gmtime_r t = Some tm \<and> tm_to_time_t tm = t"
  using gmtime_roundtrip_tm [OF assms] .

theorem gmtime_roundtrip_witness:
  "(0::int) \<le> 1700000000 \<and> (1700000000::int) < 4102444800
   \<and> (\<exists>tm. gmtime_r 1700000000 = Some tm \<and> tm_to_time_t tm = 1700000000)"
  using gmtime_roundtrip [of 1700000000] by simp

text \<open>
  \<open>nodate\<close>, which the code computes as the sign of a bitwise conjunction, holds exactly
  when none of the six fields of the date and time has been set.
\<close>

theorem nodate_iff:
  "nodate tm \<longleftrightarrow> tm_year tm < 0 \<and> tm_mon tm < 0 \<and> tm_mday tm < 0
     \<and> tm_hour tm < 0 \<and> tm_min tm < 0 \<and> tm_sec tm < 0"
  unfolding nodate_def by (simp add: and_negative_int_iff)

subsection \<open>Time zones and object headers\<close>

definition sign_char :: "bool \<Rightarrow> char" where
  "sign_char neg = (if neg then CHR ''-'' else CHR ''+'')"

definition tz_string :: "bool \<Rightarrow> nat \<Rightarrow> nat \<Rightarrow> string" where
  "tz_string neg hh mm = sign_char neg # dec_fix 4 (100 * hh + mm)"

definition tz_minutes :: "bool \<Rightarrow> nat \<Rightarrow> nat \<Rightarrow> int" where
  "tz_minutes neg hh mm = (if neg then - int (60 * hh + mm) else int (60 * hh + mm))"

lemma hhmm:
  assumes "mm < 60" "hh < 24"
  shows "int (100 * hh + mm) sdiv 100 = int hh" "int (100 * hh + mm) smod 100 = int mm"
    "100 * hh + mm < 10 ^ 4" "to_s32 (int (100 * hh + mm)) = int (100 * hh + mm)"
  using assms by (simp_all add: sdiv_nonneg smod_mod_positive to_s32_id)

lemma match_tz_hhmm:
  assumes "hh < 24" "mm < 60" "\<not> c_isdigit (chr_at rest 0)"
  shows "match_tz (tz_string neg hh mm @ rest) offp = (5, tz_minutes neg hh mm)"
proof -
  note h = hhmm [OF assms(2,1)]
  have "strtoul (dec_fix 4 (100 * hh + mm) @ rest) = (int (100 * hh + mm), 4)"
    using strtoul_dec_fix [OF _ h(3) _ assms(3)] h(3) by simp
  then show ?thesis
    using h assms(1,2) unfolding match_tz_def tz_string_def
    by (simp add: Let_def tz_minutes_def sign_char_def del: dec_fix.simps of_nat_add of_nat_mult)
qed

text \<open>
  A time zone in the form of a sign and four digits is read back as its offset in minutes,
  for every hour below 24 and minute below 60, and exactly its five characters are consumed.
\<close>

theorem match_tz_roundtrip:
  assumes "hh < 24" "mm < 60" "\<not> c_isdigit (chr_at rest 0)"
  shows "match_tz (tz_string neg hh mm @ rest) offp = (5, tz_minutes neg hh mm)"
  using assms by (rule match_tz_hhmm)

theorem match_tz_roundtrip_witness:
  "tz_string True 3 30 = ''-0330'' \<and> match_tz ''-0330'' (-1) = (5, -210)"
proof -
  have "tz_string True 3 30 = ''-0330''" by code_simp
  then show ?thesis using match_tz_roundtrip [of 3 30 "[]" True "-1"] by (simp add: tz_minutes_def)
qed

lemma strtol_hhmm:
  assumes "hh < 24" "mm < 60" "rest = [] \<or> chr_at rest 0 = CHR 0x0A"
  shows "strtol (dec_fix 4 (100 * hh + mm) @ rest) = (int (100 * hh + mm), 4)"
proof -
  have "\<not> c_isdigit (chr_at rest 0)" using assms(3) by (auto simp: c_isdigit_def chr_code_def)
  then show ?thesis using strtol_dec_fix [OF _ hhmm(3) [OF assms(2,1)]] hhmm(3) [OF assms(2,1)] by simp
qed

definition object_header_date :: "nat \<Rightarrow> nat \<Rightarrow> bool \<Rightarrow> nat \<Rightarrow> nat \<Rightarrow> string" where
  "object_header_date k stamp neg hh mm = dec_fix k stamp @ '' '' @ tz_string neg hh mm"

lemma match_object_header_date_result:
  assumes "0 < k" "stamp < 10 ^ k" "stamp < 2 ^ 63" "hh < 24" "mm < 60"
  shows "match_object_header_date (object_header_date k stamp neg hh mm) =
    (if chr_at (dec_fix k stamp) 0 = CHR ''9'' then None
     else Some (int stamp, tz_minutes neg hh mm))"
proof -
  let ?tz = "tz_string neg hh mm"
  let ?s = "dec_fix k stamp @ CHR '' '' # ?tz"
  have len: "length ?tz = 5" by (simp add: tz_string_def)
  have ul: "strtoul ?s = (int stamp, k)"
    using strtoul_dec_fix [OF assms(1,2), of "CHR '' '' # ?tz"] assms(3) by (simp add: c_isdigit_def chr_code_def)
  have l: "strtol (drop (k + 2) ?s) = (int (100 * hh + mm), 4)"
    using strtol_hhmm [OF assms(4,5), of "[]"] by (simp add: tz_string_def del: dec_fix.simps)
  have d: "c_isdigit (chr_at (dec_fix k stamp) 0)" using assms(1) by (rule chr_at_dec_fix)
  then have first: "chr_code (chr_at ?s 0) < chr_code CHR ''0'' \<or> chr_code CHR ''9'' \<le> chr_code (chr_at ?s 0)
      \<longleftrightarrow> chr_at (dec_fix k stamp) 0 = CHR ''9''"
    using assms(1) chr_code_eq [of "chr_at (dec_fix k stamp) 0" "CHR ''9''"] by (auto simp: c_isdigit_def)
  have at: "chr_at ?s k = CHR '' ''" "chr_at ?s (k + 1) = sign_char neg" "chr_at ?s (k + 2 + 4) = CHR 0x00"
    by (simp_all add: tz_string_def chr_at_def [of _ 6] len del: dec_fix.simps)
  have stamp: "int stamp \<noteq> ULONG_MAX" "to_s64 (int stamp) = int stamp"
    using assms(3) by (auto simp: ULONG_MAX_def intro: to_s64_id)
  show ?thesis
    unfolding match_object_header_date_def object_header_date_def append_Cons append_Nil first ul
    using at stamp hhmm [OF assms(5,4)] l
    by (simp add: Let_def tz_minutes_def sign_char_def del: dec_fix.simps of_nat_add of_nat_mult)
qed

text \<open>
  A raw date (an at sign, a decimal time stamp, a space and a zone) that does not begin with
  the digit 9 is read back as exactly its time stamp and offset.
\<close>

theorem parse_raw_date_roundtrip:
  assumes "0 < k" "stamp < 10 ^ k" "stamp < 2 ^ 63" "hh < 24" "mm < 60"
    "chr_at (dec_fix k stamp) 0 \<noteq> CHR ''9''"
  shows "parse_date_basic C (CHR ''@'' # object_header_date k stamp neg hh mm) =
    Some (int stamp, tz_minutes neg hh mm)"
  using match_object_header_date_result [OF assms(1-5), of neg] assms(6)
  by (simp add: parse_date_basic_def)

theorem parse_raw_date_roundtrip_witness:
  "object_header_date 4 1234 False 1 0 = ''1234 +0100''
   \<and> parse_date_basic epoch_clock ''@1234 +0100'' = Some (1234, 60)"
proof -
  have s: "object_header_date 4 1234 False 1 0 = ''1234 +0100''" "chr_at (dec_fix 4 1234) 0 = CHR ''1''"
    by code_simp+
  show ?thesis
    using parse_raw_date_roundtrip [of 4 1234 1 0 epoch_clock False] s by (simp add: tz_minutes_def)
qed

text \<open>
  The test of the first character excludes the digit 9: every time stamp that begins with
  it is not recognised as a raw date, whatever the rest.
\<close>

theorem raw_date_rejects_leading_9:
  assumes "0 < k" "stamp < 10 ^ k" "stamp < 2 ^ 63" "hh < 24" "mm < 60"
    "chr_at (dec_fix k stamp) 0 = CHR ''9''"
  shows "match_object_header_date (object_header_date k stamp neg hh mm) = None"
  using match_object_header_date_result [OF assms(1-5), of neg] assms(6) by simp

theorem raw_date_rejects_leading_9_witness:
  "object_header_date 3 946 False 0 0 = ''946 +0000'' \<and> match_object_header_date ''946 +0000'' = None"
proof -
  have s: "object_header_date 3 946 False 0 0 = ''946 +0000''" "chr_at (dec_fix 3 946) 0 = CHR ''9''"
    by code_simp+
  show ?thesis using raw_date_rejects_leading_9 [of 3 946 0 0 False] s by simp
qed

subsection \<open>Complete dates\<close>

lemma to_s32_nat: "n < 2 ^ 31 \<Longrightarrow> to_s32 (int n) = int n"
  by (intro to_s32_id) auto

lemma is_date_accepts:
  assumes "0 < mo" "mo < 13" "0 < d" "d < 32" "1970 \<le> y" "y < 2100" "tm_hour tm < 0" "0 \<le> now"
  shows "is_date y mo d now_tm now tm = (True, tm\<lparr>tm_mon := mo - 1, tm_mday := d, tm_year := y - 1900\<rparr>)"
proof -
  have "tm_to_time_t (tm\<lparr>tm_mon := mo - 1, tm_mday := d, tm_year := y - 1900\<rparr>) = -1"
    using assms(7) by (simp add: tm_to_time_t_def Let_def)
  then show ?thesis using assms by (cases now_tm) (simp_all add: is_date_def Let_def)
qed

definition iso_date :: "nat \<Rightarrow> nat \<Rightarrow> nat \<Rightarrow> string" where
  "iso_date y mo d = dec_fix 4 y @ ''-'' @ dec_fix 2 mo @ ''-'' @ dec_fix 2 d"

definition iso_time :: "nat \<Rightarrow> nat \<Rightarrow> nat \<Rightarrow> string" where
  "iso_time h m s = dec_fix 2 h @ '':'' @ dec_fix 2 m @ '':'' @ dec_fix 2 s"

lemma sep_not_digit [simp]:
  "\<not> c_isdigit CHR ''-''" "\<not> c_isdigit CHR '':''" "\<not> c_isdigit CHR '' ''" "\<not> c_isdigit CHR ''+''"
  "\<not> c_isalpha CHR ''-''" "\<not> c_isalpha CHR '':''" "\<not> c_isalpha CHR '' ''" "\<not> c_isalpha CHR ''+''"
  by (simp_all add: c_isdigit_def c_isalpha_def c_isupper_def c_islower_def chr_code_def)

lemma digit_not_alpha: "c_isdigit c \<Longrightarrow> \<not> c_isalpha c"
  by (auto simp: c_isdigit_def c_isalpha_def c_isupper_def c_islower_def chr_code_def)

lemma match_digit_iso_date:
  assumes "1970 \<le> y" "y < 2100" "0 < mo" "mo < 13" "0 < d" "d < 32" "\<not> c_isdigit (chr_at rest 0)"
    "chr_at rest 0 \<noteq> CHR ''-''" "tm_hour tm < 0" "0 \<le> c_time C"
  shows "match_digit C (iso_date y mo d @ rest) tm offset g =
    (10, tm\<lparr>tm_mon := int mo - 1, tm_mday := int d, tm_year := int y - 1900\<rparr>, offset, g)"
proof -
  define str where "str = iso_date y mo d @ rest"
  have y: "strtoul str = (int y, 4)"
    using strtoul_dec_fix [of 4 y "''-'' @ dec_fix 2 mo @ ''-'' @ dec_fix 2 d @ rest"] assms(2)
    by (simp add: str_def iso_date_def del: dec_fix.simps)
  have mo: "strtol (drop 5 str) = (int mo, 2)"
    using strtol_dec_fix [of 2 mo "''-'' @ dec_fix 2 d @ rest"] assms(4)
    by (simp add: str_def iso_date_def del: dec_fix.simps)
  have d: "strtol (drop 8 str) = (int d, 2)"
    using strtol_dec_fix [of 2 d rest] assms(6,7) by (simp add: str_def iso_date_def del: dec_fix.simps)
  have at: "chr_at str 4 = CHR ''-''" "chr_at str 7 = CHR ''-''" "c_isdigit (chr_at str 5)" "c_isdigit (chr_at str 8)"
    using chr_at_dec_fix [of 0 2 mo] chr_at_dec_fix [of 0 2 d] by (simp_all add: str_def iso_date_def del: dec_fix.simps)
  have multi: "match_multi_number C (int y) CHR ''-'' str 4 tm =
      (10, tm\<lparr>tm_mon := int mo - 1, tm_mday := int d, tm_year := int y - 1900\<rparr>)"
    using mo d at assms(1-6) is_date_accepts [of "int mo" "int d" "int y" tm "c_time C" "gmtime_r (c_time C)"] assms(9,10)
    by (simp add: match_multi_number_def Let_def to_s32_nat)
  show ?thesis
    unfolding str_def [symmetric] using y at multi assms(2) by (simp add: match_digit_def Let_def is_sep_def)
qed

lemma match_digit_iso_time:
  assumes "h < 25" "m < 60" "s \<le> 60" "\<not> c_isdigit (chr_at rest 0)" "chr_at rest 0 \<noteq> CHR '':''"
  shows "match_digit C (iso_time h m s @ rest) tm offset g =
    (8, tm\<lparr>tm_hour := int h, tm_min := int m, tm_sec := int s\<rparr>, offset, g)"
proof -
  define str where "str = iso_time h m s @ rest"
  have h: "strtoul str = (int h, 2)"
    using strtoul_dec_fix [of 2 h "'':'' @ dec_fix 2 m @ '':'' @ dec_fix 2 s @ rest"] assms(1)
    by (simp add: str_def iso_time_def del: dec_fix.simps)
  have m: "strtol (drop 3 str) = (int m, 2)"
    using strtol_dec_fix [of 2 m "'':'' @ dec_fix 2 s @ rest"] assms(2)
    by (simp add: str_def iso_time_def del: dec_fix.simps)
  have s: "strtol (drop 6 str) = (int s, 2)"
    using strtol_dec_fix [of 2 s rest] assms(3,4) by (simp add: str_def iso_time_def del: dec_fix.simps)
  have at: "chr_at str 2 = CHR '':''" "chr_at str 5 = CHR '':''" "c_isdigit (chr_at str 3)" "c_isdigit (chr_at str 6)"
    using chr_at_dec_fix [of 0 2 m] chr_at_dec_fix [of 0 2 s] by (simp_all add: str_def iso_time_def del: dec_fix.simps)
  have multi: "match_multi_number C (int h) CHR '':'' str 2 tm =
      (8, tm\<lparr>tm_hour := int h, tm_min := int m, tm_sec := int s\<rparr>)"
    using m s at assms(1-3) by (simp add: match_multi_number_def Let_def)
  show ?thesis
    unfolding str_def [symmetric] using h at multi assms(1) by (simp add: match_digit_def Let_def is_sep_def)
qed

lemma parse_date_loop_step:
  assumes "date \<noteq> []" "chr_at date 0 \<noteq> CHR 0x0A" "match_one C date tm offset g = (n, tm', offset', g')"
  shows "parse_date_loop C date tm offset g = parse_date_loop C (drop n date) tm' offset' g'"
  using assms by (subst parse_date_loop.simps) simp

lemma match_one_digit:
  assumes "c_isdigit (chr_at date 0)" "match_digit C date tm offset g = (n, r)" "0 < n"
  shows "match_one C date tm offset g = (n, r)"
  using assms digit_not_alpha by (cases r) (simp add: match_one_def Let_def)

lemma match_one_space: "match_one C (CHR '' '' # date) tm offset g = (1, tm, offset, g)"
  by (simp add: match_one_def Let_def)

lemma chr_at_iso:
  "c_isdigit (chr_at (iso_date y mo d @ rest) 0)" "c_isdigit (chr_at (iso_time h m s @ rest) 0)"
  using chr_at_dec_fix [of 0 4 y] chr_at_dec_fix [of 0 2 h]
  by (simp_all add: iso_date_def iso_time_def del: dec_fix.simps)

lemma length_iso [simp]: "length (iso_date y mo d) = 10" "length (iso_time h m s) = 8"
  by (simp_all add: iso_date_def iso_time_def del: dec_fix.simps)

lemma digit_not_newline: "c_isdigit c \<Longrightarrow> c \<noteq> CHR 0x0A \<and> c \<noteq> CHR ''@''"
  by (auto simp: c_isdigit_def chr_code_def)

lemma match_one_tz:
  assumes "hh < 24" "mm < 60"
  shows "match_one C (tz_string neg hh mm) tm offset g = (5, tm, tz_minutes neg hh mm, g)"
proof -
  have "c_isdigit (chr_at (tz_string neg hh mm) 1)" "chr_at (tz_string neg hh mm) 0 = sign_char neg"
    using chr_at_dec_fix [of 0 4 "100 * hh + mm"] by (simp_all add: tz_string_def del: dec_fix.simps)
  then show ?thesis
    using match_tz_hhmm [OF assms, of "[]" neg offset]
    by (cases neg) (simp_all add: match_one_def Let_def sign_char_def)
qed

definition iso_datetime where
  "iso_datetime y mo d h m s neg hh mm =
     iso_date y mo d @ '' '' @ iso_time h m s @ '' '' @ tz_string neg hh mm"

definition iso_tm :: "nat \<Rightarrow> nat \<Rightarrow> nat \<Rightarrow> nat \<Rightarrow> nat \<Rightarrow> nat \<Rightarrow> tm" where
  "iso_tm y mo d h m s = tm_unset\<lparr>tm_mon := int mo - 1, tm_mday := int d, tm_year := int y - 1900,
     tm_hour := int h, tm_min := int m, tm_sec := int s\<rparr>"

lemma parse_loop_iso:
  assumes "1970 \<le> y" "y < 2100" "0 < mo" "mo < 13" "0 < d" "d < 32" "h < 25" "m < 60" "s \<le> 60"
    "hh < 24" "mm < 60" "0 \<le> c_time C"
  shows "parse_date_loop C (iso_datetime y mo d h m s neg hh mm) tm_unset (-1) False =
    (iso_tm y mo d h m s, tz_minutes neg hh mm, False)"
proof -
  let ?tz = "tz_string neg hh mm" and ?tm1 = "tm_unset\<lparr>tm_mon := int mo - 1, tm_mday := int d, tm_year := int y - 1900\<rparr>"
  let ?t = "iso_time h m s @ CHR '' '' # ?tz"
  have u: "tm_hour tm_unset < 0" by (simp add: tm_unset_def)
  have "parse_date_loop C (iso_datetime y mo d h m s neg hh mm) tm_unset (-1) False
      = parse_date_loop C (drop 10 (iso_date y mo d @ CHR '' '' # ?t)) ?tm1 (-1) False"
    unfolding iso_datetime_def append_Cons append_Nil
    using match_one_digit [OF chr_at_iso(1) match_digit_iso_date [OF assms(1-6) _ _ u assms(12)]]
      digit_not_newline [OF chr_at_iso(1)]
    by (intro parse_date_loop_step) (auto simp: iso_date_def simp del: dec_fix.simps)
  also have "\<dots> = parse_date_loop C ?t ?tm1 (-1) False"
    using parse_date_loop_step [OF _ _ match_one_space] by simp
  also have "\<dots> = parse_date_loop C (drop 8 ?t) (iso_tm y mo d h m s) (-1) False"
    unfolding iso_tm_def
    using match_one_digit [OF chr_at_iso(2) match_digit_iso_time [OF assms(7-9)]] digit_not_newline [OF chr_at_iso(2)]
    by (intro parse_date_loop_step) (auto simp: iso_time_def simp del: dec_fix.simps)
  also have "\<dots> = parse_date_loop C ?tz (iso_tm y mo d h m s) (-1) False"
    using parse_date_loop_step [OF _ _ match_one_space] by simp
  also have "\<dots> = parse_date_loop C [] (iso_tm y mo d h m s) (tz_minutes neg hh mm) False"
    using parse_date_loop_step [OF _ _ match_one_tz [OF assms(10,11)]]
    by (simp add: tz_string_def sign_char_def del: dec_fix.simps)
  also have "\<dots> = (iso_tm y mo d h m s, tz_minutes neg hh mm, False)" by (simp add: parse_date_loop.simps)
  finally show ?thesis .
qed

lemma parse_date_basic_iso:
  assumes "1970 \<le> y" "y < 2100" "0 < mo" "mo < 13" "0 < d" "d < 32" "h < 25" "m < 60" "s \<le> 60"
    "hh < 24" "mm < 60" "0 \<le> c_time C" "tz_minutes neg hh mm \<noteq> -1"
  shows "parse_date_basic C (iso_datetime y mo d h m s neg hh mm) =
    Some (civil_days (int y) (mo - 1) (int d) * 86400 + int h * 3600 + int m * 60 + int s
            - 60 * tz_minutes neg hh mm, tz_minutes neg hh mm)"
proof -
  let ?tm = "iso_tm y mo d h m s"
  have tm: "tm_year ?tm = int y - 1900" "tm_mon ?tm = int mo - 1" "tm_mday ?tm = int d" "tm_hour ?tm = int h"
    "tm_min ?tm = int m" "tm_sec ?tm = int s" by (simp_all add: iso_tm_def)
  have t: "tm_to_time_t ?tm = civil_time ?tm"
    using assms(1-9) by (intro tm_to_time_t_civil) (simp_all add: tm tm_ints_def)
  have "nat (int mo - 1) = mo - 1" using assms(3) by simp
  then have c: "civil_time ?tm = civil_days (int y) (mo - 1) (int d) * 86400 + int h * 3600 + int m * 60 + int s"
    by (simp add: civil_time_def tm)
  have "0 \<le> days_to_year 1970 (int y)" using assms(1) by (intro days_to_year_mono) simp
  then have "0 \<le> civil_days (int y) (mo - 1) (int d)"
    using assms(5) days_to_month_bounds(1) [of "int y" "mo - 1"] by (simp add: civil_days_def)
  then have "civil_time ?tm \<noteq> -1" unfolding c by simp
  moreover have "chr_at (iso_datetime y mo d h m s neg hh mm) 0 \<noteq> CHR ''@''"
    using digit_not_newline [OF chr_at_iso(1)] by (simp add: iso_datetime_def)
  ultimately show ?thesis
    using parse_loop_iso [OF assms(1-12), of neg] assms(13) t c
    by (simp add: parse_date_basic_def parse_date_finish_def Let_def)
qed

text \<open>
  C7: a complete date and time in the ISO form, from 1970 to 2099, is parsed exactly: the result
  is the Gregorian count of seconds less the zone's offset, together with that offset.  (A zone
  of minus one minute is excluded: the code uses -1 for an offset not seen.)
\<close>

theorem parse_iso_date:
  assumes "1970 \<le> y" "y < 2100" "0 < mo" "mo < 13" "0 < d" "d < 32" "h < 25" "m < 60" "s \<le> 60"
    "hh < 24" "mm < 60" "0 \<le> c_time C" "tz_minutes neg hh mm \<noteq> -1"
  shows "parse_date_basic C (iso_datetime y mo d h m s neg hh mm) =
    Some (civil_days (int y) (mo - 1) (int d) * 86400 + int h * 3600 + int m * 60 + int s
            - 60 * tz_minutes neg hh mm, tz_minutes neg hh mm)"
  using assms by (rule parse_date_basic_iso)

theorem parse_iso_date_witness:
  "iso_datetime 2023 1 2 3 4 5 False 1 0 = ''2023-01-02 03:04:05 +0100''
   \<and> parse_date_basic epoch_clock ''2023-01-02 03:04:05 +0100'' =
      Some (civil_days 2023 0 2 * 86400 + 3 * 3600 + 4 * 60 + 5 - 3600, 60)"
proof -
  have "iso_datetime 2023 1 2 3 4 5 False 1 0 = ''2023-01-02 03:04:05 +0100''" by code_simp
  then show ?thesis
    using parse_iso_date [of 2023 1 2 3 4 5 1 0 epoch_clock False]
    by (simp add: tz_minutes_def epoch_clock_def)
qed

text \<open>
  The check against dates more than ten days in the future has no effect while the time of
  the day is unset: every date from 1970 to 2099 is then accepted, whatever the clock says.
\<close>

theorem is_date_accepts_future:
  assumes "0 < mo" "mo < 13" "0 < d" "d < 32" "1970 \<le> y" "y < 2100" "tm_hour tm < 0" "0 \<le> now"
  shows "is_date y mo d now_tm now tm = (True, tm\<lparr>tm_mon := mo - 1, tm_mday := d, tm_year := y - 1900\<rparr>)"
  using assms by (rule is_date_accepts)

theorem is_date_accepts_future_witness:
  "tm_hour tm_unset < 0 \<and> fst (is_date 2099 12 31 (gmtime_r 0) 0 tm_unset)"
  using is_date_accepts_future [of 12 31 2099 tm_unset 0 "gmtime_r 0"] by (simp add: tm_unset_def)

subsection \<open>Relative times\<close>

text \<open>The local time of \<open>t\<close> exists, has its date fields set, and \<open>mktime\<close> takes it back to \<open>t\<close>.\<close>

definition local_time :: "clock \<Rightarrow> int \<Rightarrow> tm \<Rightarrow> bool" where
  "local_time C t tm \<longleftrightarrow> c_localtime C t = Some tm \<and> fst (c_mktime C tm) = t
     \<and> 0 \<le> tm_mday tm \<and> 0 \<le> tm_mon tm \<and> 0 \<le> tm_year tm"

lemma approxidate_loop_step:
  assumes "date \<noteq> []" "approxidate_one C date tm now num touched = (n, tm', num', touched')"
  shows "approxidate_loop C date tm now num touched = approxidate_loop C (drop n date) tm' now num' touched'"
  using assms by (subst approxidate_loop.simps) simp

lemma approxidate_one_space: "approxidate_one C (CHR '' '' # date) tm now num touched = (1, tm, num, touched)"
  by (simp add: approxidate_one_def Let_def)

lemma fill_tm_local: "local_time C t tm \<Longrightarrow> fill_tm tm now = tm"
  by (simp add: fill_tm_def local_time_def)

lemma fill_tm_now: "fill_tm (now\<lparr>tm_year := -1, tm_mon := -1, tm_mday := -1\<rparr>) now = now"
  by (simp add: fill_tm_def)

lemma update_tm_result:
  assumes "fst (c_mktime C (fill_tm tm now)) = t" "c_localtime C (to_s64 (t - sec)) = Some tm'"
  shows "update_tm C tm now sec = (to_s64 (t - sec), tm')"
proof -
  have "to_s64 (to_u64 t - sec) = to_s64 (t - sec)" using to_s64_to_u64_add [of t "- sec"] by simp
  then show ?thesis using assms by (cases "c_mktime C (fill_tm tm now)") (simp add: update_tm_def Let_def)
qed

lemma approxidate_one_number:
  assumes "0 < k" "n < 10 ^ k" "n < 2 ^ 31" "chr_at (dec_fix k n) 0 \<noteq> CHR ''0''"
  shows "approxidate_one C (dec_fix k n @ CHR '' '' # rest) tm now 0 touched = (k, tm, int n, True)"
proof -
  define str where "str = dec_fix k n @ CHR '' '' # rest"
  have s: "strtoul str = (int n, k)"
    unfolding str_def using strtoul_dec_fix [OF assms(1,2), of "CHR '' '' # rest"] assms(3) by simp
  have at: "c_isdigit (chr_at str 0)" "chr_at str k = CHR '' ''" "chr_at str 0 \<noteq> CHR ''0''"
    using chr_at_dec_fix [OF assms(1), of n] assms(1,4) by (simp_all add: str_def)
  show ?thesis
    unfolding str_def [symmetric] using s at assms(3)
    by (simp add: approxidate_one_def pending_number_def approxidate_digit_def Let_def is_sep_def to_s32_nat)
qed

definition unit_ago :: "nat \<Rightarrow> string" where
  "unit_ago i = fst (typelen ! i) @ '' ago''"

lemma unit_ago_match:
  assumes "i < 5"
  shows "skip_alpha (unit_ago i) = length (fst (typelen ! i))"
    "first_match (\<lambda>nm m. m \<ge> 3) (unit_ago i) month_names 0 = None"
    "first_match (\<lambda>nm m. m = length nm) (unit_ago i) (map fst special) 0 = None"
    "first_match (\<lambda>nm m. m \<ge> length nm - 1) (unit_ago i) (map fst typelen) 0
       = Some (i, length (fst (typelen ! i)))"
    "c_isalpha (chr_at (unit_ago i) 0)"
proof -
  have "\<forall>i\<in>set [0..<5]. skip_alpha (unit_ago i) = length (fst (typelen ! i))
    \<and> first_match (\<lambda>nm m. m \<ge> 3) (unit_ago i) month_names 0 = None
    \<and> first_match (\<lambda>nm m. m = length nm) (unit_ago i) (map fst special) 0 = None
    \<and> first_match (\<lambda>nm m. m \<ge> length nm - 1) (unit_ago i) (map fst typelen) 0 = Some (i, length (fst (typelen ! i)))
    \<and> c_isalpha (chr_at (unit_ago i) 0)"
    by code_simp
  then show "skip_alpha (unit_ago i) = length (fst (typelen ! i))"
    "first_match (\<lambda>nm m. m \<ge> 3) (unit_ago i) month_names 0 = None"
    "first_match (\<lambda>nm m. m = length nm) (unit_ago i) (map fst special) 0 = None"
    "first_match (\<lambda>nm m. m \<ge> length nm - 1) (unit_ago i) (map fst typelen) 0
       = Some (i, length (fst (typelen ! i)))"
    "c_isalpha (chr_at (unit_ago i) 0)"
    using assms by simp_all
qed

lemma approxidate_one_ago: "approxidate_one C ''ago'' tm now 0 True = (3, tm, 0, True)"
proof -
  have "\<not> c_isdigit CHR ''a'' \<and> c_isalpha CHR ''a'' \<and> skip_alpha ''ago'' = 3
    \<and> first_match (\<lambda>nm m. m \<ge> 3) ''ago'' month_names 0 = None
    \<and> first_match (\<lambda>nm m. m = length nm) ''ago'' (map fst special) 0 = None
    \<and> first_match (\<lambda>nm m. m = length nm) ''ago'' (drop 1 number_name) 1 = None
    \<and> match_string ''ago'' ''last'' = 0"
    by code_simp
  then show ?thesis by (simp add: approxidate_one_def approxidate_alpha_def Let_def)
qed

lemma approxidate_one_unit:
  assumes "i < 5" "num \<noteq> 0"
  shows "approxidate_one C (unit_ago i) tm now num touched =
    (length (fst (typelen ! i)), snd (update_tm C tm now (to_u64 (snd (typelen ! i) * to_u64 num))), 0, True)"
  using unit_ago_match [OF assms(1)] assms(2) digit_not_alpha
  by (auto simp: approxidate_one_def approxidate_alpha_def approxidate_unit_def Let_def)

lemma approxidate_loop_ago:
  assumes "0 < k" "n < 10 ^ k" "0 < n" "n < 2 ^ 31" "chr_at (dec_fix k n) 0 \<noteq> CHR ''0''" "i < 5"
  shows "approxidate_loop C (dec_fix k n @ CHR '' '' # unit_ago i) tm now 0 False =
    (snd (update_tm C tm now (to_u64 (snd (typelen ! i) * to_u64 (int n)))), 0, True)"
proof -
  let ?tm = "snd (update_tm C tm now (to_u64 (snd (typelen ! i) * to_u64 (int n))))"
  have "approxidate_loop C (dec_fix k n @ CHR '' '' # unit_ago i) tm now 0 False
      = approxidate_loop C (CHR '' '' # unit_ago i) tm now (int n) True"
    using approxidate_loop_step [OF _ approxidate_one_number [OF assms(1,2,4,5)]] by simp
  also have "\<dots> = approxidate_loop C (unit_ago i) tm now (int n) True"
    using approxidate_loop_step [OF _ approxidate_one_space] by simp
  also have "\<dots> = approxidate_loop C '' ago'' ?tm now 0 True"
    using approxidate_loop_step [OF _ approxidate_one_unit [OF assms(6)]] assms(3) by (simp add: unit_ago_def)
  also have "\<dots> = approxidate_loop C ''ago'' ?tm now 0 True"
    using approxidate_loop_step [OF _ approxidate_one_space] by simp
  also have "\<dots> = approxidate_loop C [] ?tm now 0 True"
    using approxidate_loop_step [OF _ approxidate_one_ago] by simp
  also have "\<dots> = (?tm, 0, True)" by (simp add: approxidate_loop.simps)
  finally show ?thesis .
qed

lemma typelen_bounds: "i < 5 \<Longrightarrow> 0 < snd (typelen ! i) \<and> snd (typelen ! i) \<le> 604800"
proof -
  have "\<forall>i\<in>set [0..<5]. 0 < snd (typelen ! i) \<and> snd (typelen ! i) \<le> 604800" by code_simp
  then show "i < 5 \<Longrightarrow> 0 < snd (typelen ! i) \<and> snd (typelen ! i) \<le> 604800" by simp
qed


lemma gmtime_local_time:
  assumes "0 \<le> t" "t < 4102444800"
  shows "\<exists>tm. local_time epoch_clock t tm"
  using gmtime_r_civil [OF assms] gmtime_roundtrip_tm [OF assms]
  by (auto simp: local_time_def epoch_clock_def)


end
