(* ===== verification/Xh_Util.thy ===== *)
theory Xh_Util
  imports Clib
begin

text \<open>
  Small routines of \<open>xap_helper.h\<close> that the commands share: splitting a buffer of
  zero-terminated arguments, writing a buffer out completely, and prefix tests.
\<close>

text \<open>
  How the process can end inside a request: \<open>ABORT\<close>, \<open>err\<close> and \<open>errx\<close> with what they report.
  \<open>Waiting\<close> is a system call that has not returned yet.
\<close>

datatype abort = BogusArgument | TooManyArgs | NoArgument | OutOfRange | NotHandled string
  | BadOption char string | TooManyOption char | BadSwitch char | NoDirs | Usage string | NoPrefix string
  | KeyMiss string | DuplicateKey string | NullDeref | BadPrefix string | FlockError int
  | OneFdOnly string | CantOpen string | Exited int | NoFd | Waiting | Uncaught | Truncated

text \<open>Error numbers.\<close>

definition EINTR :: int where
  "EINTR = 4"

definition EAGAIN :: int where
  "EAGAIN = 11"

definition ENOSPC :: int where
  "ENOSPC = 28"

definition NUL :: char where
  "NUL = CHR 0x00"

subsection \<open>Splitting a buffer\<close>

text \<open>
  \<open>dst\<close> holds pointers into \<open>buf\<close>, here offsets; the string at an offset ends before the next
  zero byte.
\<close>

definition cstr_from :: "string \<Rightarrow> nat \<Rightarrow> string" where
  "cstr_from buf off = takeWhile (\<lambda>c. c \<noteq> NUL) (drop off buf)"

fun split2argv_loop :: "nat \<Rightarrow> string \<Rightarrow> nat \<Rightarrow> nat \<Rightarrow> nat list \<Rightarrow> abort + nat list" where
  "split2argv_loop limit [] i c dst = Inr dst"
| "split2argv_loop limit (b # rest) i c dst =
     (let (c, dst) = (if b = NUL then (i + 1, dst @ [c]) else (c, dst))
      in if length dst = limit then Inl TooManyArgs
         else split2argv_loop limit rest (i + 1) c dst)"

definition split2argv :: "string \<Rightarrow> nat \<Rightarrow> abort + nat list" where
  "split2argv buf limit =
     (if chr_at buf 0 = NUL \<or> length buf = 0 \<or> chr_at buf (length buf - 1) \<noteq> NUL then Inl BogusArgument
      else
        sum_bind (split2argv_loop limit (drop 1 buf) 1 0 []) (\<lambda>dst.
          if length dst = 0 then Inl NoArgument
          else if length dst \<ge> 2 ^ 63 then Inl TooManyArgs
          else Inr dst))"

definition argv_strings :: "string \<Rightarrow> nat list \<Rightarrow> string list" where
  "argv_strings buf dst = map (cstr_from buf) dst"

definition join_args :: "string list \<Rightarrow> string" where
  "join_args args = concat (map (\<lambda>a. a @ [NUL]) args)"

subsection \<open>Writing and sizes\<close>

text \<open>
  \<open>wr i len\<close> is what the \<open>i\<close>-th call of \<open>write\<close> returns when asked for \<open>len\<close> bytes.  The value is
  whether all was written, the bytes that were, and the number of the next call.  As POSIX has it
  (\<open>write_contract\<close>), \<open>write\<close> never reports more bytes than it was given, so \<open>len -= n\<close> does not wrap.
\<close>

function write_all :: "(nat \<Rightarrow> nat \<Rightarrow> int) \<Rightarrow> nat \<Rightarrow> string \<Rightarrow> nat \<Rightarrow> bool \<times> string \<times> nat" where
  "write_all wr i p len =
     (let n = wr i len
      in if n > 0 then
           let len = len - nat n
           in if len \<noteq> 0 then
                let (ok, out, j) = write_all wr (Suc i) (drop (nat n) p) len
                in (ok, take (nat n) p @ out, j)
              else (True, take (nat n) p, Suc i)
         else (False, [], Suc i))"
  by pat_completeness auto
termination
  by (relation "measure (\<lambda>(wr, i, p, len). len)") auto

declare write_all.simps [simp del]

definition write_contract :: "(nat \<Rightarrow> nat \<Rightarrow> int) \<Rightarrow> bool" where
  "write_contract wr \<longleftrightarrow> (\<forall>i len. wr i len \<le> int len)"

definition off2size :: "int \<Rightarrow> abort + int" where
  "off2size n = (if n < 0 \<or> n > ULONG_MAX then Inl OutOfRange else Inr n)"

definition starts_with :: "string \<Rightarrow> string \<Rightarrow> bool" where
  "starts_with s pfx \<longleftrightarrow> length s \<ge> length pfx \<and> take (length pfx) s = pfx"

subsection \<open>Splitting inverts joining\<close>

lemma split2argv_loop_arg:
  assumes "NUL \<notin> set a" "length dst \<noteq> limit" "length dst + 1 \<noteq> limit"
  shows "split2argv_loop limit (a @ NUL # rest) i c dst =
    split2argv_loop limit rest (i + length a + 1) (i + length a + 1) (dst @ [c])"
  using assms by (induction a arbitrary: i) auto

lemma split2argv_loop_args:
  assumes "\<forall>a\<in>set args. NUL \<notin> set a" "length dst + length args < limit"
  shows "split2argv_loop limit (join_args args) i i dst =
    Inr (dst @ map (\<lambda>k. i + length (join_args (take k args))) [0..<length args])"
  using assms
proof (induction args arbitrary: i dst)
  case (Cons a args)
  let ?i = "i + length a + 1"
  have "split2argv_loop limit (join_args (a # args)) i i dst = split2argv_loop limit (join_args args) ?i ?i (dst @ [i])"
    using split2argv_loop_arg [of a dst limit "join_args args" i i] Cons.prems by (simp add: join_args_def)
  also have "\<dots> = Inr ((dst @ [i]) @ map (\<lambda>k. ?i + length (join_args (take k args))) [0..<length args])"
    using Cons.prems by (intro Cons.IH) auto
  also have "\<dots> = Inr (dst @ map (\<lambda>k. i + length (join_args (take k (a # args)))) [0..<length (a # args)])"
    by (simp add: upt_conv_Cons join_args_def map_Suc_upt [symmetric] o_def del: upt_Suc)
  finally show ?case .
qed (simp add: join_args_def)

lemma cstr_from_join:
  assumes "\<forall>a\<in>set args. NUL \<notin> set a" "k < length args"
  shows "cstr_from (join_args args) (length (join_args (take k args))) = args ! k"
proof -
  have "join_args args = join_args (take k args) @ join_args (drop k args)"
    by (metis append_take_drop_id concat_append join_args_def map_append)
  moreover have "join_args (drop k args) = args ! k @ NUL # join_args (drop (Suc k) args)"
    using assms(2) by (simp add: join_args_def Cons_nth_drop_Suc [symmetric])
  moreover have "takeWhile (\<lambda>c. c \<noteq> NUL) (args ! k @ NUL # r) = args ! k" for r
    using assms by (subst takeWhile_append2) (auto dest: nth_mem)
  ultimately show ?thesis by (simp add: cstr_from_def)
qed

lemma split2argv_join_args:
  assumes "args \<noteq> []" "hd args \<noteq> []" "\<forall>a\<in>set args. NUL \<notin> set a" "length args < limit" "length args < 2 ^ 63"
  shows "\<exists>dst. split2argv (join_args args) limit = Inr dst \<and> argv_strings (join_args args) dst = args"
proof -
  obtain a as where args: "args = a # as" using assms(1) by (cases args) auto
  obtain c cs where a: "a = c # cs" using assms(2) args by (cases a) auto
  let ?dst = "map (\<lambda>k. length (join_args (take k args))) [0..<length args]"
  have c: "c \<noteq> NUL" using assms(3) args a by auto
  have buf: "join_args args = c # cs @ NUL # join_args as" by (simp add: args a join_args_def)
  have "last (join_args args) = NUL" using assms(1) by (induction args) (auto simp: join_args_def)
  then have last: "chr_at (join_args args) (length (join_args args) - 1) = NUL"
    using buf by (simp add: chr_at_def last_conv_nth)
  have "split2argv_loop limit (join_args args) 0 0 [] = Inr ?dst"
    using split2argv_loop_args [OF assms(3), of "[]" limit 0] assms(4) by simp
  moreover have "split2argv_loop limit (join_args args) 0 0 [] = split2argv_loop limit (drop 1 (join_args args)) 1 0 []"
    using c assms(1,4) by (simp add: buf)
  ultimately have "split2argv (join_args args) limit = Inr ?dst"
    using last c assms(1,5) by (simp add: split2argv_def) (simp add: buf)
  moreover have "argv_strings (join_args args) ?dst = args"
    using cstr_from_join [OF assms(3)] by (intro nth_equalityI) (simp_all add: argv_strings_def)
  ultimately show ?thesis by blast
qed

lemma split2argv_loop_less:
  "split2argv_loop limit buf i c dst = Inr r \<Longrightarrow> length dst < limit \<Longrightarrow> length r < limit"
  by (induction limit buf i c dst rule: split2argv_loop.induct)
    (auto simp: Let_def less_Suc_eq_le le_neq_implies_less split: if_splits)

lemma write_contractD: "write_contract wr \<Longrightarrow> nat (wr i len) \<le> len"
  by (simp add: write_contract_def nat_le_iff)

lemma write_all_step:
  assumes "write_contract wr"
  shows "write_all wr i p len =
    (if wr i len \<le> 0 then (False, [], Suc i)
     else if nat (wr i len) = len then (True, take len p, Suc i)
     else let n = nat (wr i len); (ok, out, j) = write_all wr (Suc i) (drop n p) (len - n) in (ok, take n p @ out, j))"
proof -
  have "nat (wr i len) \<le> len" using assms by (rule write_contractD)
  then show ?thesis by (subst write_all.simps) (auto simp: Let_def)
qed

lemma write_all_result:
  assumes "write_contract wr" "0 < len" "len \<le> length p" "write_all wr i p len = (ok, out, j)"
  shows "(if ok then out = take len p else \<exists>k<len. out = take k p)
    \<and> ((\<forall>i n. 0 < n \<longrightarrow> 0 < wr i n) \<longrightarrow> ok)"
  using assms(2-)
proof (induction len arbitrary: i p ok out j rule: less_induct)
  case (less len)
  define n where "n = nat (wr i len)"
  have le: "n \<le> len" using assms(1) unfolding n_def by (rule write_contractD)
  show ?case
  proof (cases "0 < n \<and> n < len")
    case True
    obtain out' where r: "write_all wr (Suc i) (drop n p) (len - n) = (ok, out', j)" "out = take n p @ out'"
      using True less.prems(3) unfolding write_all_step [OF assms(1), of i p len] n_def
      by (simp add: Let_def split: prod.splits)
    have "(if ok then out' = take (len - n) (drop n p) else \<exists>k<len - n. out' = take k (drop n p))
        \<and> ((\<forall>i n. 0 < n \<longrightarrow> 0 < wr i n) \<longrightarrow> ok)"
      using True less.prems(2) r(1) by (intro less.IH) auto
    moreover have "take n p @ take k (drop n p) = take (n + k) p" for k by (simp add: take_add)
    moreover have "\<exists>k<len. out = take k p" if "\<exists>k<len - n. out' = take k (drop n p)"
      using that r(2) True calculation(2) by (metis less_diff_conv add.commute)
    ultimately show ?thesis using r(2) True by (simp split: if_splits)
  next
    case False
    show ?thesis
    proof (cases "wr i len \<le> 0")
      case True
      then have "\<not> ok" "out = []"
        using less.prems(3) unfolding write_all_step [OF assms(1), of i p len] by simp_all
      moreover have "\<not> (\<forall>i n. 0 < n \<longrightarrow> 0 < wr i n)" using True less.prems(1) by (meson not_le)
      ultimately show ?thesis using less.prems(1) by auto
    next
      case pos: False
      then have "nat (wr i len) = len" using False le by (auto simp: n_def)
      then show ?thesis
        using pos less.prems(3) unfolding write_all_step [OF assms(1), of i p len] by simp
    qed
  qed
qed

subsection \<open>Properties\<close>

text \<open>
  Splitting a buffer that joins arguments with zero bytes gives the arguments back, as long
  as there is at least one, the first is not empty, none contains a zero byte and there are
  fewer than the limit.
\<close>

theorem split2argv_join:
  assumes "args \<noteq> []" "hd args \<noteq> []" "\<forall>a\<in>set args. NUL \<notin> set a" "length args < limit" "length args < 2 ^ 63"
  shows "\<exists>dst. split2argv (join_args args) limit = Inr dst \<and> argv_strings (join_args args) dst = args"
  using assms by (rule split2argv_join_args)

theorem split2argv_join_witness:
  "join_args [''mset'', ''-d'', ''x''] = ''mset'' @ [NUL] @ ''-d'' @ [NUL] @ ''x'' @ [NUL]
   \<and> (\<exists>dst. split2argv (join_args [''mset'', ''-d'', ''x'']) 256 = Inr dst
      \<and> argv_strings (join_args [''mset'', ''-d'', ''x'']) dst = [''mset'', ''-d'', ''x''])"
  using split2argv_join [of "[''mset'', ''-d'', ''x'']" 256] by (simp add: join_args_def NUL_def)

text \<open>
  What \<open>split2argv\<close> accepts fits its destination: fewer pointers than the limit are stored,
  and a buffer that is empty, starts with a zero byte or does not end with one is refused.
\<close>

theorem split2argv_bounds:
  assumes "0 < limit"
  shows "(\<forall>dst. split2argv buf limit = Inr dst \<longrightarrow> 0 < length dst \<and> length dst < limit)
    \<and> (buf = [] \<or> hd buf = NUL \<or> last buf \<noteq> NUL \<longrightarrow> split2argv buf limit = Inl BogusArgument)"
proof -
  have "length dst < limit" "0 < length dst" if "split2argv buf limit = Inr dst" for dst
    using that assms split2argv_loop_less [of limit "drop 1 buf" 1 0 "[]"]
    by (auto simp: split2argv_def sum_bind_Inr_iff split: if_splits)
  moreover have "split2argv buf limit = Inl BogusArgument" if "buf = [] \<or> hd buf = NUL \<or> last buf \<noteq> NUL"
    using that by (cases buf) (auto simp: split2argv_def chr_at_def last_conv_nth split: if_splits)
  ultimately show ?thesis by blast
qed

theorem split2argv_bounds_witness:
  "(0::nat) < 256 \<and> split2argv ''mset'' 256 = Inl BogusArgument"
  using split2argv_bounds [of 256 "''mset''"] by (simp add: NUL_def)

text \<open>
  When \<open>write_all\<close> reports success, every byte of the buffer was written once and in order,
  however \<open>write\<close> split it up; when it reports a failure, what was written is a proper prefix; and
  it succeeds as long as \<open>write\<close> makes progress.
\<close>

theorem write_all_writes_all:
  assumes "write_contract wr" "0 < len" "len \<le> length p" "write_all wr i p len = (ok, out, j)"
  shows "(if ok then out = take len p else \<exists>k<len. out = take k p)
    \<and> ((\<forall>i n. 0 < n \<longrightarrow> 0 < wr i n) \<longrightarrow> ok)"
  using write_all_result [OF assms] .

theorem write_all_writes_all_witness:
  "write_all (\<lambda>i n. min 2 (int n)) 0 ''hello'' 5 = (True, ''hello'', 3)
   \<and> (\<forall>i::nat. \<forall>n>0. 0 < min 2 (int n))"
proof -
  have c: "write_contract (\<lambda>i n. min 2 (int n))" by (simp add: write_contract_def)
  obtain ok out j where r: "write_all (\<lambda>i n. min 2 (int n)) 0 ''hello'' 5 = (ok, out, j)" by (metis prod_cases3)
  have "j = 3" using r by (simp add: write_all.simps min_def)
  then show ?thesis using write_all_writes_all [OF c _ _ r] r by simp
qed

end
