(* ===== verification/Xh_Query.thy ===== *)
theory Xh_Query
  imports Xh_Util "HOL-Library.Log_Nat"
begin

text \<open>
  Requests and searches of \<open>xap_helper.h\<close>: \<open>struct req\<close>, the query trees built around the parsed
  query, the retries while a database is being modified.  Xapian itself is a parameter: a record
  of what its calls return, exceptions included.
\<close>

subsection \<open>What Xapian gives\<close>

text \<open>
  The exceptions the code tells apart: three kinds of \<open>Xapian::Error\<close>, and all others.  The handler of a \<open>DatabaseModifiedError\<close> calls \<open>reopen\<close>,
  which may throw itself; the argument is that error.
\<close>

datatype xexn = DatabaseModified "string option" | DocNotFound | XapianError string | StdException string

text \<open>The terms an iterator yields, and what it throws after them, if anything.\<close>

type_synonym termlist = "string list \<times> xexn option"

text \<open>The order of \<open>std::string\<close>, and \<open>TermIterator::skip_to\<close>.\<close>

fun str_less :: "string \<Rightarrow> string \<Rightarrow> bool" where
  "str_less [] t \<longleftrightarrow> t \<noteq> []"
| "str_less (a # s) [] \<longleftrightarrow> False"
| "str_less (a # s) (b # t) \<longleftrightarrow> chr_code a < chr_code b \<or> (a = b \<and> str_less s t)"

definition str_le :: "string \<Rightarrow> string \<Rightarrow> bool" where
  "str_le a b \<longleftrightarrow> a = b \<or> str_less a b"

definition skip_to :: "string \<Rightarrow> string list \<Rightarrow> string list" where
  "skip_to t terms = dropWhile (\<lambda>x. str_less x t) terms"

text \<open>
  Queries.  \<open>Opaque\<close> stands for what the query parser builds itself; a bound is a stored value or
  the serialisation of a \<open>double\<close>.
\<close>

datatype bound = Value string | Serialised int | SerialisedDBL_MIN

datatype query = MatchNothing | Opaque string | Term string
  | OP_FILTER query query | OP_OR query query
  | OP_VALUE_RANGE nat bound bound | OP_VALUE_GE nat bound | OP_VALUE_LE nat bound

text \<open>An integer as a \<open>double\<close>: 53 significant bits, ties to even.\<close>

definition dbl_round :: "nat \<Rightarrow> nat" where
  "dbl_round a =
     (let e = floorlog 2 a - 53; q = a div 2 ^ e; r = a mod 2 ^ e
      in if 2 * r > 2 ^ e \<or> (2 * r = 2 ^ e \<and> odd q) then (q + 1) * 2 ^ e else q * 2 ^ e)"

definition dbl_of_int :: "int \<Rightarrow> int" where
  "dbl_of_int v = sgn v * int (dbl_round (nat \<bar>v\<bar>))"

text \<open>Reading one document: its term lists (the \<open>k\<close>-th that is opened) and its values.\<close>

datatype doc_ret = Doc "nat \<Rightarrow> termlist" "nat \<Rightarrow> xexn + string" | Raise xexn

text \<open>
  The \<open>catch\<close> clauses of the \<open>_iter\<close> functions.  An iteration returns, lets an exception through, or
  ends the process.
\<close>

datatype exc_iter = ITER_OK | ITER_RETRY | ITER_ABORT

datatype iter_ret = Iter exc_iter | Throw xexn | Die abort

fun iter_catch :: "xexn option \<Rightarrow> iter_ret" where
  "iter_catch None = Iter ITER_OK"
| "iter_catch (Some (DatabaseModified None)) = Iter ITER_RETRY"
| "iter_catch (Some (DatabaseModified (Some e))) = Throw (XapianError e)"
| "iter_catch (Some DocNotFound) = Iter ITER_OK"
| "iter_catch (Some (XapianError e)) = Throw (XapianError e)"
| "iter_catch (Some (StdException e)) = Throw (StdException e)"

record mset_doc =
  md_docid :: nat
  md_percent :: nat
  md_rank :: nat
  md_read :: "nat \<Rightarrow> doc_ret"

record mset =
  ms_docs :: "mset_doc list"
  ms_estimated :: nat

datatype ordering = BoolWeight bool | RelevanceThenValue int bool | ValueThenRelevance int bool

record enquire =
  e_order :: ordering
  e_query :: query
  e_collapse :: "nat option"

text \<open>
  The database and parser of a request: \<open>parse_query\<close>, \<open>get_mset\<close> (at its \<open>k\<close>-th call), the
  metadata flag, and the terms of the first document with a \<open>P\<close> term (none if it has no posting).
\<close>

record xapian =
  xp_parse :: "string \<Rightarrow> nat \<Rightarrow> xexn + query"
  xp_get_mset :: "enquire \<Rightarrow> int \<Rightarrow> int \<Rightarrow> nat \<Rightarrow> xexn + mset"
  xp_has_threadid :: bool
  xp_root_terms :: "string \<Rightarrow> nat \<Rightarrow> xexn + termlist option"
  xp_doccount_size :: nat
  xp_qp_flags :: nat
  xp_doccount :: int

subsection \<open>Requests\<close>

datatype cmd = cmd_mset_fn | cmd_dump_ibx_fn | cmd_dump_roots_fn | cmd_test_inspect_fn | cmd_test_sleep_fn

record req =
  lockv :: "string list"
  argv :: "string list"
  pfxv :: "string list"
  qpfxv :: "string list"
  dirv :: "string list"
  lenv :: "int list"
  Pgit_dir :: "string option"
  Oeidx_key :: "string option"
  req_fn :: "cmd option"
  req_max :: int
  req_off :: int
  threadid :: int
  uid_min :: int
  uid_max :: int
  timeout_sec :: int
  nr_out :: nat
  sort_col :: int
  has_fp1 :: bool
  has_input :: bool
  collapse_threads :: bool
  code_search :: bool
  relevance :: bool
  asc :: bool
  optind :: nat

abbreviation ULLONG_MAX :: int where
  "ULLONG_MAX \<equiv> ULONG_MAX"

definition UINT_MAX :: int where
  "UINT_MAX = 2 ^ 32 - 1"

definition UID_SLOT :: nat where
  "UID_SLOT = 4"

definition THREADID_SLOT :: nat where
  "THREADID_SLOT = 5"

subsection \<open>Searches\<close>

definition prep_enquire :: "req \<Rightarrow> ordering" where
  "prep_enquire req =
     (if sort_col req < 0 then BoolWeight (asc req)
      else if relevance req then RelevanceThenValue (sort_col req) (\<not> asc req)
      else ValueThenRelevance (sort_col req) (\<not> asc req))"

text \<open>
  The guarded calls, and the last one outside \<open>try\<close>: \<open>n\<close> calls are guarded, \<open>i\<close> were made.
\<close>

fun enquire_loop :: "nat \<Rightarrow> (nat \<Rightarrow> xexn + 'a) \<Rightarrow> nat \<Rightarrow> xexn + 'a" where
  "enquire_loop 0 get i = get i"
| "enquire_loop (Suc n) get i =
     (case get i of
        Inr m \<Rightarrow> Inr m
      | Inl (DatabaseModified None) \<Rightarrow> enquire_loop n get (Suc i)
      | Inl (DatabaseModified (Some e)) \<Rightarrow> Inl (XapianError e)
      | Inl e \<Rightarrow> Inl e)"

text \<open>\<open>doccount\<close> arguments are truncated to its width.\<close>

definition enquire_mset :: "xapian \<Rightarrow> req \<Rightarrow> enquire \<Rightarrow> (xexn + mset) \<times> req" where
  "enquire_mset db req enq =
     (let req = (if req_max req = 0
                 then req\<lparr>req_max := (if xp_doccount_size db = 4 then UINT_MAX else ULLONG_MAX)\<rparr> else req);
          w = 8 * xp_doccount_size db
      in (enquire_loop 9 (xp_get_mset db enq (req_off req mod 2 ^ w) (req_max req mod 2 ^ w)) 0, req))"

definition mail_query :: "req \<Rightarrow> query \<Rightarrow> query" where
  "mail_query req qry =
     (let qry = (case Oeidx_key req of None \<Rightarrow> qry | Some key \<Rightarrow> OP_FILTER qry (Term (CHR ''O'' # key)));
          qry = (if uid_min req \<noteq> ULLONG_MAX \<and> uid_max req \<noteq> ULLONG_MAX
                 then OP_FILTER qry (OP_VALUE_RANGE UID_SLOT
                   (Serialised (dbl_of_int (uid_min req))) (Serialised (dbl_of_int (uid_max req))))
                 else qry)
      in if threadid req \<noteq> ULLONG_MAX
         then let tid = Serialised (dbl_of_int (threadid req)) in OP_FILTER qry (OP_VALUE_RANGE THREADID_SLOT tid tid)
         else qry)"

definition mail_mset :: "xapian \<Rightarrow> req \<Rightarrow> string \<Rightarrow> (xexn + mset) \<times> req" where
  "mail_mset db req qry_str =
     (case xp_parse db qry_str (xp_qp_flags db) of
        Inl e \<Rightarrow> (Inl e, req)
      | Inr qry \<Rightarrow>
          enquire_mset db req \<lparr>e_order = prep_enquire req, e_query = mail_query req qry,
            e_collapse = (if collapse_threads req \<and> xp_has_threadid db then Some THREADID_SLOT else None)\<rparr>)"

fun roots_or :: "query \<Rightarrow> string list \<Rightarrow> query" where
  "roots_or f [] = f"
| "roots_or f (tn # ts) = roots_or (if starts_with tn ''G'' then OP_OR f (Term tn) else f) ts"

text \<open>One pass over the terms of the repository: the filtered query, or what was thrown.\<close>

definition roots_pass :: "query \<Rightarrow> termlist option \<Rightarrow> xexn + query" where
  "roots_pass qry terms =
     (case terms of
        None \<Rightarrow> Inr qry
      | Some (ts, Some e) \<Rightarrow> Inl e
      | Some (ts, None) \<Rightarrow>
          (case skip_to ''G'' ts of
             [] \<Rightarrow> Inr qry
           | t # ts \<Rightarrow> Inr (OP_FILTER qry (roots_or (Term t) ts))))"

fun apply_roots_loop :: "nat \<Rightarrow> query \<Rightarrow> (nat \<Rightarrow> xexn + termlist option) \<Rightarrow> nat \<Rightarrow> xexn + query" where
  "apply_roots_loop 0 qry get i = Inr qry"
| "apply_roots_loop (Suc n) qry get i =
     (case sum_bind (get i) (roots_pass qry) of
        Inr q \<Rightarrow> Inr q
      | Inl (DatabaseModified None) \<Rightarrow> apply_roots_loop n qry get (Suc i)
      | Inl (DatabaseModified (Some e)) \<Rightarrow> Inl (XapianError e)
      | Inl e \<Rightarrow> Inl e)"

definition apply_roots_filter :: "xapian \<Rightarrow> req \<Rightarrow> query \<Rightarrow> xexn + query" where
  "apply_roots_filter db req qry =
     (case Pgit_dir req of
        None \<Rightarrow> Inr qry
      | Some dir \<Rightarrow> apply_roots_loop 9 qry (xp_root_terms db (CHR ''P'' # dir)) 0)"

definition commit_mset :: "xapian \<Rightarrow> req \<Rightarrow> string \<Rightarrow> (xexn + mset) \<times> req" where
  "commit_mset db req qry_str =
     (case sum_bind (xp_parse db qry_str (xp_qp_flags db)) (apply_roots_filter db req) of
        Inl e \<Rightarrow> (Inl e, req)
      | Inr qry \<Rightarrow>
          enquire_mset db req \<lparr>e_order = prep_enquire req, e_query = OP_FILTER qry (Term ''Tc''), e_collapse = None\<rparr>)"

subsection \<open>What a query matches\<close>

text \<open>
  The documented meaning of the operators on a document with terms and values; \<open>ser\<close> is
  \<open>sortable_serialise\<close> and \<open>opq\<close> the meaning of what the parser built.
\<close>

record document =
  d_terms :: "string set"
  d_value :: "nat \<Rightarrow> string"

fun bound_val :: "(int \<Rightarrow> string) \<Rightarrow> string \<Rightarrow> bound \<Rightarrow> string" where
  "bound_val ser mn (Value v) = v"
| "bound_val ser mn (Serialised d) = ser d"
| "bound_val ser mn SerialisedDBL_MIN = mn"

fun query_matches :: "(int \<Rightarrow> string) \<Rightarrow> string \<Rightarrow> (string \<Rightarrow> document \<Rightarrow> bool) \<Rightarrow> query \<Rightarrow> document \<Rightarrow> bool" where
  "query_matches ser mn opq MatchNothing d \<longleftrightarrow> False"
| "query_matches ser mn opq (Opaque q) d \<longleftrightarrow> opq q d"
| "query_matches ser mn opq (Term t) d \<longleftrightarrow> t \<in> d_terms d"
| "query_matches ser mn opq (OP_FILTER p q) d \<longleftrightarrow> query_matches ser mn opq p d \<and> query_matches ser mn opq q d"
| "query_matches ser mn opq (OP_OR p q) d \<longleftrightarrow> query_matches ser mn opq p d \<or> query_matches ser mn opq q d"
| "query_matches ser mn opq (OP_VALUE_RANGE s a b) d \<longleftrightarrow>
     str_le (bound_val ser mn a) (d_value d s) \<and> str_le (d_value d s) (bound_val ser mn b)"
| "query_matches ser mn opq (OP_VALUE_GE s a) d \<longleftrightarrow> str_le (bound_val ser mn a) (d_value d s)"
| "query_matches ser mn opq (OP_VALUE_LE s b) d \<longleftrightarrow> str_le (d_value d s) (bound_val ser mn b)"

end
