(* ===== verification/Fbuf.thy ===== *)
theory Fbuf
  imports Xh_Util "HOL-Library.Sublist"
begin

text \<open>
  \<open>struct fbuf\<close> of \<open>xap_helper.h\<close>: a memory stream (\<open>open_memstream\<close>) whose contents are written to the
  client and then discarded by seeking to the start.  The stream keeps the bytes of earlier rounds
  beyond its position, as the C library does, and only the bytes before the position count.
\<close>

record fbuf =
  fb_ptr :: string
  fb_pos :: nat

definition fbuf_init :: fbuf where
  "fbuf_init = \<lparr>fb_ptr = [], fb_pos = 0\<rparr>"

definition fputs :: "string \<Rightarrow> fbuf \<Rightarrow> fbuf" where
  "fputs s f =
     f\<lparr>fb_ptr := take (fb_pos f) (fb_ptr f) @ s @ drop (fb_pos f + length s) (fb_ptr f),
       fb_pos := fb_pos f + length s\<rparr>"

definition fseek_start :: "fbuf \<Rightarrow> fbuf" where
  "fseek_start f = f\<lparr>fb_pos := 0\<rparr>"

text \<open>The client: the bytes it received, and the calls of \<open>write\<close> and \<open>flock\<close> so far and to come.\<close>

record client =
  cl_out :: string
  cl_calls :: nat
  cl_locks :: "int list"

definition client_write :: "(nat \<Rightarrow> nat \<Rightarrow> int) \<Rightarrow> client \<Rightarrow> fbuf \<Rightarrow> bool \<times> client" where
  "client_write wr cl f =
     (let (ok, out, j) = write_all wr (cl_calls cl) (fb_ptr f) (fb_pos f)
      in (ok, cl\<lparr>cl_out := cl_out cl @ out, cl_calls := j\<rparr>))"

subsection \<open>The contents of a stream\<close>

definition fb_wf :: "fbuf \<Rightarrow> bool" where
  "fb_wf f \<longleftrightarrow> fb_pos f \<le> length (fb_ptr f)"

definition fb_content :: "fbuf \<Rightarrow> string" where
  "fb_content f = take (fb_pos f) (fb_ptr f)"

lemma fb_wf_simps [simp]: "fb_wf fbuf_init" "fb_wf (fseek_start f)" "fb_wf f \<Longrightarrow> fb_wf (fputs s f)"
  by (auto simp: fb_wf_def fbuf_init_def fseek_start_def fputs_def)

lemma fb_content_simps [simp]:
  "fb_content fbuf_init = []" "fb_content (fseek_start f) = []"
  "fb_wf f \<Longrightarrow> fb_content (fputs s f) = fb_content f @ s"
  by (auto simp: fb_wf_def fb_content_def fbuf_init_def fseek_start_def fputs_def min_absorb1)

lemma length_fb_content [simp]: "fb_wf f \<Longrightarrow> length (fb_content f) = fb_pos f"
  by (simp add: fb_wf_def fb_content_def min_absorb2)

lemma client_write_result:
  assumes "write_contract wr" "fb_wf f" "0 < fb_pos f" "client_write wr cl f = (ok, cl')"
  shows "(if ok then cl_out cl' = cl_out cl @ fb_content f else prefix (cl_out cl') (cl_out cl @ fb_content f))
    \<and> cl_locks cl' = cl_locks cl"
proof -
  obtain out j where w: "write_all wr (cl_calls cl) (fb_ptr f) (fb_pos f) = (ok, out, j)"
    "cl' = cl\<lparr>cl_out := cl_out cl @ out, cl_calls := j\<rparr>"
    using assms(4) by (auto simp: client_write_def split: prod.splits)
  have "if ok then out = fb_content f else \<exists>k<fb_pos f. out = take k (fb_ptr f)"
    using write_all_result [OF assms(1,3) _ w(1)] assms(2) by (simp add: fb_wf_def fb_content_def)
  moreover have "prefix (take k (fb_ptr f)) (fb_content f)" if "k < fb_pos f" for k
    using that unfolding fb_content_def by (metis less_imp_le min_absorb1 take_is_prefix take_take)
  ultimately show ?thesis using w(2) by (auto split: if_splits)
qed

subsection \<open>What a flush promises\<close>

text \<open>
  A writer owns a client and a stream and runs in an environment that is \<open>legal\<close>.  The laws of a
  flush: after success the client has the contents and the stream is empty; after a failure the
  client has a prefix of what it should.  The user of the contract is a loop that puts lines and
  flushes when it likes.
\<close>

locale flushing_writer =
  fixes flush :: "'env \<Rightarrow> client \<Rightarrow> fbuf \<Rightarrow> abort + bool \<times> fbuf \<times> client" and legal :: "'env \<Rightarrow> bool"
  assumes flush_ok: "legal env \<Longrightarrow> fb_wf f \<Longrightarrow> flush env cl f = Inr (True, f', cl') \<Longrightarrow>
      fb_wf f' \<and> fb_content f' = [] \<and> cl_out cl' = cl_out cl @ fb_content f"
    and flush_fail: "legal env \<Longrightarrow> fb_wf f \<Longrightarrow> flush env cl f = Inr (False, f', cl') \<Longrightarrow>
      prefix (cl_out cl') (cl_out cl @ fb_content f)"
begin

definition streamed :: "string \<Rightarrow> client \<Rightarrow> fbuf \<Rightarrow> bool" where
  "streamed all cl f \<longleftrightarrow> fb_wf f \<and> cl_out cl @ fb_content f = all"

lemma streamed_init: "streamed (cl_out cl) cl fbuf_init"
  by (simp add: streamed_def)

lemma streamed_prefix: "streamed all cl f \<Longrightarrow> prefix (cl_out cl) all"
  by (auto simp: streamed_def)

lemma streamed_put: "streamed all cl f \<Longrightarrow> streamed (all @ s) cl (fputs s f)"
  by (auto simp: streamed_def)

lemma streamed_flush: "legal env \<Longrightarrow> streamed all cl f \<Longrightarrow> flush env cl f = Inr (True, f', cl') \<Longrightarrow> streamed all cl' f'"
  using flush_ok by (auto simp: streamed_def)

lemma streamed_flushed: "legal env \<Longrightarrow> streamed all cl f \<Longrightarrow> flush env cl f = Inr (True, f', cl') \<Longrightarrow> cl_out cl' = all"
  using flush_ok by (auto simp: streamed_def)

lemma streamed_fail: "legal env \<Longrightarrow> streamed all cl f \<Longrightarrow> flush env cl f = Inr (False, f', cl') \<Longrightarrow> prefix (cl_out cl') all"
  using flush_fail by (auto simp: streamed_def)

end

end
