(* ===== verification/Cidx.thy ===== *)
theory Cidx
  imports Khashl_Map Xh_Query Fbuf
begin

text \<open>
  The code-search dumps of \<open>xh_cidx.h\<close>: the map from root commits to identifiers and its file,
  the lengths attached to prefixes, and the lines \<open>dump_ibx\<close> and \<open>dump_roots\<close> write for the terms
  of a document.  The terms of a document are what a Xapian term iterator yields: an ascending
  list of byte strings.
\<close>

subsection \<open>Lengths of prefixes\<close>

definition SIZE_MAX :: int where
  "SIZE_MAX = 2 ^ 64 - 1"

text \<open>
  The loop over \<open>pfx\<close>: the prefix (cut at \<open>j\<close> when a length is found), the length (0 by default),
  and the positions that were warned about.
\<close>

function term_length_loop :: "string \<Rightarrow> nat \<Rightarrow> string \<times> int \<times> nat list" where
  "term_length_loop pfx j =
     (if chr_at pfx j = CHR 0x00 then (pfx, 0, [])
      else if \<not> c_isdigit (chr_at pfx j) then term_length_loop pfx (Suc j)
      else
        let (tmp, n) = strtoul (drop j pfx)
        in if j = 0 \<or> chr_at pfx (j + n) \<noteq> CHR 0x00 \<or> tmp \<ge> SIZE_MAX then
             (case term_length_loop pfx (Suc j) of (p, len, w) \<Rightarrow> (p, len, j # w))
           else (take j pfx, tmp, []))"
  by pat_completeness auto
termination
  by (relation "measure (\<lambda>(pfx, j). length pfx - j)") (auto simp: chr_at_def split: if_splits)

declare term_length_loop.simps [simp del]

definition term_length_extract :: "string list \<Rightarrow> (string \<times> int) list" where
  "term_length_extract pfxs =
     map (\<lambda>pfx. let (p, len, w) = term_length_loop pfx 0 in (p, len)) pfxs"

subsection \<open>Terms of a document\<close>

text \<open>
  The loop of \<open>dump_ibx_term\<close> and \<open>dump_roots_term\<close>: the terms it prints, less the prefix, and what
  the iterator throws if the loop gets that far.
\<close>

fun scan_terms :: "string \<Rightarrow> nat \<Rightarrow> string list \<Rightarrow> xexn option \<Rightarrow> string list \<times> xexn option" where
  "scan_terms pfx term_len [] x = ([], x)"
| "scan_terms pfx term_len (tn # ts) x =
     (if \<not> starts_with tn pfx then ([], None)
      else if term_len > 0 \<and> length tn - length pfx \<noteq> term_len then scan_terms pfx term_len ts x
      else map_prod (\<lambda>out. cstr_from tn (length pfx) # out) id (scan_terms pfx term_len ts x))"

definition dump_ibx_term :: "string \<Rightarrow> string \<times> nat \<Rightarrow> termlist \<Rightarrow> string list \<times> xexn option" where
  "dump_ibx_term ibx_id p terms =
     (let (pfx, term_len) = p
      in map_prod (map (\<lambda>t. t @ '' '' @ ibx_id @ [CHR 0x0A])) id
           (scan_terms pfx term_len (skip_to pfx (fst terms)) (snd terms)))"

definition dump_roots_term :: "string \<Rightarrow> string \<times> nat \<Rightarrow> termlist \<Rightarrow> string list \<times> xexn option" where
  "dump_roots_term root_offs p terms =
     (let (pfx, term_len) = p
      in map_prod (map (\<lambda>t. t @ root_offs)) id
           (scan_terms pfx term_len (skip_to pfx (fst terms)) (snd terms)))"

text \<open>The loop over the prefixes, which opens a term list for each; an exception leaves it.\<close>

fun dump_prefixes ::
  "(string \<times> nat \<Rightarrow> termlist \<Rightarrow> string list \<times> xexn option) \<Rightarrow> (nat \<Rightarrow> termlist) \<Rightarrow> (string \<times> nat) list
    \<Rightarrow> nat \<Rightarrow> string list \<times> xexn option"
where
  "dump_prefixes term tls [] k = ([], None)"
| "dump_prefixes term tls (p # ps) k =
     (case term p (tls k) of
        (out, Some x) \<Rightarrow> (out, Some x)
      | (out, None) \<Rightarrow> map_prod (\<lambda>out'. out @ out') id (dump_prefixes term tls ps (Suc k)))"

definition dump_ibx_iter :: "(string \<times> nat) list \<Rightarrow> string \<Rightarrow> doc_ret \<Rightarrow> string list \<times> iter_ret" where
  "dump_ibx_iter pfxs ibx_id d =
     (case d of
        Raise x \<Rightarrow> ([], iter_catch (Some x))
      | Doc tls vals \<Rightarrow> map_prod id iter_catch (dump_prefixes (dump_ibx_term ibx_id) tls pfxs 0))"

text \<open>How a command ends; and what it wrote for the status descriptor.\<close>

datatype cmd_ret = Returned bool | Threw xexn | Died abort

text \<open>
  The loop \<open>for (int t = 10; t > 0; --t)\<close> around a document whose \<open>k\<close>-th read gives \<open>get k\<close>: the lines,
  and how the command ends, if it does.
\<close>

fun dump_retry :: "(doc_ret \<Rightarrow> string list \<times> iter_ret) \<Rightarrow> (nat \<Rightarrow> doc_ret) \<Rightarrow> nat \<Rightarrow> nat \<Rightarrow> string list \<times> cmd_ret option" where
  "dump_retry iter get 0 k = ([], None)"
| "dump_retry iter get (Suc t) k =
     (case iter (get k) of
        (out, Iter ITER_OK) \<Rightarrow> (out, None)
      | (out, Iter ITER_RETRY) \<Rightarrow> map_prod (\<lambda>out'. out @ out') id (dump_retry iter get t (Suc k))
      | (out, Iter ITER_ABORT) \<Rightarrow> (out, Some (Returned False))
      | (out, Throw x) \<Rightarrow> (out, Some (Threw x))
      | (out, Die a) \<Rightarrow> (out, Some (Died a)))"

fun dump_mset :: "(doc_ret \<Rightarrow> string list \<times> iter_ret) \<Rightarrow> mset_doc list \<Rightarrow> string list \<times> cmd_ret option" where
  "dump_mset iter [] = ([], None)"
| "dump_mset iter (d # ds) =
     (case dump_retry iter (md_read d) 10 0 of
        (out, Some r) \<Rightarrow> (out, Some r)
      | (out, None) \<Rightarrow> map_prod (\<lambda>out'. out @ out') id (dump_mset iter ds))"

definition emit_mset_stats :: "req \<Rightarrow> mset \<Rightarrow> abort + string" where
  "emit_mset_stats req ms =
     (if has_fp1 req
      then Inr (''mset.size='' @ dec_str (length (ms_docs ms)) @ '' nr_out='' @ dec_str (nr_out req) @ [CHR 0x0A])
      else Inl (OneFdOnly (argv req ! 0)))"

definition set_lengths :: "req \<Rightarrow> req" where
  "set_lengths req =
     (let r = term_length_extract (pfxv req) in req\<lparr>pfxv := map fst r, lenv := map snd r\<rparr>)"

definition req_prefixes :: "req \<Rightarrow> (string \<times> nat) list" where
  "req_prefixes req = zip (pfxv req) (map nat (lenv req))"

text \<open>The lines on \<open>fp[0]\<close>, the status on \<open>fp[1]\<close>, and how the command ends.\<close>

definition cmd_dump_ibx :: "xapian \<Rightarrow> req \<Rightarrow> string list \<times> string \<times> cmd_ret" where
  "cmd_dump_ibx db req =
     (if optind req + 1 \<ge> length (argv req) then ([], [], Died (Usage ''dump_ibx [OPTIONS] IBX_ID QRY_STR''))
      else if pfxv req = [] then ([], [], Died (NoPrefix ''dump_ibx''))
      else
        let ibx_id = argv req ! optind req;
            req = set_lengths (req\<lparr>asc := True, sort_col := -1\<rparr>)
        in case mail_mset db req (argv req ! (optind req + 1)) of
             (Inl x, req) \<Rightarrow> ([], [], Threw x)
           | (Inr ms, req) \<Rightarrow>
               (case dump_mset (dump_ibx_iter (req_prefixes req) ibx_id) (ms_docs ms) of
                  (out, Some r) \<Rightarrow> (out, [], r)
                | (out, None) \<Rightarrow>
                    (case emit_mset_stats (req\<lparr>nr_out := nr_out req + length out\<rparr>) ms of
                       Inl a \<Rightarrow> (out, [], Died a)
                     | Inr st \<Rightarrow> (out, st, Returned True))))"

subsection \<open>Root commits\<close>

definition root2id_hash :: "string \<Rightarrow> khint" where
  "root2id_hash key = sha_hex_hash (map of_char key)"

definition root2id_eq :: "string \<Rightarrow> string \<Rightarrow> bool" where
  "root2id_eq a b = kh_eq_str (map of_char a) (map of_char b)"

type_synonym root_bucket = "(string, string option) cm_bucket"
type_synonym root2id_map = "root_bucket khtab"

definition root2id_get :: "root_bucket \<Rightarrow> root2id_map \<Rightarrow> string \<Rightarrow> khint" where
  "root2id_get junk h key = cmap_get root2id_hash root2id_eq junk h key"

definition root2id_put :: "root_bucket \<Rightarrow> root2id_map \<Rightarrow> string \<Rightarrow> (root2id_map \<times> khint \<times> int) option" where
  "root2id_put junk h key = cmap_put root2id_hash root2id_eq junk h key"

text \<open>
  The loop over the entries of the file.  A key that is the last entry gets the null pointer
  that follows it in the zeroed array.
\<close>

fun root2id_load :: "root_bucket \<Rightarrow> root2id_map \<Rightarrow> string list \<Rightarrow> (abort + root2id_map) option" where
  "root2id_load junk h [] = Some (Inr h)"
| "root2id_load junk h [key] =
     do {
       (h, k, absent) \<leftarrow> root2id_put junk h key;
       if absent = 0 then Some (Inl (DuplicateKey key)) else Some (Inr (kh_set_val h k None))
     }"
| "root2id_load junk h (key # val # es) =
     do {
       (h, k, absent) \<leftarrow> root2id_put junk h key;
       if absent = 0 then Some (Inl (DuplicateKey key))
       else root2id_load junk (kh_set_val h k (Some val)) es
     }"

text \<open>The part of \<open>cmd_dump_roots\<close> that reads the file of size \<open>length buf\<close> into the map.\<close>

definition dump_roots_load :: "root_bucket \<Rightarrow> string \<Rightarrow> (abort + root2id_map) option" where
  "dump_roots_load junk buf =
     (let est = length buf div 32 + 1; asize = est * 2
      in if int est \<ge> 2 ^ 63 then Some (Inl TooManyArgs)
         else case split2argv buf asize of
                Inl e \<Rightarrow> Some (Inl e)
              | Inr dst \<Rightarrow>
                  do {
                    h \<leftarrow> kh_resize cm_hash junk kh_init (of_nat est);
                    root2id_load junk h (argv_strings buf dst)
                  })"

fun root2offs_loop :: "root_bucket \<Rightarrow> root2id_map \<Rightarrow> string list \<Rightarrow> abort + string" where
  "root2offs_loop junk h [] = Inr []"
| "root2offs_loop junk h (tn # ts) =
     (if \<not> starts_with tn ''G'' then Inr []
      else let i = root2id_get junk h (cstr_from tn 1)
           in if i \<ge> kh_end h then Inl (KeyMiss (cstr_from tn 1))
              else case kh_val h i of
                     None \<Rightarrow> Inl NullDeref
                   | Some v \<Rightarrow> sum_bind (root2offs_loop junk h ts) (\<lambda>r. Inr ('' '' @ v @ r)))"

definition root2offs_str :: "root_bucket \<Rightarrow> root2id_map \<Rightarrow> string list \<Rightarrow> abort + string" where
  "root2offs_str junk h terms =
     sum_bind (root2offs_loop junk h (skip_to ''G'' terms)) (\<lambda>r. Inr (r @ [CHR 0x0A]))"

text \<open>
  One pass over a document: the first term list is read for the roots, then one for each prefix.
  The iterator may throw while the roots are read, before a line is written.
\<close>

fun root_terms_end :: "termlist \<Rightarrow> xexn option" where
  "root_terms_end (ts, x) = (if list_all (\<lambda>t. starts_with t ''G'') (skip_to ''G'' ts) then x else None)"

definition dump_roots_iter ::
  "root_bucket \<Rightarrow> root2id_map \<Rightarrow> (string \<times> nat) list \<Rightarrow> doc_ret \<Rightarrow> string list \<times> iter_ret"
where
  "dump_roots_iter junk h pfxs d =
     (case d of
        Raise x \<Rightarrow> ([], iter_catch (Some x))
      | Doc tls vals \<Rightarrow>
          (case root2offs_str junk h (fst (tls 0)) of
             Inl a \<Rightarrow> ([], Die a)
           | Inr offs \<Rightarrow>
               (case root_terms_end (tls 0) of
                  Some x \<Rightarrow> ([], iter_catch (Some x))
                | None \<Rightarrow> map_prod id iter_catch (dump_prefixes (dump_roots_term offs) tls pfxs 1))))"

subsection \<open>Writing the roots out\<close>

text \<open>The results of \<open>flock\<close> in order: 0, or \<open>errno\<close>.\<close>

fun flock_loop :: "int list \<Rightarrow> abort + int list" where
  "flock_loop [] = Inl Waiting"
| "flock_loop (e # es) = (if e = 0 then Inr es else if e = EINTR then flock_loop es else Inl (FlockError e))"

definition dump_roots_flush :: "(nat \<Rightarrow> nat \<Rightarrow> int) \<Rightarrow> client \<Rightarrow> fbuf \<Rightarrow> abort + bool \<times> fbuf \<times> client" where
  "dump_roots_flush wr cl f =
     (if fb_pos f = 0 then Inr (True, f, cl)
      else
        sum_bind (flock_loop (cl_locks cl)) (\<lambda>es.
          let (ok, cl) = client_write wr (cl\<lparr>cl_locks := es\<rparr>) f
          in sum_bind (flock_loop (cl_locks cl)) (\<lambda>es.
               Inr (ok, fseek_start f, cl\<lparr>cl_locks := es\<rparr>))))"

text \<open>The loop over the documents; \<open>nr\<close> is \<open>nr_out\<close>, of which the low 14 bits are tested.\<close>

fun dump_roots_loop ::
  "(doc_ret \<Rightarrow> string list \<times> iter_ret) \<Rightarrow> (nat \<Rightarrow> nat \<Rightarrow> int) \<Rightarrow> mset_doc list \<Rightarrow> nat \<Rightarrow> client \<Rightarrow> fbuf
    \<Rightarrow> cmd_ret option \<times> nat \<times> client \<times> fbuf"
where
  "dump_roots_loop iter wr [] nr cl f = (None, nr, cl, f)"
| "dump_roots_loop iter wr (d # ds) nr cl f =
     (let (out, r) = dump_retry iter (md_read d) 10 0; nr = nr + length out; f = fputs (concat out) f
      in case r of
           Some r \<Rightarrow> (Some r, nr, cl, f)
         | None \<Rightarrow>
             if nr mod 16384 = 0 then
               (case dump_roots_flush wr cl f of
                  Inl a \<Rightarrow> (Some (Died a), nr, cl, f)
                | Inr (ok, f, cl) \<Rightarrow>
                    if ok then dump_roots_loop iter wr ds nr cl f else (Some (Returned False), nr, cl, f))
             else dump_roots_loop iter wr ds nr cl f)"

text \<open>
  The command, given the contents of the file (none if it cannot be opened).  A map operation
  that does not return leaves the command waiting.
\<close>

definition cmd_dump_roots ::
  "root_bucket \<Rightarrow> xapian \<Rightarrow> (nat \<Rightarrow> nat \<Rightarrow> int) \<Rightarrow> (string \<Rightarrow> string option) \<Rightarrow> req \<Rightarrow> client \<Rightarrow> client \<times> string \<times> cmd_ret"
where
  "cmd_dump_roots junk db wr fs req cl =
     (if optind req + 1 \<ge> length (argv req) then (cl, [], Died (Usage ''dump_roots [OPTIONS] ROOT2ID_FILE QRY_STR''))
      else if pfxv req = [] then (cl, [], Died (NoPrefix ''dump_roots''))
      else case fs (argv req ! optind req) of
             None \<Rightarrow> (cl, [], Died (CantOpen (argv req ! optind req)))
           | Some buf \<Rightarrow>
               (case dump_roots_load junk buf of
                  None \<Rightarrow> (cl, [], Died Waiting)
                | Some (Inl a) \<Rightarrow> (cl, [], Died a)
                | Some (Inr h) \<Rightarrow>
                    (case commit_mset db (req\<lparr>asc := True, sort_col := -1\<rparr>) (argv req ! (optind req + 1)) of
                       (Inl x, req) \<Rightarrow> (cl, [], Threw x)
                     | (Inr ms, req) \<Rightarrow>
                         let req = set_lengths req;
                             iter = dump_roots_iter junk h (req_prefixes req)
                         in case dump_roots_loop iter wr (ms_docs ms) (nr_out req) cl fbuf_init of
                              (Some r, nr, cl, f) \<Rightarrow> (cl, [], r)
                            | (None, nr, cl, f) \<Rightarrow>
                                (case dump_roots_flush wr cl f of
                                   Inl a \<Rightarrow> (cl, [], Died a)
                                 | Inr (False, f, cl) \<Rightarrow> (cl, [], Returned False)
                                 | Inr (True, f, cl) \<Rightarrow>
                                     (case emit_mset_stats (req\<lparr>nr_out := nr\<rparr>) ms of
                                        Inl a \<Rightarrow> (cl, [], Died a)
                                      | Inr st \<Rightarrow> (cl, st, Returned True))))))"

end
