(* ===== verification/Xh_Query_Spec.thy ===== *)
theory Xh_Query_Spec
  imports Xh_Query
begin

text \<open>
  Properties of searches: the order on terms, the precision of serialised numbers, what the
  filters added to a mail or commit query let through, and the retries.
\<close>

subsection \<open>The order on strings\<close>

lemma starts_with_simps [simp]:
  "starts_with s []" "starts_with [] pfx \<longleftrightarrow> pfx = []"
  "starts_with (a # s) (b # pfx) \<longleftrightarrow> a = b \<and> starts_with s pfx"
  by (auto simp: starts_with_def)

lemma prefix_not_less: "starts_with t pfx \<Longrightarrow> \<not> str_less t pfx"
  by (induction t pfx rule: str_less.induct) auto

lemma starts_with_between:
  "\<not> str_less t pfx \<Longrightarrow> str_less t u \<Longrightarrow> starts_with u pfx \<Longrightarrow> starts_with t pfx"
proof (induction pfx arbitrary: t u)
  case (Cons b pfx)
  then show ?case by (cases t; cases u) auto
qed simp

lemma str_less_trans: "str_less a b \<Longrightarrow> str_less b c \<Longrightarrow> str_less a c"
proof (induction a b arbitrary: c rule: str_less.induct)
  case (1 t)
  then show ?case by (cases c; cases t) auto
next
  case (3 a s b t)
  then show ?case by (cases c) (auto dest: less_trans)
qed simp

lemma str_less_le: "str_le t u \<Longrightarrow> \<not> str_less t pfx \<Longrightarrow> \<not> str_less u pfx"
  unfolding str_le_def using str_less_trans by blast

lemma dropWhile_less:
  assumes "sorted_wrt str_le ts"
  shows "\<forall>t\<in>set (dropWhile (\<lambda>x. str_less x pfx) ts). \<not> str_less t pfx"
  using assms
proof (induction ts)
  case (Cons t ts)
  show ?case
  proof (cases "str_less t pfx")
    case True
    have "sorted_wrt str_le ts" using Cons.prems by simp
    from Cons.IH [OF this] show ?thesis using True by (simp only: dropWhile.simps if_True)
  next
    case False
    have "\<forall>u\<in>set ts. str_le t u" using Cons.prems by simp
    then have "\<forall>u\<in>set ts. \<not> str_less u pfx" using False str_less_le by blast
    then have "\<forall>u\<in>set (t # ts). \<not> str_less u pfx" using False by (simp only: list.set ball_simps simp_thms)
    then show ?thesis using False by (simp only: dropWhile.simps if_False)
  qed
qed simp

lemma skip_to_split:
  "\<exists>before. terms = before @ skip_to pfx terms \<and> (\<forall>t\<in>set before. \<not> starts_with t pfx)"
  unfolding skip_to_def
  by (rule exI [of _ "takeWhile (\<lambda>x. str_less x pfx) terms"]) (auto dest!: set_takeWhileD dest: prefix_not_less)

lemma str_le_replicate: "str_le (replicate a c) (replicate b c) \<longleftrightarrow> a \<le> b"
proof (induction a arbitrary: b)
  case 0
  then show ?case by (cases b) (auto simp: str_le_def)
next
  case (Suc a)
  then show ?case by (cases b) (auto simp: str_le_def)
qed

subsection \<open>Integers as doubles\<close>

definition dbl_grid :: "nat \<Rightarrow> nat \<Rightarrow> nat" where
  "dbl_grid k a = (if 2 * (a mod k) > k \<or> (2 * (a mod k) = k \<and> odd (a div k)) then (a div k + 1) * k else a div k * k)"

lemma dbl_round_grid: "dbl_round a = dbl_grid (2 ^ (floorlog 2 a - 53)) a"
  by (simp add: dbl_round_def dbl_grid_def Let_def)

lemma dbl_grid_bounds: "a div k * k \<le> dbl_grid k a" "dbl_grid k a \<le> (a div k + 1) * k"
  by (auto simp: dbl_grid_def)

lemma dbl_grid_mono:
  assumes "0 < k" "a \<le> b"
  shows "dbl_grid k a \<le> dbl_grid k b"
proof (cases "a div k = b div k")
  case True
  have "a div k * k + a mod k \<le> b div k * k + b mod k" using assms(2) by simp
  then have "a mod k \<le> b mod k" unfolding True by (simp only: add_le_cancel_left)
  then show ?thesis using True by (auto simp: dbl_grid_def)
next
  case False
  then have "a div k + 1 \<le> b div k" using div_le_mono [OF assms(2), of k] by simp
  then have "(a div k + 1) * k \<le> b div k * k" by (rule mult_le_mono1)
  then show ?thesis using dbl_grid_bounds(2) [of k a] dbl_grid_bounds(1) [of b k] by linarith
qed

lemma dbl_round_exact: "a < 2 ^ 53 \<Longrightarrow> dbl_round a = a"
proof -
  assume "a < 2 ^ 53"
  then have "floorlog 2 a \<le> 53" by (simp add: floorlog_leI)
  then show ?thesis by (simp add: dbl_round_grid dbl_grid_def)
qed

lemma dbl_round_le_pow: "dbl_round a \<le> 2 ^ floorlog 2 a"
proof (cases "floorlog 2 a \<le> 53")
  case True
  have "a < 2 ^ floorlog 2 a" by (rule floorlog_leD) simp_all
  moreover have "a < 2 ^ 53" using True by (simp add: floorlog_le_iff)
  ultimately show ?thesis by (simp add: dbl_round_exact)
next
  case False
  define e where "e = floorlog 2 a - 53"
  have fl: "floorlog 2 a = 53 + e" using False by (simp add: e_def)
  have "a < 2 ^ (53 + e)" unfolding fl [symmetric] by (rule floorlog_leD) simp_all
  then have "a div 2 ^ e < 2 ^ 53" by (simp add: less_mult_imp_div_less power_add)
  then have "(a div 2 ^ e + 1) * 2 ^ e \<le> 2 ^ 53 * 2 ^ e" by (intro mult_le_mono1) simp
  then have "dbl_grid (2 ^ e) a \<le> 2 ^ (53 + e)"
    unfolding power_add using dbl_grid_bounds(2) [of "2 ^ e" a] by (rule order_trans [rotated])
  then show ?thesis by (simp add: dbl_round_grid fl)
qed

lemma dbl_round_ge_pow:
  assumes "0 < a"
  shows "2 ^ (floorlog 2 a - 1) \<le> dbl_round a"
proof -
  define e where "e = floorlog 2 a - 53"
  have le: "2 ^ (floorlog 2 a - 1) \<le> a" using floorlog_bounds [of a 2] assms by simp
  have "floorlog 2 a \<noteq> 0" using assms by (simp add: floorlog_eq_zero_iff)
  then have split: "(2::nat) ^ (floorlog 2 a - 1) = 2 ^ (floorlog 2 a - 1 - e) * 2 ^ e"
    unfolding e_def power_add [symmetric] by (intro arg_cong [of _ _ "\<lambda>x. 2 ^ x"]) linarith
  have "2 ^ (floorlog 2 a - 1 - e) \<le> a div 2 ^ e"
    using le unfolding split by (simp add: less_eq_div_iff_mult_less_eq)
  then have "2 ^ (floorlog 2 a - 1) \<le> a div 2 ^ e * 2 ^ e" unfolding split by (rule mult_le_mono1)
  then show ?thesis using dbl_grid_bounds(1) [of a "2 ^ e"] unfolding dbl_round_grid e_def [symmetric] by linarith
qed

lemma dbl_round_mono:
  assumes "a \<le> b"
  shows "dbl_round a \<le> dbl_round b"
proof (cases "floorlog 2 a = floorlog 2 b")
  case True
  then show ?thesis using assms dbl_grid_mono by (simp add: dbl_round_grid)
next
  case False
  then have fl: "floorlog 2 a \<le> floorlog 2 b - 1" "0 < floorlog 2 b" using floorlog_mono [OF assms, of 2] by linarith+
  then have "0 < b" by (metis floorlog_eq_zero_iff le_numeral_extra(3) gr0I order_refl)
  have "dbl_round a \<le> 2 ^ floorlog 2 a" by (rule dbl_round_le_pow)
  also have "\<dots> \<le> 2 ^ (floorlog 2 b - 1)" using fl(1) by simp
  also have "\<dots> \<le> dbl_round b" using \<open>0 < b\<close> by (rule dbl_round_ge_pow)
  finally show ?thesis .
qed

lemma dbl_of_int_exact: "0 \<le> v \<Longrightarrow> v < 2 ^ 53 \<Longrightarrow> dbl_of_int v = v"
  by (cases "v = 0") (simp_all add: dbl_of_int_def dbl_round_exact nat_less_iff sgn_1_pos)

lemma dbl_of_int_nonneg: "0 \<le> v \<Longrightarrow> dbl_of_int v = int (dbl_round (nat v))"
  by (cases "v = 0") (simp_all add: dbl_of_int_def dbl_round_exact)

lemma dbl_of_int_mono: "0 \<le> v \<Longrightarrow> v \<le> w \<Longrightarrow> dbl_of_int v \<le> dbl_of_int w"
  by (simp add: dbl_of_int_nonneg dbl_round_mono)

lemma dbl_of_int_nonneg_ge: "0 \<le> v \<Longrightarrow> 0 \<le> dbl_of_int v"
  by (simp add: dbl_of_int_nonneg)

subsection \<open>Filters\<close>

text \<open>What a mail request asks for beyond its query string.\<close>

definition mail_filter :: "req \<Rightarrow> int \<Rightarrow> int \<Rightarrow> document \<Rightarrow> bool" where
  "mail_filter req uid tid d \<longleftrightarrow>
     (\<forall>key. Oeidx_key req = Some key \<longrightarrow> CHR ''O'' # key \<in> d_terms d)
     \<and> (uid_min req \<noteq> ULLONG_MAX \<and> uid_max req \<noteq> ULLONG_MAX \<longrightarrow> uid_min req \<le> uid \<and> uid \<le> uid_max req)
     \<and> (threadid req \<noteq> ULLONG_MAX \<longrightarrow> tid = threadid req)"

text \<open>\<open>sortable_serialise\<close> keeps the order of the numbers it serialises.\<close>

definition ser_contract :: "(int \<Rightarrow> string) \<Rightarrow> bool" where
  "ser_contract ser \<longleftrightarrow> (\<forall>a b. 0 \<le> a \<longrightarrow> 0 \<le> b \<longrightarrow> (str_le (ser a) (ser b) \<longleftrightarrow> a \<le> b))"

lemma ser_between:
  assumes "ser_contract ser" "0 \<le> lo" "0 \<le> v" "0 \<le> hi"
  shows "str_le (ser (dbl_of_int lo)) (ser (dbl_of_int v)) \<and> str_le (ser (dbl_of_int v)) (ser (dbl_of_int hi))
    \<longleftrightarrow> dbl_of_int lo \<le> dbl_of_int v \<and> dbl_of_int v \<le> dbl_of_int hi"
  using assms by (simp add: ser_contract_def dbl_of_int_nonneg_ge)

lemma query_matches_mail:
  assumes "ser_contract ser" "0 \<le> uid" "0 \<le> tid" "0 \<le> uid_min req" "0 \<le> uid_max req" "0 \<le> threadid req"
    "d_value d UID_SLOT = ser (dbl_of_int uid)" "d_value d THREADID_SLOT = ser (dbl_of_int tid)"
  shows "query_matches ser mn opq (mail_query req qry) d \<longleftrightarrow>
    query_matches ser mn opq qry d
    \<and> (\<forall>key. Oeidx_key req = Some key \<longrightarrow> CHR ''O'' # key \<in> d_terms d)
    \<and> (uid_min req \<noteq> ULLONG_MAX \<and> uid_max req \<noteq> ULLONG_MAX \<longrightarrow>
         dbl_of_int (uid_min req) \<le> dbl_of_int uid \<and> dbl_of_int uid \<le> dbl_of_int (uid_max req))
    \<and> (threadid req \<noteq> ULLONG_MAX \<longrightarrow> dbl_of_int tid = dbl_of_int (threadid req))"
  using ser_between [OF assms(1,4,2,5)] ser_between [OF assms(1,6,3,6)] assms(7,8)
  by (cases "Oeidx_key req") (auto simp: mail_query_def Let_def)

text \<open>
  C6: the query of a mail request finds every message the query string matches that belongs to
  the wanted inbox, UID range and thread; and nothing else as long as the numbers are below
  \<open>2^53\<close>, where a \<open>double\<close> tells them apart.
\<close>

theorem mail_query_matches:
  assumes "ser_contract ser" "0 \<le> uid" "0 \<le> tid" "0 \<le> uid_min req" "0 \<le> uid_max req" "0 \<le> threadid req"
    "d_value d UID_SLOT = ser (dbl_of_int uid)" "d_value d THREADID_SLOT = ser (dbl_of_int tid)"
  shows "(query_matches ser mn opq qry d \<and> mail_filter req uid tid d
      \<longrightarrow> query_matches ser mn opq (mail_query req qry) d)
    \<and> ((\<forall>v\<in>{uid, tid}. v < 2 ^ 53) \<and> (\<forall>v\<in>{uid_min req, uid_max req, threadid req}. v < 2 ^ 53 \<or> v = ULLONG_MAX)
      \<longrightarrow> (query_matches ser mn opq (mail_query req qry) d
           \<longleftrightarrow> query_matches ser mn opq qry d \<and> mail_filter req uid tid d))"
proof (intro conjI impI)
  assume "query_matches ser mn opq qry d \<and> mail_filter req uid tid d"
  then show "query_matches ser mn opq (mail_query req qry) d"
    using assms(2-6) by (auto simp: query_matches_mail [OF assms] mail_filter_def dbl_of_int_mono)
next
  assume "(\<forall>v\<in>{uid, tid}. v < 2 ^ 53) \<and> (\<forall>v\<in>{uid_min req, uid_max req, threadid req}. v < 2 ^ 53 \<or> v = ULLONG_MAX)"
  then show "query_matches ser mn opq (mail_query req qry) d
      \<longleftrightarrow> query_matches ser mn opq qry d \<and> mail_filter req uid tid d"
    unfolding query_matches_mail [OF assms] mail_filter_def using assms(2-6) by (auto simp: dbl_of_int_exact)
qed

definition ser_sample :: "int \<Rightarrow> string" where
  "ser_sample v = replicate (nat v) CHR ''a''"

definition req_sample :: req where
  "req_sample = \<lparr>lockv = [], argv = [], pfxv = [], qpfxv = [], dirv = [], lenv = [], Pgit_dir = Some ''/r'',
     Oeidx_key = Some ''k'', req_fn = None, req_max = 0, req_off = 0, threadid = 7, uid_min = 2, uid_max = 4,
     timeout_sec = 0, nr_out = 0, sort_col = 0, has_fp1 = True, has_input = False, collapse_threads = False,
     code_search = False, relevance = False, asc = False, optind = 1\<rparr>"

lemma ser_contract_sample: "ser_contract ser_sample"
  by (auto simp: ser_contract_def ser_sample_def str_le_replicate)

theorem mail_query_matches_witness:
  "query_matches ser_sample [] (\<lambda>q d. True) (mail_query req_sample (Opaque ''q''))
     \<lparr>d_terms = {''Ok''}, d_value = (\<lambda>s. ser_sample (dbl_of_int (if s = UID_SLOT then 3 else 7)))\<rparr>
   \<and> \<not> query_matches ser_sample [] (\<lambda>q d. True) (mail_query req_sample (Opaque ''q''))
     \<lparr>d_terms = {''Ok''}, d_value = (\<lambda>s. ser_sample (dbl_of_int (if s = UID_SLOT then 5 else 7)))\<rparr>"
proof -
  let ?d = "\<lambda>u. \<lparr>d_terms = {''Ok''}, d_value = (\<lambda>s. ser_sample (dbl_of_int (if s = UID_SLOT then u else 7)))\<rparr>"
  have "query_matches ser_sample [] (\<lambda>q d. True) (mail_query req_sample (Opaque ''q'')) (?d u)
      \<longleftrightarrow> query_matches ser_sample [] (\<lambda>q d. True) (Opaque ''q'') (?d u) \<and> mail_filter req_sample u 7 (?d u)"
    if "0 \<le> u" "u < 2 ^ 53" for u
    using mail_query_matches [OF ser_contract_sample, of u 7 req_sample "?d u" "[]" "\<lambda>q d. True" "Opaque ''q''"] that
    by (simp add: req_sample_def UID_SLOT_def THREADID_SLOT_def)
  from this [of 3] this [of 5] show ?thesis by (simp add: mail_filter_def req_sample_def ULONG_MAX_def)
qed

subsection \<open>Commits of a repository\<close>

lemma query_matches_roots_or:
  "query_matches ser mn opq (roots_or f ts) d \<longleftrightarrow>
    query_matches ser mn opq f d \<or> (\<exists>t\<in>set ts. starts_with t ''G'' \<and> t \<in> d_terms d)"
  by (induction ts arbitrary: f) auto

lemma skip_to_first_root:
  assumes "sorted_wrt str_le ts" "u \<in> set ts" "starts_with u pfx"
  shows "\<exists>t rest. skip_to pfx ts = t # rest \<and> starts_with t pfx"
proof -
  obtain before where b: "ts = before @ skip_to pfx ts" "\<forall>t\<in>set before. \<not> starts_with t pfx"
    using skip_to_split by blast
  then have u: "u \<in> set (skip_to pfx ts)" using assms(2,3) by (metis Un_iff set_append)
  then obtain t rest where t: "skip_to pfx ts = t # rest" by (cases "skip_to pfx ts") auto
  have "sorted_wrt str_le (t # rest)" using assms(1) b(1) t by (metis sorted_wrt_append)
  then have le: "str_le t u" using u t by (auto simp: str_le_def)
  have "\<not> str_less t pfx" using dropWhile_less [OF assms(1), of pfx] t unfolding skip_to_def by simp
  then have "starts_with t pfx" using le assms(3) starts_with_between [of t pfx u] by (auto simp: str_le_def)
  with t show ?thesis by blast
qed

lemma apply_roots_retry:
  assumes "\<forall>j<k. get (i + j) = Inl (DatabaseModified None)" "k \<le> n"
  shows "apply_roots_loop n qry get i = apply_roots_loop (n - k) qry get (i + k)"
  using assms
proof (induction k arbitrary: n i)
  case (Suc k)
  obtain m where n: "n = Suc m" using Suc.prems(2) by (cases n) auto
  have "get i = Inl (DatabaseModified None)" using Suc.prems(1) [rule_format, of 0] by simp
  then have "apply_roots_loop n qry get i = apply_roots_loop m qry get (Suc i)" by (simp add: n)
  also have "\<dots> = apply_roots_loop (m - k) qry get (Suc i + k)" using Suc.prems n by (intro Suc.IH) auto
  finally show ?case by (simp add: n)
qed simp

text \<open>
  C17: when the repository's document can be read within nine attempts and has root commits, the
  filter lets exactly the documents through that share one of them.
\<close>

theorem roots_filter_matches:
  assumes "Pgit_dir req = Some dir" "k < 9" "\<forall>j<k. xp_root_terms db (CHR ''P'' # dir) j = Inl (DatabaseModified None)"
    "xp_root_terms db (CHR ''P'' # dir) k = Inr (Some (ts, None))"
    "sorted_wrt str_le ts" "\<exists>t\<in>set ts. starts_with t ''G''"
  shows "\<exists>q. apply_roots_filter db req qry = Inr q
    \<and> (\<forall>d. query_matches ser mn opq q d \<longleftrightarrow>
          query_matches ser mn opq qry d \<and> (\<exists>t\<in>set ts. starts_with t ''G'' \<and> t \<in> d_terms d))"
proof -
  obtain u where u: "u \<in> set ts" "starts_with u ''G''" using assms(6) by blast
  obtain t rest where t: "skip_to ''G'' ts = t # rest" "starts_with t ''G''"
    using skip_to_first_root [OF assms(5) u] by blast
  obtain before where b: "ts = before @ t # rest" "\<forall>t\<in>set before. \<not> starts_with t ''G''"
    using skip_to_split [of ts "''G''"] t(1) by auto
  obtain m where m: "9 - k = Suc m" using assms(2) by (cases "9 - k") auto
  have "apply_roots_filter db req qry = Inr (OP_FILTER qry (roots_or (Term t) rest))"
    using apply_roots_retry [of k "xp_root_terms db (CHR ''P'' # dir)" 0 9 qry] assms(1-4) t(1) m
    by (simp add: apply_roots_filter_def roots_pass_def)
  moreover have "query_matches ser mn opq (roots_or (Term t) rest) d \<longleftrightarrow>
      (\<exists>t\<in>set ts. starts_with t ''G'' \<and> t \<in> d_terms d)" for d
    using t(2) b(2) by (auto simp: query_matches_roots_or b(1))
  ultimately show ?thesis by simp
qed

definition xapian_sample :: "(nat \<Rightarrow> xexn + termlist option) \<Rightarrow> (nat \<Rightarrow> xexn + mset) \<Rightarrow> xapian" where
  "xapian_sample roots get =
     \<lparr>xp_parse = (\<lambda>s f. Inr (Opaque s)), xp_get_mset = (\<lambda>e off mx. get), xp_has_threadid = True,
      xp_root_terms = (\<lambda>p. roots), xp_doccount_size = 4, xp_qp_flags = 0, xp_doccount = 100\<rparr>"

theorem roots_filter_matches_witness:
  "\<exists>q. apply_roots_filter (xapian_sample (\<lambda>k. if k = 2 then Inr (Some ([''Ga'', ''Gb'', ''P/r''], None))
        else Inl (DatabaseModified None)) (\<lambda>k. Inl DocNotFound)) req_sample (Opaque ''q'') = Inr q
    \<and> query_matches ser_sample [] (\<lambda>q d. True) q \<lparr>d_terms = {''Gb'', ''Tc''}, d_value = (\<lambda>s. [])\<rparr>"
proof -
  have "sorted_wrt str_le [''Ga'', ''Gb'', ''P/r'']" by (simp add: str_le_def chr_code_def)
  then show ?thesis
    using roots_filter_matches [of req_sample "''/r''" 2 "xapian_sample (\<lambda>k. if k = 2
        then Inr (Some ([''Ga'', ''Gb'', ''P/r''], None)) else Inl (DatabaseModified None)) (\<lambda>k. Inl DocNotFound)"
        "[''Ga'', ''Gb'', ''P/r'']" "Opaque ''q''" ser_sample "[]" "\<lambda>q d. True"]
    by (auto simp: req_sample_def xapian_sample_def)
qed



subsection \<open>Retries\<close>

lemma enquire_retry:
  assumes "\<forall>j<k. get (i + j) = Inl (DatabaseModified None)" "k \<le> n"
  shows "enquire_loop n get i = enquire_loop (n - k) get (i + k)"
  using assms
proof (induction k arbitrary: n i)
  case (Suc k)
  obtain m where n: "n = Suc m" using Suc.prems(2) by (cases n) auto
  have "get i = Inl (DatabaseModified None)" using Suc.prems(1) [rule_format, of 0] by simp
  then have "enquire_loop n get i = enquire_loop m get (Suc i)" by (simp add: n)
  also have "\<dots> = enquire_loop (m - k) get (Suc i + k)" using Suc.prems n by (intro Suc.IH) auto
  finally show ?case by (simp add: n)
qed simp

definition mset_call :: "xapian \<Rightarrow> req \<Rightarrow> enquire \<Rightarrow> nat \<Rightarrow> xexn + mset" where
  "mset_call db req enq =
     (let w = 8 * xp_doccount_size db
      in xp_get_mset db enq (req_off req mod 2 ^ w)
        ((if req_max req = 0 then if xp_doccount_size db = 4 then UINT_MAX else ULLONG_MAX else req_max req) mod 2 ^ w))"

lemma enquire_mset_calls: "fst (enquire_mset db req enq) = enquire_loop 9 (mset_call db req enq) 0"
  by (simp add: enquire_mset_def mset_call_def Let_def)

text \<open>
  A search is tried at most ten times: the result is that of the first try that is not upset
  by a modification of the database, and the tenth modification is reported.  A maximum of 0 means
  as many results as a document count can say.
\<close>

theorem enquire_mset_ten:
  "(\<forall>k\<le>9. \<forall>m. (\<forall>j<k. mset_call db req enq j = Inl (DatabaseModified None)) \<and> mset_call db req enq k = Inr m
      \<longrightarrow> fst (enquire_mset db req enq) = Inr m)
    \<and> ((\<forall>j<10. mset_call db req enq j = Inl (DatabaseModified None))
      \<longrightarrow> fst (enquire_mset db req enq) = Inl (DatabaseModified None))"
proof (intro conjI allI impI)
  fix k :: nat and m
  assume k: "k \<le> 9" and m: "(\<forall>j<k. mset_call db req enq j = Inl (DatabaseModified None)) \<and> mset_call db req enq k = Inr m"
  have "enquire_loop 9 (mset_call db req enq) 0 = enquire_loop (9 - k) (mset_call db req enq) k"
    using enquire_retry [of k "mset_call db req enq" 0 9] k m by simp
  also have "\<dots> = Inr m" using m by (cases "9 - k") simp_all
  finally show "fst (enquire_mset db req enq) = Inr m" by (simp only: enquire_mset_calls)
next
  assume m: "\<forall>j<10. mset_call db req enq j = Inl (DatabaseModified None)"
  have "enquire_loop 9 (mset_call db req enq) 0 = enquire_loop 0 (mset_call db req enq) 9"
    using enquire_retry [of 9 "mset_call db req enq" 0 9] m by simp
  also have "\<dots> = Inl (DatabaseModified None)" using m by simp
  finally show "fst (enquire_mset db req enq) = Inl (DatabaseModified None)" by (simp only: enquire_mset_calls)
qed

theorem enquire_mset_ten_witness:
  "fst (enquire_mset (xapian_sample (\<lambda>k. Inl DocNotFound) (\<lambda>k. if k = 9
      then Inr \<lparr>ms_docs = [], ms_estimated = 5\<rparr> else Inl (DatabaseModified None))) req_sample
      \<lparr>e_order = BoolWeight True, e_query = MatchNothing, e_collapse = None\<rparr>)
    = Inr \<lparr>ms_docs = [], ms_estimated = 5\<rparr>"
  using enquire_mset_ten [of "xapian_sample (\<lambda>k. Inl DocNotFound) (\<lambda>k. if k = 9
      then Inr \<lparr>ms_docs = [], ms_estimated = 5\<rparr> else Inl (DatabaseModified None))" req_sample
      "\<lparr>e_order = BoolWeight True, e_query = MatchNothing, e_collapse = None\<rparr>", THEN conjunct1, rule_format,
      of 9 "\<lparr>ms_docs = [], ms_estimated = 5\<rparr>"]
  by (simp add: xapian_sample_def mset_call_def)

end
