(* ===== verification/Cidx_Spec.thy ===== *)
theory Cidx_Spec
  imports Cidx Xh_Query_Spec
begin

text \<open>
  Properties of the code-search dumps: the scan of a term list against a filter, the lengths of
  prefixes, the retries, the file of root commits against the map it stands for, and what the
  client receives.
\<close>

subsection \<open>Scanning terms\<close>

definition wanted :: "string \<Rightarrow> nat \<Rightarrow> string \<Rightarrow> bool" where
  "wanted pfx term_len tn \<longleftrightarrow> starts_with tn pfx \<and> (term_len = 0 \<or> length tn - length pfx = term_len)"

lemma starts_with_upto:
  "str_le t u \<Longrightarrow> \<not> str_less t pfx \<Longrightarrow> \<not> starts_with t pfx \<Longrightarrow> \<not> starts_with u pfx"
  using starts_with_between by (auto simp: str_le_def)

lemma filter_wanted_none:
  assumes "\<forall>u\<in>set us. str_le t u" "\<not> str_less t pfx" "\<not> starts_with t pfx"
  shows "filter (wanted pfx n) us = []"
  using assms starts_with_upto by (auto simp: wanted_def filter_empty_conv)

lemma scan_terms_filter:
  assumes "sorted_wrt str_le ts" "\<forall>t\<in>set ts. \<not> str_less t pfx"
  shows "fst (scan_terms pfx n ts x) = map (\<lambda>t. cstr_from t (length pfx)) (filter (wanted pfx n) ts)"
  using assms
proof (induction ts)
  case (Cons t ts)
  show ?case
  proof (cases "starts_with t pfx")
    case True
    then show ?thesis using Cons by (auto simp: wanted_def)
  next
    case False
    then have "filter (wanted pfx n) ts = []" using Cons.prems by (intro filter_wanted_none [of _ t]) auto
    moreover have "\<not> wanted pfx n t" using False by (simp add: wanted_def)
    ultimately show ?thesis using False by simp
  qed
qed simp

lemma scan_terms_end: "snd (scan_terms pfx n ts x) = (if list_all (\<lambda>t. starts_with t pfx) ts then x else None)"
  by (induction ts) auto

lemma filter_skip_to: "filter (wanted pfx n) (skip_to pfx terms) = filter (wanted pfx n) terms"
proof -
  obtain before where b: "terms = before @ skip_to pfx terms" "\<forall>t\<in>set before. \<not> starts_with t pfx"
    using skip_to_split by blast
  then have "filter (wanted pfx n) before = []" by (auto simp: wanted_def filter_empty_conv)
  then show ?thesis using b(1) by (metis append_Nil filter_append)
qed

lemma sorted_skip_to: "sorted_wrt str_le terms \<Longrightarrow> sorted_wrt str_le (skip_to pfx terms)"
  unfolding skip_to_def by (rule sorted_wrt_dropWhile)

lemma scan_skip_to:
  assumes "sorted_wrt str_le terms"
  shows "fst (scan_terms pfx n (skip_to pfx terms) x) = map (\<lambda>t. cstr_from t (length pfx)) (filter (wanted pfx n) terms)"
  using scan_terms_filter [OF sorted_skip_to [OF assms], of pfx pfx n x] dropWhile_less [OF assms, of pfx]
  by (simp add: filter_skip_to skip_to_def [symmetric])

text \<open>A list cut short: either the loop ends before the cut and nothing is missing, or the exception shows.\<close>

lemma filter_take_subset: "set (filter P (take m xs)) \<subseteq> set (filter P xs)"
  by (auto dest: in_set_takeD)

lemma scan_cut:
  assumes "sorted_wrt str_le terms" "snd (scan_terms pfx n (skip_to pfx (take m terms)) (Some e)) = None"
  shows "filter (wanted pfx n) (take m terms) = filter (wanted pfx n) terms"
proof -
  have "\<not> list_all (\<lambda>t. starts_with t pfx) (skip_to pfx (take m terms))"
    using assms(2) unfolding scan_terms_end by (metis option.distinct(1))
  then obtain t where t: "t \<in> set (skip_to pfx (take m terms))" "\<not> starts_with t pfx"
    unfolding list_all_iff by blast
  have st: "sorted_wrt str_le (take m terms)" using assms(1) by (rule sorted_wrt_take)
  have "\<not> str_less t pfx" using t(1) dropWhile_less [OF st, of pfx] unfolding skip_to_def by blast
  moreover have "t \<in> set (take m terms)" using t(1) unfolding skip_to_def by (rule set_dropWhileD)
  then have "\<forall>u\<in>set (drop m terms). str_le t u"
    using assms(1) sorted_wrt_append [of str_le "take m terms" "drop m terms"] unfolding append_take_drop_id by blast
  ultimately have "filter (wanted pfx n) (drop m terms) = []" using t(2) filter_wanted_none by blast
  then show ?thesis by (metis append_take_drop_id append_Nil2 filter_append)
qed

definition term_lines :: "(string \<Rightarrow> string) \<Rightarrow> string \<times> nat \<Rightarrow> string list \<Rightarrow> string list" where
  "term_lines line p terms =
     map (\<lambda>t. line (cstr_from t (length (fst p)))) (filter (wanted (fst p) (snd p)) terms)"

lemma dump_term_lines:
  assumes "sorted_wrt str_le terms"
  shows "fst (dump_ibx_term ibx_id p (terms, x)) = term_lines (\<lambda>t. t @ '' '' @ ibx_id @ [CHR 0x0A]) p terms"
    "fst (dump_roots_term offs p (terms, x)) = term_lines (\<lambda>t. t @ offs) p terms"
  using scan_skip_to [OF assms, of "fst p" "snd p" x]
  by (cases p; simp add: dump_ibx_term_def dump_roots_term_def term_lines_def)+

lemma dump_ibx_term_end:
  "snd (dump_ibx_term ibx_id p (terms, x)) = snd (scan_terms (fst p) (snd p) (skip_to (fst p) terms) x)"
  by (simp add: dump_ibx_term_def case_prod_unfold)

lemma dump_ibx_term_full:
  assumes "sorted_wrt str_le terms"
  shows "dump_ibx_term ibx_id p (terms, None) = (term_lines (\<lambda>t. t @ '' '' @ ibx_id @ [CHR 0x0A]) p terms, None)"
  using dump_term_lines(1) [OF assms, of ibx_id p None] dump_ibx_term_end [of ibx_id p terms None]
  by (simp add: prod_eq_iff scan_terms_end)

text \<open>
  C23: on the ascending terms of a document, the scan that skips to the prefix and stops at the
  first other term prints exactly the terms that have the prefix and the wanted length, each
  once, in order and without the prefix, both for \<open>dump_ibx\<close> and for \<open>dump_roots\<close>; and it ends
  normally unless the iterator throws.
\<close>

theorem dump_terms_exact:
  assumes "sorted_wrt str_le terms"
  shows "dump_ibx_term ibx_id (pfx, n) (terms, None) =
      (map (\<lambda>t. cstr_from t (length pfx) @ '' '' @ ibx_id @ [CHR 0x0A])
        (filter (\<lambda>t. starts_with t pfx \<and> (n = 0 \<or> length t - length pfx = n)) terms), None)
    \<and> dump_roots_term offs (pfx, n) (terms, None) =
      (map (\<lambda>t. cstr_from t (length pfx) @ offs)
        (filter (\<lambda>t. starts_with t pfx \<and> (n = 0 \<or> length t - length pfx = n)) terms), None)"
  using dump_term_lines [OF assms, of _ "(pfx, n)" None] scan_terms_end [of pfx n _ None]
  by (simp add: prod_eq_iff term_lines_def wanted_def [abs_def]) (simp add: dump_ibx_term_def dump_roots_term_def)

theorem dump_terms_exact_witness:
  "sorted_wrt str_le [''Ga'', ''Pab'', ''Pabc'', ''Tc'']
   \<and> dump_roots_term '' 1'' (''P'', 2) ([''Ga'', ''Pab'', ''Pabc'', ''Tc''], None) = ([''ab 1''], None)"
proof -
  have s: "sorted_wrt str_le [''Ga'', ''Pab'', ''Pabc'', ''Tc'']" by (simp add: str_le_def chr_code_def)
  show ?thesis using dump_terms_exact [OF s, of _ "''P''" 2 "'' 1''"] s
    by (simp add: starts_with_def cstr_from_def NUL_def)
qed

subsection \<open>Lengths of prefixes\<close>

lemma term_length_loop_skip:
  assumes "list_all (\<lambda>c. \<not> c_isdigit c \<and> c \<noteq> CHR 0x00) base"
  shows "j \<le> length base \<Longrightarrow> term_length_loop (base @ ds) j = term_length_loop (base @ ds) (length base)"
proof (induction "length base - j" arbitrary: j)
  case (Suc n)
  then have j: "j < length base" by simp
  then have "\<not> c_isdigit (chr_at (base @ ds) j)" "chr_at (base @ ds) j \<noteq> CHR 0x00"
    using assms by (auto simp: list_all_length chr_at_def nth_append)
  then have "term_length_loop (base @ ds) j = term_length_loop (base @ ds) (Suc j)"
    by (subst term_length_loop.simps) simp
  also have "\<dots> = term_length_loop (base @ ds) (length base)" using Suc j by (intro Suc.hyps) auto
  finally show ?case .
qed simp

lemma term_length_loop_digits:
  assumes "base \<noteq> []" "0 < k" "n < 10 ^ k" "int n < SIZE_MAX"
  shows "term_length_loop (base @ dec_fix k n) (length base) = (base, int n, [])"
proof -
  have at: "c_isdigit (chr_at (dec_fix k n) 0)" using assms(2) by (rule chr_at_dec_fix)
  then have "chr_at (dec_fix k n) 0 \<noteq> CHR 0x00" by auto
  moreover have "strtoul (dec_fix k n) = (int n, k)"
    using strtoul_dec_fix [OF assms(2,3), of "[]"] assms(4) by (simp add: SIZE_MAX_def)
  moreover have "chr_at (dec_fix k n) k = CHR 0x00" by (simp add: chr_at_def)
  ultimately show ?thesis
    using assms(1,4) at by (subst term_length_loop.simps) simp
qed

text \<open>
  A prefix without digits followed by a decimal number is split into the prefix and the
  number; a prefix without digits is kept, with length 0.
\<close>

theorem term_length_extract_correct:
  assumes "base \<noteq> []" "list_all (\<lambda>c. \<not> c_isdigit c \<and> c \<noteq> CHR 0x00) base" "0 < k" "n < 10 ^ k" "int n < SIZE_MAX"
  shows "term_length_extract [base @ dec_fix k n, base] = [(base, int n), (base, 0)]"
proof -
  have "term_length_loop (base @ []) 0 = (base, 0, [])"
    using term_length_loop_skip [OF assms(2), of 0 "[]"]
    by (simp add: term_length_loop.simps [of base "length base"] chr_at_def)
  then show ?thesis
    using term_length_loop_skip [OF assms(2), of 0 "dec_fix k n"] term_length_loop_digits [OF assms(1,3-5)]
    by (simp add: term_length_extract_def)
qed

theorem term_length_extract_correct_witness:
  "dec_fix 2 40 = ''40'' \<and> term_length_extract [''XDFPOST40'', ''XDFPOST''] = [(''XDFPOST'', 40), (''XDFPOST'', 0)]"
proof -
  have "dec_fix 2 40 = ''40''" by code_simp
  then show ?thesis
    using term_length_extract_correct [of "''XDFPOST''" 2 40]
    by (simp add: c_isdigit_def chr_code_def SIZE_MAX_def)
qed

text \<open>
  A prefix that begins with a digit is not treated like the regular expression of the
  comment says (all trailing digits are the length): the first digit is kept as the prefix.
\<close>

theorem term_length_extract_leading_digit:
  "term_length_extract [''123''] = [(''1'', 23)]"
proof -
  have "strtoul ''123'' = (123, 3)" "strtoul ''23'' = (23, 2)" by code_simp+
  then show ?thesis
    by (simp add: term_length_extract_def term_length_loop.simps [of _ 0] term_length_loop.simps [of _ "Suc 0"]
        c_isdigit_def chr_code_def SIZE_MAX_def)
qed

subsection \<open>Retries\<close>

text \<open>
  A read of a document with the given terms that may be cut short by a modification of the
  database, at its start or while any of its term lists is traversed.
\<close>

definition read_upto :: "string list \<Rightarrow> termlist \<Rightarrow> bool" where
  "read_upto terms ts \<longleftrightarrow> ts = (terms, None) \<or> (\<exists>m. ts = (take m terms, Some (DatabaseModified None)))"

definition doc_read_upto :: "string list \<Rightarrow> doc_ret \<Rightarrow> bool" where
  "doc_read_upto terms d \<longleftrightarrow>
     d = Raise (DatabaseModified None) \<or> (\<exists>tls vals. d = Doc tls vals \<and> (\<forall>k. read_upto terms (tls k)))"

abbreviation ibx_lines :: "string \<Rightarrow> string list \<Rightarrow> (string \<times> nat) list \<Rightarrow> string list" where
  "ibx_lines ibx_id terms ps \<equiv> concat (map (\<lambda>p. term_lines (\<lambda>t. t @ '' '' @ ibx_id @ [CHR 0x0A]) p terms) ps)"

lemma dump_ibx_term_upto:
  assumes "sorted_wrt str_le terms" "read_upto terms ts" "dump_ibx_term ibx_id p ts = (out, x)"
  shows "set out \<subseteq> set (ibx_lines ibx_id terms [p])"
    "x = None \<Longrightarrow> out = ibx_lines ibx_id terms [p]" "x = None \<or> x = Some (DatabaseModified None)"
proof -
  consider "ts = (terms, None)" | m where "ts = (take m terms, Some (DatabaseModified None))"
    using assms(2) by (auto simp: read_upto_def)
  then have "set out \<subseteq> set (ibx_lines ibx_id terms [p]) \<and> (x = None \<longrightarrow> out = ibx_lines ibx_id terms [p])
      \<and> (x = None \<or> x = Some (DatabaseModified None))"
  proof cases
    case 1
    then show ?thesis using dump_ibx_term_full [OF assms(1), of ibx_id p] assms(3) by simp
  next
    case (2 m)
    have out: "out = term_lines (\<lambda>t. t @ '' '' @ ibx_id @ [CHR 0x0A]) p (take m terms)"
      using dump_term_lines(1) [OF sorted_wrt_take [OF assms(1)], of ibx_id p m "Some (DatabaseModified None)"] assms(3) 2
      by simp
    have x: "x = snd (scan_terms (fst p) (snd p) (skip_to (fst p) (take m terms)) (Some (DatabaseModified None)))"
      using assms(3) 2 dump_ibx_term_end by (metis snd_conv)
    then have "x = None \<or> x = Some (DatabaseModified None)" by (simp add: scan_terms_end)
    moreover have "x = None \<longrightarrow> filter (wanted (fst p) (snd p)) (take m terms) = filter (wanted (fst p) (snd p)) terms"
      using x scan_cut [OF assms(1)] by metis
    moreover have "set (filter (wanted (fst p) (snd p)) (take m terms)) \<subseteq> set (filter (wanted (fst p) (snd p)) terms)"
      by (rule filter_take_subset)
    ultimately show ?thesis unfolding out term_lines_def by auto
  qed
  then show "set out \<subseteq> set (ibx_lines ibx_id terms [p])" "x = None \<Longrightarrow> out = ibx_lines ibx_id terms [p]"
    "x = None \<or> x = Some (DatabaseModified None)" by auto
qed

lemma dump_prefixes_upto:
  assumes "sorted_wrt str_le terms" "\<forall>k. read_upto terms (tls k)" "dump_prefixes (dump_ibx_term ibx_id) tls ps k = (out, x)"
  shows "set out \<subseteq> set (ibx_lines ibx_id terms ps) \<and> (x = None \<longrightarrow> out = ibx_lines ibx_id terms ps)
    \<and> (x = None \<or> x = Some (DatabaseModified None))"
  using assms(3)
proof (induction ps arbitrary: k out)
  case (Cons p ps)
  obtain o1 x1 where t: "dump_ibx_term ibx_id p (tls k) = (o1, x1)" by fastforce
  note t1 = dump_ibx_term_upto [OF assms(1) assms(2) [rule_format] t]
  show ?case
  proof (cases x1)
    case None
    obtain o2 where r: "dump_prefixes (dump_ibx_term ibx_id) tls ps (Suc k) = (o2, x)" "out = o1 @ o2"
      using Cons.prems t None by (auto simp: map_prod_def split: prod.splits)
    show ?thesis using Cons.IH [OF r(1)] t1(1,2) None r(2) by auto
  next
    case (Some e)
    then show ?thesis using Cons.prems t t1(1,3) by auto
  qed
qed simp

lemma dump_ibx_iter_upto:
  assumes "sorted_wrt str_le terms" "doc_read_upto terms d" "dump_ibx_iter ps ibx_id d = (out, r)"
  shows "set out \<subseteq> set (ibx_lines ibx_id terms ps)"
    "r = Iter ITER_OK \<and> out = ibx_lines ibx_id terms ps \<or> r = Iter ITER_RETRY"
proof -
  consider "d = Raise (DatabaseModified None)" | tls vals where "d = Doc tls vals" "\<forall>k. read_upto terms (tls k)"
    using assms(2) by (auto simp: doc_read_upto_def)
  then have "set out \<subseteq> set (ibx_lines ibx_id terms ps)
      \<and> (r = Iter ITER_OK \<and> out = ibx_lines ibx_id terms ps \<or> r = Iter ITER_RETRY)"
  proof cases
    case 1
    then show ?thesis using assms(3) by (auto simp: dump_ibx_iter_def)
  next
    case 2
    obtain x where "dump_prefixes (dump_ibx_term ibx_id) tls ps 0 = (out, x)" "r = iter_catch x"
      using assms(3) 2(1) by (auto simp: dump_ibx_iter_def map_prod_def split: prod.splits)
    then show ?thesis using dump_prefixes_upto [OF assms(1) 2(2), of ibx_id ps 0 out x] by auto
  qed
  then show "set out \<subseteq> set (ibx_lines ibx_id terms ps)"
    "r = Iter ITER_OK \<and> out = ibx_lines ibx_id terms ps \<or> r = Iter ITER_RETRY" by auto
qed

lemma dump_retry_upto:
  assumes "sorted_wrt str_le terms" "\<forall>k. doc_read_upto terms (get k)" "dump_retry (dump_ibx_iter ps ibx_id) get t k = (out, r)"
  shows "r = None \<and> set out \<subseteq> set (ibx_lines ibx_id terms ps)
    \<and> ((\<exists>j<t. snd (dump_ibx_iter ps ibx_id (get (k + j))) = Iter ITER_OK) \<longrightarrow> set out = set (ibx_lines ibx_id terms ps))"
  using assms(3)
proof (induction t arbitrary: k out)
  case (Suc t)
  obtain o1 r1 where i: "dump_ibx_iter ps ibx_id (get k) = (o1, r1)" by fastforce
  note i1 = dump_ibx_iter_upto [OF assms(1) assms(2) [rule_format] i]
  show ?case
  proof (cases "r1 = Iter ITER_OK")
    case True
    then show ?thesis using Suc.prems i i1 by auto
  next
    case False
    then have r1: "r1 = Iter ITER_RETRY" using i1(2) by blast
    obtain o2 where o2: "dump_retry (dump_ibx_iter ps ibx_id) get t (Suc k) = (o2, r)" "out = o1 @ o2"
      using Suc.prems i r1 by (auto simp: map_prod_def split: prod.splits)
    have "\<exists>j<t. snd (dump_ibx_iter ps ibx_id (get (Suc k + j))) = Iter ITER_OK"
      if "\<exists>j<Suc t. snd (dump_ibx_iter ps ibx_id (get (k + j))) = Iter ITER_OK"
      using that i r1 by (metis (no_types, lifting) False add_Suc_right add_Suc_shift less_Suc_eq_0_disj nat_arith.rule0 snd_conv)
    then show ?thesis using Suc.IH [OF o2(1)] i1(1) o2(2) by auto
  qed
qed simp

text \<open>
  A document is read at most ten times while the database is being modified.  Reads that are
  cut short only ever print lines of the document, possibly again, so that the set of lines is
  that of an undisturbed read as soon as one of the ten reads comes through; otherwise the
  document is passed over without an error.
\<close>

theorem dump_retry_ten:
  assumes "sorted_wrt str_le terms" "\<forall>k. doc_read_upto terms (get k)"
  shows "snd (dump_retry (dump_ibx_iter ps ibx_id) get 10 0) = None
    \<and> set (fst (dump_retry (dump_ibx_iter ps ibx_id) get 10 0))
        \<subseteq> set (fst (dump_ibx_iter ps ibx_id (Doc (\<lambda>k. (terms, None)) vals)))
    \<and> ((\<exists>j<10. snd (dump_ibx_iter ps ibx_id (get j)) = Iter ITER_OK) \<longrightarrow>
        set (fst (dump_retry (dump_ibx_iter ps ibx_id) get 10 0))
          = set (fst (dump_ibx_iter ps ibx_id (Doc (\<lambda>k. (terms, None)) vals))))"
proof -
  have pre: "dump_prefixes (dump_ibx_term ibx_id) (\<lambda>k. (terms, None)) ps k = (ibx_lines ibx_id terms ps, None)" for k
  proof (induction ps arbitrary: k)
    case (Cons p ps)
    then show ?case using dump_ibx_term_full [OF assms(1), of ibx_id p] by simp
  qed simp
  have "fst (dump_ibx_iter ps ibx_id (Doc (\<lambda>k. (terms, None)) vals)) = ibx_lines ibx_id terms ps"
    by (simp add: dump_ibx_iter_def pre)
  then show ?thesis using dump_retry_upto [OF assms, of ps ibx_id 10 0] by (metis add_0 prod.collapse)
qed

theorem dump_retry_ten_witness:
  "set (fst (dump_retry (dump_ibx_iter [(''P'', 0)] ''7'') (\<lambda>k. if k = 3 then Doc (\<lambda>k. ([''Pab'', ''Pc''], None)) (\<lambda>k. Inl DocNotFound)
      else Doc (\<lambda>k. ([''Pab''], Some (DatabaseModified None))) (\<lambda>k. Inl DocNotFound)) 10 0))
   = {''ab 7'' @ [CHR 0x0A], ''c 7'' @ [CHR 0x0A]}"
proof -
  let ?full = "Doc (\<lambda>k. ([''Pab'', ''Pc''], None)) (\<lambda>k. Inl DocNotFound)"
  let ?get = "\<lambda>k::nat. if k = 3 then ?full else Doc (\<lambda>k. ([''Pab''], Some (DatabaseModified None))) (\<lambda>k. Inl DocNotFound)"
  have s: "sorted_wrt str_le [''Pab'', ''Pc'']" by (simp add: str_le_def chr_code_def)
  have "read_upto [''Pab'', ''Pc''] ([''Pab''], Some (DatabaseModified None))"
    unfolding read_upto_def by (intro disjI2 exI [of _ 1]) simp
  then have g: "\<forall>k. doc_read_upto [''Pab'', ''Pc''] (?get k)" by (simp add: doc_read_upto_def read_upto_def)
  have f: "dump_ibx_iter [(''P'', 0)] ''7'' ?full = ([''ab 7'' @ [CHR 0x0A], ''c 7'' @ [CHR 0x0A]], Iter ITER_OK)"
    by (simp add: dump_ibx_iter_def dump_ibx_term_def skip_to_def cstr_from_def NUL_def chr_code_def)
  have "\<exists>j<10. snd (dump_ibx_iter [(''P'', 0)] ''7'' (?get j)) = Iter ITER_OK"
    by (rule exI [of _ 3]) (simp add: f)
  then show ?thesis using dump_retry_ten [OF s g, of "[(''P'', 0)]" "''7''" "\<lambda>k. Inl DocNotFound"] f by auto
qed

subsection \<open>The map of root commits\<close>

lemma root2id_eq_iff: "root2id_eq = (=)"
proof -
  have "inj (of_char :: char \<Rightarrow> u8)"
  proof (rule injI)
    fix x y :: char assume "(of_char x :: u8) = of_char y"
    then have "unat (of_nat (of_char x) :: u8) = unat (of_nat (of_char y) :: u8)" by (simp add: of_nat_of_char)
    then show "x = y" by (simp add: unat_of_nat)
  qed
  then show ?thesis by (simp add: fun_eq_iff root2id_eq_def kh_eq_str_def inj_map_eq_map)
qed

definition root2id_lookup :: "root_bucket \<Rightarrow> root2id_map \<Rightarrow> string \<Rightarrow> string option option" where
  "root2id_lookup junk h key =
     (let i = root2id_get junk h key in if i \<ge> kh_end h then None else Some (kh_val h i))"

definition root2id_ins :: "root_bucket \<Rightarrow> root2id_map \<Rightarrow> string \<Rightarrow> string option \<Rightarrow> root2id_map option" where
  "root2id_ins junk h key v = map_option fst (cmap_insert root2id_hash (=) junk h key v)"

lemma root2id_lookup_eq: "root2id_lookup junk h = cmap_lookup root2id_hash (=) junk h"
  by (simp add: fun_eq_iff root2id_lookup_def cmap_lookup_def root2id_get_def root2id_eq_iff)

lemma cmap_wf_init [simp]: "cmap_wf hash_fn kh_init"
  by (simp add: cmap_wf_def)

interpretation root2id: finite_map_impl kh_init "root2id_lookup junk" "root2id_ins junk"
    "\<lambda>h. unat (kh_count h)" "cmap_wf root2id_hash" "3 * 2 ^ 29" for junk
proof unfold_locales
  show "root2id_lookup junk kh_init = Map.empty"
    using cmap_lookup_iff [OF cmap_wf_init, of root2id_hash junk]
    by (simp add: root2id_lookup_eq fun_eq_iff) (metis not_Some_eq)
next
  show "cmap_wf root2id_hash kh_init" by simp
next
  show "unat (kh_count kh_init) = 0" by (simp add: kh_init_def)
next
  fix m :: root2id_map and k v
  assume "cmap_wf root2id_hash m" "unat (kh_count m) < 3 * 2 ^ 29"
  then show "\<exists>m'. root2id_ins junk m k v = Some m' \<and> cmap_wf root2id_hash m'
      \<and> root2id_lookup junk m' = (root2id_lookup junk m)(k \<mapsto> v) \<and> unat (kh_count m') \<le> Suc (unat (kh_count m))"
    using cmap_insert_correct [of root2id_hash m junk k v] by (auto simp: root2id_ins_def root2id_lookup_eq)
qed

definition entries_of :: "(string \<times> string) list \<Rightarrow> string list" where
  "entries_of kvs = concat (map (\<lambda>(k, v). [k, v]) kvs)"

lemma root2id_load_ins_all:
  assumes "cmap_wf root2id_hash h" "unat (kh_count h) + length kvs \<le> 3 * 2 ^ 29" "distinct (map fst kvs)"
    "\<forall>k\<in>set (map fst kvs). root2id_lookup junk h k = None"
  shows "root2id_load junk h (entries_of kvs) =
    map_option Inr (root2id.ins_all junk h (map (\<lambda>(k, v). (k, Some v)) kvs))"
  using assms
proof (induction kvs arbitrary: h)
  case (Cons kv kvs)
  obtain k v where kv: "kv = (k, v)" by (cases kv)
  obtain h' where h': "cmap_insert root2id_hash (=) junk h k (Some v) = Some (h', 1)" "cmap_wf root2id_hash h'"
    "root2id_lookup junk h' = (root2id_lookup junk h)(k \<mapsto> Some v)" "unat (kh_count h') \<le> Suc (unat (kh_count h))"
    using cmap_insert_correct [OF Cons.prems(1), of junk k "Some v"] Cons.prems(2,4) kv
    by (auto simp: root2id_lookup_eq)
  have "root2id_load junk h (entries_of (kv # kvs)) = root2id_load junk h' (entries_of kvs)"
    using h'(1) unfolding cmap_insert_def
    by (auto simp: entries_of_def kv root2id_put_def root2id_eq_iff bind_eq_Some_conv split: prod.splits)
  moreover have "root2id_ins junk h k (Some v) = Some h'" using h'(1) by (simp add: root2id_ins_def)
  moreover have "root2id_load junk h' (entries_of kvs) =
      map_option Inr (root2id.ins_all junk h' (map (\<lambda>(k, v). (k, Some v)) kvs))"
    using Cons.prems h'(2-4) kv by (intro Cons.IH) auto
  ultimately show ?case by (simp add: kv)
qed (simp add: entries_of_def)

lemma map_of_rev_distinct:
  assumes "distinct (map fst xs)"
  shows "map_of (rev xs) = map_of xs"
proof -
  have "map_of (rev xs) k = Some v \<longleftrightarrow> map_of xs k = Some v" for k v
    using assms map_of_eq_Some_iff [of "rev xs" k v] map_of_eq_Some_iff [of xs k v] by (simp add: rev_map [symmetric])
  then show ?thesis by (intro ext option.expand) (metis not_Some_eq option.exhaust_sel)+
qed

lemma resized_init:
  assumes "m \<noteq> 0" "unat m \<le> 2 ^ 31"
  shows "\<exists>h. kh_resize cm_hash junk kh_init m = Some h \<and> cmap_wf root2id_hash h \<and> kh_count h = 0
    \<and> root2id_lookup junk h = Map.empty"
proof -
  obtain h where h: "kh_resize cm_hash junk kh_init m = Some h" "kh_wf cm_hash (cm_eq (=)) h" "kh_elems h = {}"
    "kh_count h = 0"
    using cm.resize_correct [OF kh_wf_init assms, of junk] by (auto simp: kh_init_def [where 'b = root_bucket] kh_elems_init [unfolded kh_init_def])
  then have wf: "cmap_wf root2id_hash h" by (simp add: cmap_wf_def)
  then have "root2id_lookup junk h = Map.empty"
    using cmap_lookup_iff [OF wf, of junk] h(3) by (simp add: root2id_lookup_eq fun_eq_iff) (metis not_Some_eq)
  with h wf show ?thesis by blast
qed

definition root_file :: "(string \<times> string) list \<Rightarrow> string" where
  "root_file kvs = join_args (entries_of kvs)"

definition root_pair_ok :: "string \<times> string \<Rightarrow> bool" where
  "root_pair_ok kv \<longleftrightarrow> 40 \<le> length (fst kv) \<and> 1 \<le> length (snd kv) \<and> NUL \<notin> set (fst kv) \<and> NUL \<notin> set (snd kv)"

lemma root_file_length: "\<forall>kv\<in>set kvs. root_pair_ok kv \<Longrightarrow> 43 * length kvs \<le> length (root_file kvs)"
  by (induction kvs) (auto simp: root_file_def entries_of_def join_args_def root_pair_ok_def)

lemma length_entries_of: "length (entries_of kvs) = 2 * length kvs"
  by (induction kvs) (auto simp: entries_of_def)

lemma entries_of_ok: "\<forall>kv\<in>set kvs. root_pair_ok kv \<Longrightarrow> \<forall>a\<in>set (entries_of kvs). NUL \<notin> set a"
  by (auto simp: entries_of_def root_pair_ok_def)

lemma dump_roots_load_result:
  assumes ok: "\<forall>kv\<in>set kvs. root_pair_ok kv" and ne: "kvs \<noteq> []" and d: "distinct (map fst kvs)"
    and size: "length (root_file kvs) < 2 ^ 36 - 32"
  shows "\<exists>h. dump_roots_load junk (root_file kvs) = Some (Inr h) \<and> cmap_wf root2id_hash h
    \<and> root2id_lookup junk h = map_of (map (\<lambda>(k, v). (k, Some v)) kvs)"
proof -
  let ?buf = "root_file kvs" and ?kvs = "map (\<lambda>(k, v). (k, Some v)) kvs"
  define est where "est = length ?buf div 32 + 1"
  note len = root_file_length [OF ok]
  have est: "length kvs < est" "est \<le> 2 ^ 31" "est < 2 ^ 32" using len size ne by (auto simp: est_def)
  then have n: "length kvs \<le> 3 * 2 ^ 29" using len size by auto
  obtain k v kvs' where kvs: "kvs = (k, v) # kvs'" using ne by (cases kvs) auto
  have args: "entries_of kvs \<noteq> []" "hd (entries_of kvs) \<noteq> []" using ok by (auto simp: kvs entries_of_def root_pair_ok_def)
  have lim: "length (entries_of kvs) < est * 2" "length (entries_of kvs) < 2 ^ 63"
    using est by (simp_all add: length_entries_of)
  obtain dst where dst: "split2argv ?buf (est * 2) = Inr dst" "argv_strings ?buf dst = entries_of kvs"
    using split2argv_join_args [OF args entries_of_ok [OF ok] lim] by (auto simp: root_file_def)
  have u: "unat (of_nat est :: khint) = est" using est(3) by (simp add: unat_of_nat)
  then have "(of_nat est :: khint) \<noteq> 0" using est(1) by (metis unat_0 not_less_zero)
  then obtain h0 where h0: "kh_resize cm_hash junk kh_init (of_nat est) = Some h0" "cmap_wf root2id_hash h0"
    "kh_count h0 = 0" "root2id_lookup junk h0 = Map.empty"
    using resized_init [of "of_nat est" junk] est(2) u by auto
  have load: "root2id_load junk h0 (entries_of kvs) = map_option Inr (root2id.ins_all junk h0 ?kvs)"
    using h0(2-4) n d by (intro root2id_load_ins_all) simp_all
  obtain h where h: "root2id.ins_all junk h0 ?kvs = Some h" "cmap_wf root2id_hash h"
    "root2id_lookup junk h = root2id_lookup junk h0 ++ map_of (rev ?kvs)"
    using root2id.ins_all_correct [OF h0(2), of ?kvs junk] h0(3) n by auto
  have "distinct (map fst ?kvs)" using d by (simp add: case_prod_unfold o_def)
  then have "root2id_lookup junk h = map_of ?kvs" using h(3) h0(4) by (simp add: map_of_rev_distinct)
  moreover have "dump_roots_load junk ?buf = Some (Inr h)"
    unfolding dump_roots_load_def Let_def est_def [symmetric] using est(2) dst h0(1) load h(1) by simp
  ultimately show ?thesis using h(2) by blast
qed

lemma root2id_lookup_SomeD:
  assumes "root2id_lookup junk h key = Some v"
  shows "\<not> root2id_get junk h key \<ge> kh_end h" "kh_val h (root2id_get junk h key) = v"
  using assms by (auto simp: root2id_lookup_def Let_def split: if_splits)

lemma root2offs_loop_ids:
  assumes "sorted_wrt str_le ts" "\<forall>t\<in>set ts. \<not> str_less t ''G''"
    "\<forall>t\<in>set ts. starts_with t ''G'' \<longrightarrow> NUL \<notin> set (tl t) \<and> root2id_lookup junk h (tl t) = Some (Some (ids (tl t)))"
  shows "root2offs_loop junk h ts = Inr (concat (map (\<lambda>t. '' '' @ ids (tl t)) (filter (\<lambda>t. starts_with t ''G'') ts)))"
  using assms
proof (induction ts)
  case (Cons t ts)
  show ?case
  proof (cases "starts_with t ''G''")
    case True
    then have "cstr_from t 1 = tl t" using Cons.prems(3)
      by (auto simp: cstr_from_def drop_Suc takeWhile_eq_all_conv)
    then show ?thesis using True Cons root2id_lookup_SomeD [of junk h "tl t"] by (simp add: Let_def)
  next
    case False
    then have "\<not> starts_with u ''G''" if "u \<in> set ts" for u
      using that Cons.prems(1,2) starts_with_upto [of t u "''G''"] by simp
    then show ?thesis using False by (simp add: filter_empty_conv)
  qed
qed simp

lemma dump_roots_load_ids:
  assumes "\<forall>kv\<in>set kvs. root_pair_ok kv" "kvs \<noteq> []" "distinct (map fst kvs)" "length (root_file kvs) < 2 ^ 36 - 32"
  shows "\<exists>h. dump_roots_load junk (root_file kvs) = Some (Inr h)
    \<and> (\<forall>terms. sorted_wrt str_le terms \<and> (\<forall>t\<in>set terms. starts_with t ''G'' \<longrightarrow> tl t \<in> fst ` set kvs) \<longrightarrow>
        root2offs_str junk h terms =
          Inr (concat (map (\<lambda>t. '' '' @ the (map_of kvs (tl t))) (filter (\<lambda>t. starts_with t ''G'') terms)) @ [CHR 0x0A]))"
proof -
  obtain h where h: "dump_roots_load junk (root_file kvs) = Some (Inr h)"
    "root2id_lookup junk h = map_of (map (\<lambda>(k, v). (k, Some v)) kvs)"
    using dump_roots_load_result [OF assms, of junk] by blast
  have lookup: "root2id_lookup junk h k = Some (Some (the (map_of kvs k)))" if k: "k \<in> fst ` set kvs" for k
  proof -
    obtain v where "map_of kvs k = Some v" using k by (cases "map_of kvs k") (auto simp: map_of_eq_None_iff)
    then show ?thesis by (simp add: h(2) map_of_map)
  qed
  have key: "NUL \<notin> set k" if "k \<in> fst ` set kvs" for k
    using that assms(1) by (auto simp: root_pair_ok_def)
  have "root2offs_str junk h terms =
      Inr (concat (map (\<lambda>t. '' '' @ the (map_of kvs (tl t))) (filter (\<lambda>t. starts_with t ''G'') terms)) @ [CHR 0x0A])"
    if "sorted_wrt str_le terms" "\<forall>t\<in>set terms. starts_with t ''G'' \<longrightarrow> tl t \<in> fst ` set kvs" for terms
  proof -
    let ?ts = "skip_to ''G'' terms"
    have sub: "t \<in> set terms" if "t \<in> set ?ts" for t using that unfolding skip_to_def by (rule set_dropWhileD)
    have "root2offs_loop junk h ?ts =
        Inr (concat (map (\<lambda>t. '' '' @ the (map_of kvs (tl t))) (filter (\<lambda>t. starts_with t ''G'') ?ts)))"
    proof (rule root2offs_loop_ids)
      show "sorted_wrt str_le ?ts" using that(1) by (rule sorted_skip_to)
      show "\<forall>t\<in>set ?ts. \<not> str_less t ''G''" using dropWhile_less [OF that(1)] unfolding skip_to_def .
      show "\<forall>t\<in>set ?ts. starts_with t ''G'' \<longrightarrow>
          NUL \<notin> set (tl t) \<and> root2id_lookup junk h (tl t) = Some (Some (the (map_of kvs (tl t))))"
        using that(2) sub lookup key by blast
    qed
    moreover have "filter (\<lambda>t. starts_with t ''G'') ?ts = filter (\<lambda>t. starts_with t ''G'') terms"
      using filter_skip_to [of "''G''" 0 terms] by (simp add: wanted_def [abs_def])
    ultimately show ?thesis by (simp add: root2offs_str_def)
  qed
  with h(1) show ?thesis by blast
qed

text \<open>
  C24: reading back the file of root commits (pairs of an object name and a number, each ended by a
  zero byte, without duplicates) gives a map under which every document gets the numbers of its
  root commits, in the order of its \<open>G\<close> terms.
\<close>

theorem dump_roots_load_correct:
  assumes "\<forall>kv\<in>set kvs. root_pair_ok kv" "kvs \<noteq> []" "distinct (map fst kvs)" "length (root_file kvs) < 2 ^ 36 - 32"
  shows "\<exists>h. dump_roots_load junk (root_file kvs) = Some (Inr h)
    \<and> (\<forall>terms. sorted_wrt str_le terms \<and> (\<forall>t\<in>set terms. starts_with t ''G'' \<longrightarrow> tl t \<in> fst ` set kvs) \<longrightarrow>
        root2offs_str junk h terms =
          Inr (concat (map (\<lambda>t. '' '' @ the (map_of kvs (tl t))) (filter (\<lambda>t. starts_with t ''G'') terms)) @ [CHR 0x0A]))"
  using assms by (rule dump_roots_load_ids)

definition junk_root :: root_bucket where
  "junk_root = \<lparr>cm_key = [], cm_val = None, cm_hash = 0\<rparr>"

theorem dump_roots_load_correct_witness:
  "\<exists>h. dump_roots_load junk_root (root_file [(replicate 40 CHR ''a'', ''1''), (replicate 40 CHR ''b'', ''22'')]) = Some (Inr h)
    \<and> root2offs_str junk_root h [CHR ''G'' # replicate 40 CHR ''b'', ''Tc''] = Inr ('' 22'' @ [CHR 0x0A])"
proof -
  let ?kvs = "[(replicate 40 CHR ''a'', ''1''), (replicate 40 CHR ''b'', ''22'')]"
  have ne: "replicate 40 CHR ''a'' \<noteq> replicate 40 CHR ''b''" by (simp add: replicate_eq_replicate)
  have len: "length (root_file ?kvs) < 2 ^ 36 - 32" by (simp add: root_file_def join_args_def entries_of_def)
  have "sorted_wrt str_le [CHR ''G'' # replicate 40 CHR ''b'', ''Tc'']" by (simp add: str_le_def chr_code_def)
  then show ?thesis
    using dump_roots_load_correct [of ?kvs junk_root] len ne
    by (auto simp: root_pair_ok_def NUL_def dest!: spec [of _ "[CHR ''G'' # replicate 40 CHR ''b'', ''Tc'']"])
qed

subsection \<open>What the client of a dump receives\<close>

lemma dump_roots_flush_result:
  assumes "write_contract wr" "fb_wf f" "dump_roots_flush wr cl f = Inr (ok, f', cl')"
  shows "fb_wf f' \<and> fb_content f' = []
    \<and> (if ok then cl_out cl' = cl_out cl @ fb_content f else prefix (cl_out cl') (cl_out cl @ fb_content f))"
proof (cases "fb_pos f = 0")
  case True
  then show ?thesis using assms(2,3) by (auto simp: dump_roots_flush_def fb_content_def)
next
  case False
  then obtain es where es: "flock_loop (cl_locks cl) = Inr es"
    using assms(3) by (auto simp: dump_roots_flush_def sum_bind_Inr_iff)
  obtain ok1 cl1 where w: "client_write wr (cl\<lparr>cl_locks := es\<rparr>) f = (ok1, cl1)" by fastforce
  then obtain es' where r: "client_write wr (cl\<lparr>cl_locks := es\<rparr>) f = (ok, cl1)" "f' = fseek_start f"
      "cl' = cl1\<lparr>cl_locks := es'\<rparr>"
    using assms(3) es False by (auto simp: dump_roots_flush_def sum_bind_Inr_iff)
  then show ?thesis using client_write_result [OF assms(1,2) _ r(1)] False by (auto split: if_splits)
qed

interpretation roots_writer: flushing_writer dump_roots_flush write_contract
proof unfold_locales
  fix wr cl f f' cl'
  assume a: "write_contract wr" "fb_wf f" "dump_roots_flush wr cl f = Inr (True, f', cl')"
  show "fb_wf f' \<and> fb_content f' = [] \<and> cl_out cl' = cl_out cl @ fb_content f"
    using dump_roots_flush_result [OF a] by simp
next
  fix wr cl f f' cl'
  assume a: "write_contract wr" "fb_wf f" "dump_roots_flush wr cl f = Inr (False, f', cl')"
  show "prefix (cl_out cl') (cl_out cl @ fb_content f)"
    using dump_roots_flush_result [OF a] by simp
qed

definition docs_out :: "(doc_ret \<Rightarrow> string list \<times> iter_ret) \<Rightarrow> mset_doc list \<Rightarrow> string" where
  "docs_out iter ds = concat (map (\<lambda>d. concat (fst (dump_retry iter (md_read d) 10 0))) ds)"

lemma docs_out_Cons: "docs_out iter (d # ds) = concat (fst (dump_retry iter (md_read d) 10 0)) @ docs_out iter ds"
  by (simp add: docs_out_def)

lemma dump_retry_not_true: "snd (dump_retry iter get t k) \<noteq> Some (Returned True)"
  by (induction t arbitrary: k) (auto split: prod.splits iter_ret.splits exc_iter.splits)

lemma dump_roots_loop_stream:
  assumes "write_contract wr" "roots_writer.streamed all cl f"
    "dump_roots_loop iter wr ds nr cl f = (r, nr', cl', f')"
  shows "(r = None \<longrightarrow> roots_writer.streamed (all @ docs_out iter ds) cl' f')
    \<and> prefix (cl_out cl') (all @ docs_out iter ds) \<and> r \<noteq> Some (Returned True)"
  using assms(2,3)
proof (induction ds arbitrary: nr cl f all)
  case Nil
  then show ?case using roots_writer.streamed_prefix by (auto simp: docs_out_def)
next
  case (Cons d ds)
  obtain out x where o: "dump_retry iter (md_read d) 10 0 = (out, x)" by fastforce
  let ?f = "fputs (concat out) f" and ?nr = "nr + length out"
  have st: "roots_writer.streamed (all @ concat out) cl ?f" using Cons.prems(1) by (rule roots_writer.streamed_put)
  have eq: "all @ docs_out iter (d # ds) = (all @ concat out) @ docs_out iter ds" by (simp add: docs_out_Cons o)
  have pre: "prefix (cl_out cl') ((all @ concat out) @ docs_out iter ds)" if "prefix (cl_out cl') (all @ concat out)"
    using that by (rule prefix_prefix)
  consider y where "x = Some y" | "x = None" "?nr mod 16384 \<noteq> 0"
    | a where "x = None" "?nr mod 16384 = 0" "dump_roots_flush wr cl ?f = Inl a"
    | ok f1 cl1 where "x = None" "?nr mod 16384 = 0" "dump_roots_flush wr cl ?f = Inr (ok, f1, cl1)"
    by (cases x; cases "dump_roots_flush wr cl ?f"; cases "?nr mod 16384 = 0") auto
  then show ?case
  proof cases
    case 1
    then show ?thesis
      using Cons.prems(2) o pre roots_writer.streamed_prefix [OF st] dump_retry_not_true [of iter "md_read d" 10 0]
      unfolding eq by auto
  next
    case 2
    then have "dump_roots_loop iter wr ds ?nr cl ?f = (r, nr', cl', f')" using Cons.prems(2) o by simp
    from Cons.IH [OF st this] show ?thesis unfolding eq .
  next
    case 3
    then show ?thesis using Cons.prems(2) o pre roots_writer.streamed_prefix [OF st] unfolding eq by auto
  next
    case 4
    show ?thesis
    proof (cases ok)
      case True
      then have "dump_roots_flush wr cl ?f = Inr (True, f1, cl1)" using 4 by simp
      then have "roots_writer.streamed (all @ concat out) cl1 f1"
        by (rule roots_writer.streamed_flush [OF assms(1) st])
      moreover have "dump_roots_loop iter wr ds ?nr cl1 f1 = (r, nr', cl', f')" using Cons.prems(2) o 4 True by simp
      ultimately show ?thesis unfolding eq by (rule Cons.IH)
    next
      case False
      then show ?thesis using Cons.prems(2) o 4 pre roots_writer.streamed_fail [OF assms(1) st] unfolding eq by auto
    qed
  qed
qed

lemma req_prefixes_cong: "pfxv r = pfxv r' \<Longrightarrow> req_prefixes (set_lengths r) = req_prefixes (set_lengths r')"
  by (simp add: req_prefixes_def set_lengths_def Let_def)

lemma pfxv_commit_mset: "commit_mset db r q = (x, r') \<Longrightarrow> pfxv r' = pfxv r"
  by (auto simp: commit_mset_def enquire_mset_def Let_def split: sum.splits if_splits)


definition root_kvs :: "(string \<times> string) list" where
  "root_kvs = [(replicate 40 CHR ''a'', ''1'')]"

definition root_doc :: mset_doc where
  "root_doc = \<lparr>md_docid = 1, md_percent = 100, md_rank = 0,
     md_read = (\<lambda>k. Doc (\<lambda>j. ([CHR ''G'' # replicate 40 CHR ''a'', ''Pab''], None)) (\<lambda>s. Inl DocNotFound))\<rparr>"

definition root_xapian :: xapian where
  "root_xapian = xapian_sample (\<lambda>k. Inr None) (\<lambda>k. Inr \<lparr>ms_docs = [root_doc], ms_estimated = 1\<rparr>)"

definition root_req :: req where
  "root_req = req_sample\<lparr>argv := [''dump_roots'', ''file'', ''q''], pfxv := [''P'']\<rparr>"

definition client0 :: client where
  "client0 = \<lparr>cl_out = [], cl_calls = 0, cl_locks = [0, 0]\<rparr>"

lemma root_kvs_ok: "\<forall>kv\<in>set root_kvs. root_pair_ok kv" "root_kvs \<noteq> []" "distinct (map fst root_kvs)"
    "length (root_file root_kvs) < 2 ^ 36 - 32"
  by (simp_all add: root_kvs_def root_pair_ok_def NUL_def root_file_def join_args_def entries_of_def)

lemma root_prefixes: "req_prefixes (set_lengths root_req) = [(''P'', 0)]"
proof -
  have "term_length_extract [''P''] = [(''P'', 0)]"
    by (simp add: term_length_extract_def term_length_loop.simps [of _ 0] term_length_loop.simps [of _ "Suc 0"]
        c_isdigit_def chr_code_def)
  then show ?thesis by (simp add: root_req_def set_lengths_def req_prefixes_def)
qed


end
