(* ===== verification/Xh_Mset.thy ===== *)
theory Xh_Mset
  imports Xh_Query_Spec Fbuf
begin

text \<open>
  \<open>cmd_mset\<close> of \<open>xh_mset.h\<close>: the queries are tried in turn until one has results, and the matches are
  written through a buffer that is flushed when it exceeds a threshold.
\<close>

subsection \<open>Model\<close>

definition WBUF_FLUSH_THRESHOLD :: "nat \<Rightarrow> nat" where
  "WBUF_FLUSH_THRESHOLD BUFSIZ = (if BUFSIZ < 1000 then BUFSIZ else BUFSIZ - 1000)"

definition req_search :: "xapian \<Rightarrow> req \<Rightarrow> string \<Rightarrow> (xexn + mset) \<times> req" where
  "req_search db req qry_str = (if code_search req then commit_mset db req qry_str else mail_mset db req qry_str)"

definition empty_mset :: mset where
  "empty_mset = \<lparr>ms_docs = [], ms_estimated = 0\<rparr>"

definition is_xapian_error :: "xexn \<Rightarrow> bool" where
  "is_xapian_error x = (case x of StdException e \<Rightarrow> False | _ \<Rightarrow> True)"

text \<open>The \<open>do\<close> loop: \<open>qs\<close> are the arguments from \<open>optind\<close> on, \<open>cur\<close> the value of \<open>mset\<close>.\<close>

fun mset_queries :: "xapian \<Rightarrow> string list \<Rightarrow> mset \<Rightarrow> req \<Rightarrow> (xexn + mset) \<times> req" where
  "mset_queries db [] cur req = (Inr cur, req)"
| "mset_queries db (qry_str # qs) cur req =
     (case req_search db (req\<lparr>optind := optind req + 1\<rparr>) qry_str of
        (Inr ms, req) \<Rightarrow> if ms_docs ms = [] \<and> qs \<noteq> [] then mset_queries db qs ms req else (Inr ms, req)
      | (Inl x, req) \<Rightarrow> if qs = [] \<or> \<not> is_xapian_error x then (Inl x, req) else mset_queries db qs cur req)"

definition mset_header :: "mset \<Rightarrow> string" where
  "mset_header ms =
     ''mset.size='' @ dec_str (length (ms_docs ms)) @ '' .get_matches_estimated='' @ dec_str (ms_estimated ms) @ [CHR 0x0A]"

definition mset_line :: "mset_doc \<Rightarrow> string" where
  "mset_line d = dec_str (md_docid d) @ [NUL] @ dec_str (md_percent d) @ [NUL] @ dec_str (md_rank d) @ [CHR 0x0A]"

definition mset_flush :: "(nat \<Rightarrow> nat \<Rightarrow> int) \<Rightarrow> client \<Rightarrow> fbuf \<Rightarrow> abort + bool \<times> fbuf \<times> client" where
  "mset_flush wr cl f =
     (let (ok, cl) = client_write wr cl f in Inr (ok, if ok then fseek_start f else f, cl))"

fun mset_loop :: "nat \<Rightarrow> (nat \<Rightarrow> nat \<Rightarrow> int) \<Rightarrow> mset_doc list \<Rightarrow> client \<Rightarrow> fbuf \<Rightarrow> abort + bool \<times> fbuf \<times> client" where
  "mset_loop thr wr [] cl f = Inr (True, f, cl)"
| "mset_loop thr wr (d # ds) cl f =
     sum_bind (if fb_pos f > thr then mset_flush wr cl f else Inr (True, f, cl)) (\<lambda>(ok, f, cl).
       if ok then mset_loop thr wr ds cl (fputs (mset_line d) f) else Inr (False, f, cl))"

definition cmd_mset :: "nat \<Rightarrow> xapian \<Rightarrow> (nat \<Rightarrow> nat \<Rightarrow> int) \<Rightarrow> req \<Rightarrow> client \<Rightarrow> abort + client \<times> (xexn + bool)" where
  "cmd_mset bufsiz db wr req cl =
     (if optind req \<ge> length (argv req) then Inl (Usage ''mset [OPTIONS] WANT QRY_STR'')
      else
        case mset_queries db (drop (optind req) (argv req)) empty_mset req of
          (Inl x, req) \<Rightarrow> Inr (cl, Inl x)
        | (Inr ms, req) \<Rightarrow>
            sum_bind (mset_loop (WBUF_FLUSH_THRESHOLD bufsiz) wr (ms_docs ms) cl (fputs (mset_header ms) fbuf_init))
              (\<lambda>(ok, f, cl).
                if \<not> ok then Inr (cl, Inr False)
                else if fb_pos f > 0 then (case client_write wr cl f of (ok, cl) \<Rightarrow> Inr (cl, Inr ok))
                else Inr (cl, Inr True)))"

subsection \<open>Buffered output\<close>

lemma mset_flush_result:
  assumes "write_contract wr" "fb_wf f" "mset_flush wr cl f = Inr (ok, f', cl')"
  shows "if ok then fb_wf f' \<and> fb_content f' = [] \<and> cl_out cl' = cl_out cl @ fb_content f
    else prefix (cl_out cl') (cl_out cl @ fb_content f)"
proof (cases "0 < fb_pos f")
  case True
  then show ?thesis
    using client_write_result [OF assms(1,2) True] assms(3) by (auto simp: mset_flush_def split: prod.splits if_splits)
next
  case False
  have "nat (wr i 0) \<le> 0" for i using assms(1) by (rule write_contractD)
  then have "\<not> 0 < wr i 0" for i by (simp add: not_less)
  then show ?thesis
    using assms(3) False by (auto simp: mset_flush_def client_write_def write_all.simps [of wr _ _ 0] Let_def split: if_splits)
qed

interpretation mset_writer: flushing_writer mset_flush write_contract
proof unfold_locales
  fix wr cl f f' cl'
  assume a: "write_contract wr" "fb_wf f" "mset_flush wr cl f = Inr (True, f', cl')"
  show "fb_wf f' \<and> fb_content f' = [] \<and> cl_out cl' = cl_out cl @ fb_content f"
    using mset_flush_result [OF a] by simp
next
  fix wr cl f f' cl'
  assume a: "write_contract wr" "fb_wf f" "mset_flush wr cl f = Inr (False, f', cl')"
  show "prefix (cl_out cl') (cl_out cl @ fb_content f)"
    using mset_flush_result [OF a] by simp
qed

lemma mset_loop_stream:
  assumes "write_contract wr" "mset_writer.streamed all cl f" "mset_loop thr wr ds cl f = Inr (ok, f', cl')"
  shows "if ok then mset_writer.streamed (all @ concat (map mset_line ds)) cl' f'
    else prefix (cl_out cl') (all @ concat (map mset_line ds))"
  using assms(2,3)
proof (induction ds arbitrary: cl f all)
  case (Cons d ds)
  let ?fl = "if fb_pos f > thr then mset_flush wr cl f else Inr (True, f, cl)"
  obtain ok1 f1 cl1 where fl: "?fl = Inr (ok1, f1, cl1)"
    by (cases "client_write wr cl f"; cases "fb_pos f > thr") (auto simp: mset_flush_def)
  show ?case
  proof (cases ok1)
    case True
    have "mset_writer.streamed all cl1 f1"
      using fl True Cons.prems(1) mset_writer.streamed_flush [OF assms(1) Cons.prems(1), of f1 cl1] by (auto split: if_splits)
    then have "mset_writer.streamed (all @ mset_line d) cl1 (fputs (mset_line d) f1)" by (rule mset_writer.streamed_put)
    moreover have "mset_loop thr wr ds cl1 (fputs (mset_line d) f1) = Inr (ok, f', cl')"
      using Cons.prems(2) fl True by simp
    ultimately show ?thesis using Cons.IH by fastforce
  next
    case False
    then have "mset_flush wr cl f = Inr (False, f1, cl1)" using fl by (auto split: if_splits)
    then have "prefix (cl_out cl1) all" by (rule mset_writer.streamed_fail [OF assms(1) Cons.prems(1)])
    moreover have "\<not> ok" "cl' = cl1" using Cons.prems(2) fl False by auto
    ultimately show ?thesis by simp
  qed
qed simp

text \<open>As long as \<open>write\<close> makes progress nothing fails.\<close>

definition write_progress :: "(nat \<Rightarrow> nat \<Rightarrow> int) \<Rightarrow> bool" where
  "write_progress wr \<longleftrightarrow> (\<forall>i n. 0 < n \<longrightarrow> 0 < wr i n)"

lemma client_write_progress:
  assumes "write_contract wr" "write_progress wr" "fb_wf f" "0 < fb_pos f"
  shows "fst (client_write wr cl f)"
proof -
  obtain ok out j where w: "write_all wr (cl_calls cl) (fb_ptr f) (fb_pos f) = (ok, out, j)" by (metis prod_cases3)
  then have ok using write_all_result [OF assms(1,4) _ w] assms(2,3) by (simp add: fb_wf_def write_progress_def)
  then show ?thesis using w by (simp add: client_write_def)
qed

lemma mset_loop_progress:
  assumes "write_contract wr" "write_progress wr"
  shows "fb_wf f \<Longrightarrow> \<exists>f' cl'. mset_loop thr wr ds cl f = Inr (True, f', cl')"
proof (induction ds arbitrary: cl f)
  case (Cons d ds)
  show ?case
  proof (cases "fb_pos f > thr")
    case True
    then have "fst (client_write wr cl f)" using client_write_progress [OF assms Cons.prems] by simp
    then obtain cl1 where "client_write wr cl f = (True, cl1)" by (metis prod.collapse)
    then show ?thesis using True Cons.IH [of "fputs (mset_line d) (fseek_start f)" cl1] by (simp add: mset_flush_def)
  next
    case False
    then show ?thesis using Cons.IH [of "fputs (mset_line d) f" cl] Cons.prems by simp
  qed
qed simp

subsection \<open>Which query is answered\<close>

text \<open>A search changes nothing of a request that another search could notice.\<close>

definition max_norm :: "xapian \<Rightarrow> int \<Rightarrow> int" where
  "max_norm db m = (if m = 0 then if xp_doccount_size db = 4 then UINT_MAX else ULLONG_MAX else m)"

definition same_search :: "xapian \<Rightarrow> req \<Rightarrow> req \<Rightarrow> bool" where
  "same_search db req req' \<longleftrightarrow>
     req'\<lparr>optind := 0, req_max := 0\<rparr> = req\<lparr>optind := 0, req_max := 0\<rparr>
     \<and> max_norm db (req_max req') = max_norm db (req_max req)"

lemma max_norm_idem [simp]: "max_norm db (max_norm db m) = max_norm db m"
  by (simp add: max_norm_def UINT_MAX_def ULONG_MAX_def)

lemma same_search_refl [simp]: "same_search db req req"
  by (simp add: same_search_def)

lemma same_search_optind: "same_search db req req' \<Longrightarrow> same_search db req (req'\<lparr>optind := k\<rparr>)"
  by (simp add: same_search_def)

lemma enquire_mset_norm:
  "enquire_mset db req enq = (let w = 8 * xp_doccount_size db in
     (enquire_loop 9 (xp_get_mset db enq (req_off req mod 2 ^ w) (max_norm db (req_max req) mod 2 ^ w)) 0,
      req\<lparr>req_max := max_norm db (req_max req)\<rparr>))"
  by (simp add: enquire_mset_def max_norm_def Let_def)

lemma same_search_fields:
  assumes "same_search db req req'"
  shows "req_off req' = req_off req" "prep_enquire req' = prep_enquire req" "mail_query req' = mail_query req"
    "apply_roots_filter db req' = apply_roots_filter db req" "code_search req' = code_search req"
    "collapse_threads req' = collapse_threads req" "max_norm db (req_max req') = max_norm db (req_max req)"
proof -
  have e: "req'\<lparr>optind := 0, req_max := 0\<rparr> = req\<lparr>optind := 0, req_max := 0\<rparr>" using assms by (simp add: same_search_def)
  note f = arg_cong [OF e, of req_off, simplified]
    arg_cong [OF e, of asc, simplified]
    arg_cong [OF e, of sort_col, simplified]
    arg_cong [OF e, of relevance, simplified]
    arg_cong [OF e, of Oeidx_key, simplified]
    arg_cong [OF e, of uid_min, simplified]
    arg_cong [OF e, of uid_max, simplified]
    arg_cong [OF e, of threadid, simplified]
    arg_cong [OF e, of Pgit_dir, simplified]
    arg_cong [OF e, of code_search, simplified]
    arg_cong [OF e, of collapse_threads, simplified]
  show "req_off req' = req_off req" "prep_enquire req' = prep_enquire req" "mail_query req' = mail_query req"
    "apply_roots_filter db req' = apply_roots_filter db req" "code_search req' = code_search req"
    "collapse_threads req' = collapse_threads req"
    by (simp_all add: fun_eq_iff prep_enquire_def mail_query_def apply_roots_filter_def f Let_def)
  show "max_norm db (req_max req') = max_norm db (req_max req)" using assms by (simp add: same_search_def)
qed

lemma enquire_mset_same:
  assumes "same_search db req req'"
  shows "fst (enquire_mset db req' enq) = fst (enquire_mset db req enq)
    \<and> same_search db req (snd (enquire_mset db req' enq))"
  using assms same_search_fields [OF assms] by (simp add: enquire_mset_norm Let_def same_search_def)

lemma req_search_same:
  assumes "same_search db req req'"
  shows "fst (req_search db req' q) = fst (req_search db req q) \<and> same_search db req (snd (req_search db req' q))"
  using enquire_mset_same [OF assms] assms same_search_fields [OF assms]
  by (cases "xp_parse db q (xp_qp_flags db)") (auto simp: req_search_def mail_mset_def commit_mset_def split: sum.split)

text \<open>No results, or a Xapian error that is swallowed.\<close>

definition no_hit :: "xexn + mset \<Rightarrow> bool" where
  "no_hit r = (case r of Inl x \<Rightarrow> is_xapian_error x | Inr m \<Rightarrow> ms_docs m = [])"

lemma mset_queries_hit:
  assumes "same_search db req req'" "k < length qs"
    "\<forall>j<k. no_hit (fst (req_search db req (qs ! j)))"
    "fst (req_search db req (qs ! k)) = Inr ms" "ms_docs ms \<noteq> []"
  shows "fst (mset_queries db qs cur req') = Inr ms"
  using assms
proof (induction qs arbitrary: req' cur k)
  case (Cons q qs)
  let ?r = "req_search db (req'\<lparr>optind := optind req' + 1\<rparr>) q"
  have r: "fst ?r = fst (req_search db req q)" "same_search db req (snd ?r)"
    using req_search_same [OF same_search_optind [OF Cons.prems(1)]] by blast+
  obtain x req1 where x: "?r = (x, req1)" by fastforce
  show ?case
  proof (cases k)
    case 0
    then show ?thesis using Cons.prems(4,5) r(1) x by simp
  next
    case (Suc i)
    have "qs \<noteq> []" using Cons.prems(2) Suc by auto
    moreover have "fst (mset_queries db qs cur' req1) = Inr ms" for cur'
    proof (rule Cons.IH [of req1 i])
      show "same_search db req req1" using r(2) x by simp
      show "\<forall>j<i. no_hit (fst (req_search db req (qs ! j)))"
        using Cons.prems(3) Suc by force
    qed (use Cons.prems Suc in auto)
    moreover have "no_hit x" using Cons.prems(3) Suc r(1) x by force
    ultimately show ?thesis using x by (cases x) (auto simp: no_hit_def)
  qed
qed simp


definition mset_xapian :: xapian where
  "mset_xapian = \<lparr>xp_parse = (\<lambda>s f. if s = ''bad('' then Inl (XapianError ''syntax'') else Inr (Opaque s)),
     xp_get_mset = (\<lambda>e off mx k. Inr \<lparr>ms_docs =
       (if e_query e = Opaque ''b'' then [\<lparr>md_docid = 12, md_percent = 100, md_rank = 0, md_read = (\<lambda>k. Raise DocNotFound)\<rparr>] else []),
       ms_estimated = 3\<rparr>),
     xp_has_threadid = True, xp_root_terms = (\<lambda>p k. Inr None), xp_doccount_size = 4, xp_qp_flags = 0, xp_doccount = 100\<rparr>"

definition mset_req :: req where
  "mset_req = req_sample\<lparr>argv := [''mset'', ''bad('', ''a'', ''b''], Oeidx_key := None,
     uid_min := ULLONG_MAX, uid_max := ULLONG_MAX, threadid := ULLONG_MAX\<rparr>"


end
