(* ===== verification/Xh_Date.thy ===== *)
theory Xh_Date
  imports Approxidate_Spec Xh_Query_Spec
begin

text \<open>
  \<open>xh_date.h\<close>: dates in search queries.  A date becomes the number its value column holds, in one of
  three formats, and a range or a single date becomes a range query on the column.
\<close>

subsection \<open>Model\<close>

datatype date_fmt = YYYYmmdd | YYYYmmddHHMMSS | epoch_sec

text \<open>The three regular expressions, all anchored: digits only, and how many.\<close>

definition m_YYYYmmdd :: "string \<Rightarrow> bool" where
  "m_YYYYmmdd s \<longleftrightarrow> length s = 8 \<and> list_all c_isdigit s"

definition m_YYYYmmddHHMMSS :: "string \<Rightarrow> bool" where
  "m_YYYYmmddHHMMSS s \<longleftrightarrow> length s = 14 \<and> list_all c_isdigit s"

definition m_epoch_sec :: "string \<Rightarrow> bool" where
  "m_epoch_sec s \<longleftrightarrow> 5 \<le> length s \<and> list_all c_isdigit s"

text \<open>\<open>strtoll\<close>: the value, the characters consumed, and whether \<open>errno\<close> is \<open>ERANGE\<close>.\<close>

definition strtoll :: "string \<Rightarrow> int \<times> nat \<times> bool" where
  "strtoll s =
     (let (neg, v, n) = strto_scan s; x = (if neg then - v else v)
      in (max LONG_MIN (min LONG_MAX x), n, x < LONG_MIN \<or> LONG_MAX < x))"

text \<open>
  \<open>strftime\<close> with \<open>%Y%m%d\<close> and \<open>%Y%m%d%H%M%S\<close> into a buffer of 20 bytes; no result if it does not fit.
\<close>

definition dec_int :: "int \<Rightarrow> string" where
  "dec_int v = (if v < 0 then CHR ''-'' # dec_str (nat (- v)) else dec_str (nat v))"

definition strftime_col :: "date_fmt \<Rightarrow> tm \<Rightarrow> string option" where
  "strftime_col fmt tm =
     (let day = dec_int (tm_year tm + 1900) @ dec_fix 2 (nat (tm_mon tm + 1)) @ dec_fix 2 (nat (tm_mday tm));
          s = (if fmt = YYYYmmdd then day
               else day @ dec_fix 2 (nat (tm_hour tm)) @ dec_fix 2 (nat (tm_min tm)) @ dec_fix 2 (nat (tm_sec tm)))
      in if length s < 20 then Some s else None)"

definition mkdouble :: "string \<Rightarrow> xexn + int" where
  "mkdouble c_str =
     (let (v, n, erange) = strtoll c_str
      in if chr_at c_str n \<noteq> NUL \<or> ((v = LONG_MAX \<or> v = LONG_MIN) \<and> erange)
         then Inl (XapianError ''time out-of-range(?)'') else Inr (dbl_of_int v))"

definition to_column_fmt :: "clock \<Rightarrow> date_fmt \<Rightarrow> string \<Rightarrow> xexn + int" where
  "to_column_fmt C fmt date =
     (let c_str = cstr_from date 0
      in if (case fmt of YYYYmmdd \<Rightarrow> m_YYYYmmdd c_str | YYYYmmddHHMMSS \<Rightarrow> m_YYYYmmddHHMMSS c_str
               | epoch_sec \<Rightarrow> m_epoch_sec c_str)
         then mkdouble c_str
         else case git_date_parse C c_str of
                (r, gt) \<Rightarrow>
                  if r \<noteq> 0 then Inl (XapianError (''can't parse '' @ date))
                  else let gt = (case gt of Some t \<Rightarrow> t | None \<Rightarrow> 0)
                       in if fmt = epoch_sec then Inr (dbl_of_int gt)
                          else case gmtime_r gt of
                                 None \<Rightarrow> Inl (XapianError ''gmtime_r failed'')
                               | Some tm \<Rightarrow>
                                   let tm = (if fmt = YYYYmmdd then tm\<lparr>tm_sec := 0, tm_min := 0, tm_hour := 0\<rparr> else tm)
                                   in case strftime_col fmt tm of
                                        None \<Rightarrow> Inl (XapianError ''strftime failed'')
                                      | Some buf \<Rightarrow> mkdouble buf)"

definition GitDateRangeProcessor :: "clock \<Rightarrow> nat \<Rightarrow> date_fmt \<Rightarrow> string \<Rightarrow> string \<Rightarrow> xexn + query" where
  "GitDateRangeProcessor C slot fmt b e =
     sum_bind (if b \<noteq> [] then map_sum id Serialised (to_column_fmt C fmt b) else Inr SerialisedDBL_MIN) (\<lambda>from.
       if e = [] then Inr (OP_VALUE_GE slot from)
       else sum_bind (to_column_fmt C fmt e) (\<lambda>upto.
         if b = [] then Inr (OP_VALUE_LE slot (Serialised upto))
         else Inr (OP_VALUE_RANGE slot from (Serialised upto))))"

definition GitDateFieldProcessor :: "clock \<Rightarrow> nat \<Rightarrow> date_fmt \<Rightarrow> string \<Rightarrow> xexn + query" where
  "GitDateFieldProcessor C slot fmt date =
     sum_bind (to_column_fmt C fmt date) (\<lambda>from.
       Inr (OP_VALUE_RANGE slot (Serialised from) (Serialised (dbl_of_int (from + 86400)))))"

subsection \<open>Numbers of a column\<close>

lemma strtoll_digits:
  assumes "ds \<noteq> []" "list_all c_isdigit ds" "dec_val 0 ds \<le> LONG_MAX" "0 \<le> dec_val 0 ds"
  shows "strtoll ds = (dec_val 0 ds, length ds, False)"
  using strto_scan_digits [OF assms(1,2), of "[]"] assms(3,4) by (simp add: strtoll_def LONG_MIN_def)

lemma dec_val_bounds: "list_all c_isdigit ds \<Longrightarrow> 0 \<le> dec_val 0 ds \<and> dec_val 0 ds < 10 ^ length ds"
proof (induction ds)
  case (Cons d ds)
  have d: "0 \<le> digit_val d" "digit_val d \<le> 9" using Cons.prems by (simp_all add: digit_val_def c_isdigit_def chr_code_def)
  have "digit_val d * 10 ^ length ds \<le> 9 * 10 ^ length ds" using d(2) by (intro mult_right_mono) simp_all
  moreover have "0 \<le> digit_val d * 10 ^ length ds" using d(1) by simp
  moreover have "dec_val 0 (d # ds) = digit_val d * 10 ^ length ds + dec_val 0 ds"
    using dec_val_add [of "digit_val d" ds] by simp
  moreover have "0 \<le> dec_val 0 ds" "dec_val 0 ds < 10 ^ length ds" using Cons by simp_all
  moreover have "(10::int) ^ length (d # ds) = 10 * 10 ^ length ds" by simp
  ultimately show ?case by linarith
qed simp

lemma mkdouble_digits:
  assumes "ds \<noteq> []" "list_all c_isdigit ds" "length ds \<le> 15"
  shows "mkdouble ds = Inr (dec_val 0 ds)"
proof -
  have b: "0 \<le> dec_val 0 ds" "dec_val 0 ds < 10 ^ length ds" using dec_val_bounds [OF assms(2)] by auto
  have "(10::int) ^ length ds \<le> 10 ^ 15" using assms(3) by (intro power_increasing) simp_all
  then have "dec_val 0 ds < 2 ^ 53" using b(2) by simp
  then show ?thesis
    using strtoll_digits [OF assms(1,2)] b(1)
    by (simp add: mkdouble_def LONG_MAX_def dbl_of_int_exact chr_at_def NUL_def)
qed

lemma strftime_col_value:
  assumes "70 \<le> tm_year tm" "tm_year tm < 200" "0 \<le> tm_mon tm" "tm_mon tm < 12" "1 \<le> tm_mday tm" "tm_mday tm \<le> 31"
    "0 \<le> tm_hour tm" "tm_hour tm < 24" "0 \<le> tm_min tm" "tm_min tm < 60" "0 \<le> tm_sec tm" "tm_sec tm < 60"
  defines "day \<equiv> (tm_year tm + 1900) * 10000 + (tm_mon tm + 1) * 100 + tm_mday tm"
  shows "\<exists>s. strftime_col fmt tm = Some s \<and> mkdouble s = Inr (if fmt = YYYYmmdd then day
    else day * 1000000 + tm_hour tm * 10000 + tm_min tm * 100 + tm_sec tm)"
proof -
  let ?y = "nat (tm_year tm + 1900)"
  define ds where "ds = dec_str ?y @ dec_fix 2 (nat (tm_mon tm + 1)) @ dec_fix 2 (nat (tm_mday tm))"
  define hs where "hs = dec_fix 2 (nat (tm_hour tm)) @ dec_fix 2 (nat (tm_min tm)) @ dec_fix 2 (nat (tm_sec tm))"
  have len: "length ds \<le> 8" "length hs = 6" using length_dec_str [of ?y 4] assms(2) by (simp_all add: ds_def hs_def del: dec_fix.simps)
  have dig: "ds \<noteq> []" "list_all c_isdigit ds" "list_all c_isdigit hs"
    using dec_str_digits [of ?y] dec_fix_digits by (simp_all add: ds_def hs_def del: dec_fix.simps)
  have v: "dec_val 0 ds = day"
    using assms(1-6) by (simp add: ds_def day_def dec_val_append dec_val_dec_str dec_val_dec_fix_add nat_less_iff del: dec_fix.simps)
  have h: "dec_val 0 (ds @ hs) = day * 1000000 + tm_hour tm * 10000 + tm_min tm * 100 + tm_sec tm"
    using assms(7-12) by (simp add: hs_def dec_val_append v dec_val_dec_fix_add nat_less_iff del: dec_fix.simps)
  have "strftime_col fmt tm = Some (if fmt = YYYYmmdd then ds else ds @ hs)"
    using assms(1) len by (simp add: strftime_col_def dec_int_def Let_def ds_def hs_def del: dec_fix.simps)
  then show ?thesis
    using mkdouble_digits [OF dig(1,2)] mkdouble_digits [of "ds @ hs"] dig len v h by auto
qed

subsection \<open>Dates in queries\<close>

lemma no_NUL:
  assumes "list_all c_isdigit ds"
  shows "NUL \<notin> set ds"
  using assms by (auto simp: list_all_iff NUL_def dest!: bspec)

lemma cstr_from_no_NUL: "NUL \<notin> set s \<Longrightarrow> cstr_from s 0 = s"
  by (auto simp: cstr_from_def takeWhile_eq_all_conv)

lemma iso_datetime_no_NUL: "NUL \<notin> set (iso_datetime y mo d h m s neg hh mm)"
  using no_NUL [OF dec_fix_digits]
  by (auto simp: iso_datetime_def iso_date_def iso_time_def tz_string_def sign_char_def NUL_def simp del: dec_fix.simps)

lemma iso_datetime_not_digits: "\<not> list_all c_isdigit (iso_datetime y mo d h m s neg hh mm)"
  by (simp add: iso_datetime_def c_isdigit_def chr_code_def del: dec_fix.simps)

lemma git_date_parse_iso:
  assumes "1970 \<le> y" "y < 2100" "0 < mo" "mo < 13" "0 < d" "d < 32" "h < 25" "m < 60" "s \<le> 60"
    "hh < 24" "mm < 60" "0 \<le> c_time C" "tz_minutes neg hh mm \<noteq> -1"
  shows "git_date_parse C (iso_datetime y mo d h m s neg hh mm) =
    (0, Some (civil_days (int y) (mo - 1) (int d) * 86400 + int h * 3600 + int m * 60 + int s - 60 * tz_minutes neg hh mm))"
  using parse_date_basic_iso [OF assms] by (simp add: git_date_parse_def git_date_offset_parse_def)

definition tm_column :: "date_fmt \<Rightarrow> tm \<Rightarrow> int" where
  "tm_column fmt tm =
     (let day = (tm_year tm + 1900) * 10000 + (tm_mon tm + 1) * 100 + tm_mday tm
      in case fmt of YYYYmmdd \<Rightarrow> day
         | YYYYmmddHHMMSS \<Rightarrow> day * 1000000 + tm_hour tm * 10000 + tm_min tm * 100 + tm_sec tm
         | epoch_sec \<Rightarrow> civil_time tm)"

definition tm_normal :: "tm \<Rightarrow> bool" where
  "tm_normal tm \<longleftrightarrow> 70 \<le> tm_year tm \<and> tm_year tm < 200 \<and> 0 \<le> tm_mon tm \<and> tm_mon tm < 12 \<and> 1 \<le> tm_mday tm
    \<and> tm_mday tm \<le> month_days (tm_year tm + 1900) (nat (tm_mon tm))
    \<and> 0 \<le> tm_hour tm \<and> tm_hour tm < 24 \<and> 0 \<le> tm_min tm \<and> tm_min tm < 60 \<and> 0 \<le> tm_sec tm \<and> tm_sec tm < 60"

lemma strftime_column:
  assumes "tm_normal tm" "fmt \<noteq> epoch_sec"
  shows "\<exists>s. strftime_col fmt (if fmt = YYYYmmdd then tm\<lparr>tm_sec := 0, tm_min := 0, tm_hour := 0\<rparr> else tm) = Some s
    \<and> mkdouble s = Inr (tm_column fmt tm)"
proof -
  have "tm_mday tm \<le> 31" using assms(1) month_days_bounds(2) [of "tm_year tm + 1900" "nat (tm_mon tm)"] by (auto simp: tm_normal_def)
  then show ?thesis
    using assms strftime_col_value [of tm fmt] strftime_col_value [of "tm\<lparr>tm_sec := 0, tm_min := 0, tm_hour := 0\<rparr>" fmt]
    by (cases fmt) (simp_all add: tm_normal_def tm_column_def)
qed

text \<open>
  C26: a date in the ISO form with a zone, between 1970 and 2099, becomes the number its column
  holds for the same moment in UTC: the digits of the day, the digits of the day and the time, or
  the seconds since 1970.
\<close>

theorem to_column_fmt_iso:
  assumes "1970 \<le> y" "y < 2100" "0 < mo" "mo < 13" "0 < d" "d < 32" "h < 25" "m < 60" "s \<le> 60"
    "hh < 24" "mm < 60" "0 \<le> c_time C" "tz_minutes neg hh mm \<noteq> -1"
    "t = civil_days (int y) (mo - 1) (int d) * 86400 + int h * 3600 + int m * 60 + int s - 60 * tz_minutes neg hh mm"
    "0 \<le> t" "t < 4102444800"
  shows "\<exists>tm. tm_normal tm \<and> civil_time tm = t
    \<and> (\<forall>fmt. to_column_fmt C fmt (iso_datetime y mo d h m s neg hh mm) = Inr (tm_column fmt tm))"
proof -
  define str where "str = iso_datetime y mo d h m s neg hh mm"
  obtain tm where tm: "gmtime_r t = Some tm" "civil_time tm = t" "tm_normal tm"
    using gmtime_r_civil [OF assms(15,16)] by (auto simp: tm_normal_def)
  have c: "cstr_from str 0 = str" unfolding str_def using iso_datetime_no_NUL by (rule cstr_from_no_NUL)
  have nd: "\<not> list_all c_isdigit str" unfolding str_def by (rule iso_datetime_not_digits)
  have parse: "git_date_parse C str = (0, Some t)" unfolding str_def assms(14) using assms(1-13) by (rule git_date_parse_iso)
  have ep: "dbl_of_int t = t" using assms(15,16) by (simp add: dbl_of_int_exact)
  have "to_column_fmt C fmt str = Inr (tm_column fmt tm)" for fmt
  proof (cases "fmt = epoch_sec")
    case True
    then show ?thesis using parse c nd ep tm(2) by (simp add: to_column_fmt_def m_epoch_sec_def tm_column_def)
  next
    case False
    obtain buf where "strftime_col fmt (if fmt = YYYYmmdd then tm\<lparr>tm_sec := 0, tm_min := 0, tm_hour := 0\<rparr> else tm) = Some buf"
      "mkdouble buf = Inr (tm_column fmt tm)" using strftime_column [OF tm(3) False] by blast
    then show ?thesis
      using False parse c nd tm(1)
      by (cases fmt) (simp_all add: to_column_fmt_def Let_def m_YYYYmmdd_def m_YYYYmmddHHMMSS_def)
  qed
  then show ?thesis using tm(2,3) str_def by blast
qed

lemma to_column_fmt_digits:
  "m_YYYYmmdd ds \<Longrightarrow> to_column_fmt C YYYYmmdd ds = Inr (dec_val 0 ds)"
  "m_YYYYmmddHHMMSS ds \<Longrightarrow> to_column_fmt C YYYYmmddHHMMSS ds = Inr (dec_val 0 ds)"
  using cstr_from_no_NUL [OF no_NUL, of ds] mkdouble_digits [of ds]
  by (cases "ds = []"; auto simp: to_column_fmt_def m_YYYYmmdd_def m_YYYYmmddHHMMSS_def)+

text \<open>
  C25: a range of two days written as eight digits matches exactly the documents whose day lies
  between them, both included.
\<close>

theorem date_range_exact:
  assumes "ser_contract ser" "m_YYYYmmdd b" "m_YYYYmmdd e" "0 \<le> v" "d_value doc slot = ser v"
  shows "\<exists>q. GitDateRangeProcessor C slot YYYYmmdd b e = Inr q
    \<and> (query_matches ser mn opq q doc \<longleftrightarrow> dec_val 0 b \<le> v \<and> v \<le> dec_val 0 e)"
proof -
  have "b \<noteq> []" "e \<noteq> []" "0 \<le> dec_val 0 b" "0 \<le> dec_val 0 e"
    using assms(2,3) dec_val_bounds by (auto simp: m_YYYYmmdd_def)
  then show ?thesis
    using assms by (simp add: GitDateRangeProcessor_def to_column_fmt_digits ser_contract_def)
qed



theorem date_range_exact_witness:
  "\<exists>q. GitDateRangeProcessor epoch_clock 1 YYYYmmdd ''20230102'' ''20230203'' = Inr q
    \<and> query_matches ser_sample [] (\<lambda>q d. True) q \<lparr>d_terms = {}, d_value = (\<lambda>s. ser_sample 20230131)\<rparr>"
proof -
  have "m_YYYYmmdd ''20230102''" "m_YYYYmmdd ''20230203''" by code_simp+
  moreover have "dec_val 0 ''20230102'' = 20230102" "dec_val 0 ''20230203'' = 20230203" by code_simp+
  ultimately show ?thesis
    using date_range_exact [OF ser_contract_sample, of "''20230102''" "''20230203''" 20230131
        "\<lparr>d_terms = {}, d_value = (\<lambda>s. ser_sample 20230131)\<rparr>" 1 epoch_clock "[]" "\<lambda>q d. True"] by simp
qed

theorem to_column_fmt_iso_witness:
  "\<exists>tm. civil_time tm = 1672628645 \<and> to_column_fmt epoch_clock YYYYmmdd ''2023-01-02 03:04:05 -0000'' = Inr (tm_column YYYYmmdd tm)"
proof -
  have s: "iso_datetime 2023 1 2 3 4 5 True 0 0 = ''2023-01-02 03:04:05 -0000''" by code_simp
  have "days_to_year 1970 2023 = 19358" using days_to_year_1970 [of 53] by simp
  then have "1672628645 = civil_days (int 2023) (1 - 1) (int 2) * 86400 + int 3 * 3600 + int 4 * 60 + int 5 - 60 * tz_minutes True 0 0"
    by (simp add: civil_days_def days_to_month_def tz_minutes_def)
  then show ?thesis
    using to_column_fmt_iso [of 2023 1 2 3 4 5 0 0 epoch_clock True 1672628645] s
    by (auto simp: tz_minutes_def epoch_clock_def)
qed

end
