(* ===== verification/Xh_Thread.thy ===== *)
theory Xh_Thread
  imports Xh_Query_Spec
begin

text \<open>
  \<open>ThreadFieldProcessor\<close> of \<open>xh_thread_fp.h\<close>: a \<open>thread:\<close> term becomes a query for all messages that
  are in the thread of a message the inner query matches.
\<close>

subsection \<open>Model\<close>

text \<open>One pass over a document: the query extended by its value of the column.\<close>

definition xpand_col_iter :: "nat \<Rightarrow> query \<Rightarrow> doc_ret \<Rightarrow> query \<times> iter_ret" where
  "xpand_col_iter column xqry d =
     (case d of
        Raise x \<Rightarrow> (xqry, iter_catch (Some x))
      | Doc tls vals \<Rightarrow>
          (case vals column of
             Inl x \<Rightarrow> (xqry, iter_catch (Some x))
           | Inr val \<Rightarrow> (OP_OR xqry (OP_VALUE_RANGE column (Value val) (Value val)), Iter ITER_OK)))"

fun xpand_retry :: "nat \<Rightarrow> (nat \<Rightarrow> doc_ret) \<Rightarrow> nat \<Rightarrow> nat \<Rightarrow> query \<Rightarrow> xexn + query" where
  "xpand_retry column get 0 k xqry = Inr xqry"
| "xpand_retry column get (Suc t) k xqry =
     (case xpand_col_iter column xqry (get k) of
        (xqry, Iter ITER_RETRY) \<Rightarrow> xpand_retry column get t (Suc k) xqry
      | (xqry, Throw x) \<Rightarrow> Inl x
      | (xqry, r) \<Rightarrow> Inr xqry)"

fun xpand_docs :: "nat \<Rightarrow> mset_doc list \<Rightarrow> query \<Rightarrow> xexn + query" where
  "xpand_docs column [] xqry = Inr xqry"
| "xpand_docs column (d # ds) xqry =
     sum_bind (xpand_retry column (md_read d) 10 0 xqry) (xpand_docs column ds)"

definition qry_xpand_col :: "xapian \<Rightarrow> query \<Rightarrow> nat \<Rightarrow> xexn + query" where
  "qry_xpand_col db qry column =
     sum_bind (xp_get_mset db \<lparr>e_order = BoolWeight True, e_query = qry, e_collapse = Some column\<rparr> 0 (xp_doccount db) 0)
       (\<lambda>ms. xpand_docs column (ms_docs ms) MatchNothing)"

definition ThreadFieldProcessor :: "xapian \<Rightarrow> string \<Rightarrow> xexn + query" where
  "ThreadFieldProcessor db str =
     sum_bind
       (if str = [] then Inl (StdException ''out_of_range'')
        else if str ! 0 \<noteq> CHR ''{'' then Inr (OP_OR (Term (''Q'' @ str)) (Term (''XRF'' @ str)))
        else if length str \<le> 1 \<or> str ! (length str - 1) \<noteq> CHR ''}''
        then Inl (XapianError (''missing } in '' @ [CHR 0x27] @ str @ [CHR 0x27]))
        else xp_parse db (take (length str - 2) (drop 1 str)) (xp_qp_flags db))
       (\<lambda>qry. qry_xpand_col db qry THREADID_SLOT)"

subsection \<open>Which messages a thread query matches\<close>

lemma str_less_irrefl: "\<not> str_less s s"
  by (induction s) auto

lemma str_le_antisym: "str_le a b \<Longrightarrow> str_le b a \<Longrightarrow> a = b"
  unfolding str_le_def using str_less_trans str_less_irrefl by blast

text \<open>The value a document gives within ten reads, if none of them fails for good.\<close>

definition doc_value :: "nat \<Rightarrow> (nat \<Rightarrow> doc_ret) \<Rightarrow> string \<Rightarrow> bool" where
  "doc_value column get v \<longleftrightarrow>
     (\<exists>k<10. (\<forall>j<k. get j = Raise (DatabaseModified None)) \<and> (\<exists>tls vals. get k = Doc tls vals \<and> vals column = Inr v))"

lemma xpand_retry_value:
  assumes "\<forall>j<k. get (i + j) = Raise (DatabaseModified None)" "get (i + k) = Doc tls vals" "vals column = Inr v" "k < t"
  shows "xpand_retry column get t i xqry = Inr (OP_OR xqry (OP_VALUE_RANGE column (Value v) (Value v)))"
  using assms
proof (induction k arbitrary: i t)
  case 0
  then show ?case by (cases t) (simp_all add: xpand_col_iter_def)
next
  case (Suc k)
  obtain u where t: "t = Suc u" using Suc.prems(4) by (cases t) auto
  have "get i = Raise (DatabaseModified None)" using Suc.prems(1) [rule_format, of 0] by simp
  then have "xpand_retry column get t i xqry = xpand_retry column get u (Suc i) xqry" by (simp add: t xpand_col_iter_def)
  also have "\<dots> = Inr (OP_OR xqry (OP_VALUE_RANGE column (Value v) (Value v)))"
    using Suc.prems t by (intro Suc.IH) auto
  finally show ?case .
qed

lemma xpand_docs_matches:
  assumes "list_all2 (\<lambda>d v. doc_value column (md_read d) v) ds vs"
  shows "\<exists>q. xpand_docs column ds xqry = Inr q
    \<and> (\<forall>d. query_matches ser mn opq q d \<longleftrightarrow> query_matches ser mn opq xqry d \<or> d_value d column \<in> set vs)"
  using assms
proof (induction arbitrary: xqry rule: list_all2_induct)
  case (Cons x xs v vs)
  let ?q = "OP_OR xqry (OP_VALUE_RANGE column (Value v) (Value v))"
  obtain k tls vals where k: "k < 10" "\<forall>j<k. md_read x j = Raise (DatabaseModified None)" "md_read x k = Doc tls vals"
    "vals column = Inr v" using Cons.hyps(1) by (auto simp: doc_value_def)
  have "xpand_retry column (md_read x) 10 0 xqry = Inr ?q"
    using xpand_retry_value [of k "md_read x" 0 tls vals column v 10 xqry] k by simp
  moreover have "query_matches ser mn opq ?q d \<longleftrightarrow> query_matches ser mn opq xqry d \<or> d_value d column = v" for d
    using str_le_antisym by (auto simp: str_le_def)
  moreover obtain q where "xpand_docs column xs ?q = Inr q"
    "\<forall>d. query_matches ser mn opq q d \<longleftrightarrow> query_matches ser mn opq ?q d \<or> d_value d column \<in> set vs"
    using Cons.IH [of ?q] by blast
  ultimately show ?case by auto
qed simp

text \<open>
  C16: a \<open>thread:\<close> term for a message identifier or a query in braces matches exactly the messages
  whose thread is that of one of the messages found, when each of these can be read within ten
  tries.
\<close>

theorem thread_query_matches:
  assumes "str \<noteq> []" "str ! 0 \<noteq> CHR ''{'' \<and> qry = OP_OR (Term (''Q'' @ str)) (Term (''XRF'' @ str))
      \<or> (\<exists>inner. str = ''{'' @ inner @ ''}'' \<and> xp_parse db inner (xp_qp_flags db) = Inr qry)"
    "xp_get_mset db \<lparr>e_order = BoolWeight True, e_query = qry, e_collapse = Some THREADID_SLOT\<rparr> 0 (xp_doccount db) 0 = Inr ms"
    "list_all2 (\<lambda>d v. doc_value THREADID_SLOT (md_read d) v) (ms_docs ms) vs"
  shows "\<exists>q. ThreadFieldProcessor db str = Inr q
    \<and> (\<forall>d. query_matches ser mn opq q d \<longleftrightarrow> d_value d THREADID_SLOT \<in> set vs)"
proof -
  have "ThreadFieldProcessor db str = qry_xpand_col db qry THREADID_SLOT"
    using assms(1,2) by (auto simp: ThreadFieldProcessor_def nth_append)
  also have "\<dots> = xpand_docs THREADID_SLOT (ms_docs ms) MatchNothing" using assms(3) by (simp add: qry_xpand_col_def)
  finally show ?thesis using xpand_docs_matches [OF assms(4), of MatchNothing ser mn opq] by simp
qed

text \<open>The second message needs a second read; the messages found are in the threads a and b.\<close>

definition thread_docs :: "mset_doc list" where
  "thread_docs = [\<lparr>md_docid = 1, md_percent = 100, md_rank = 0, md_read = (\<lambda>k. Doc (\<lambda>t. ([], None)) (\<lambda>c. Inr ''a''))\<rparr>,
     \<lparr>md_docid = 2, md_percent = 100, md_rank = 1,
      md_read = (\<lambda>k. if k = 0 then Raise (DatabaseModified None) else Doc (\<lambda>t. ([], None)) (\<lambda>c. Inr ''b''))\<rparr>]"

theorem thread_query_matches_witness:
  "\<exists>q. ThreadFieldProcessor (xapian_sample (\<lambda>k. Inl DocNotFound) (\<lambda>k. Inr \<lparr>ms_docs = thread_docs, ms_estimated = 2\<rparr>)) ''m@x'' = Inr q
    \<and> query_matches ser_sample [] (\<lambda>q d. True) q \<lparr>d_terms = {}, d_value = (\<lambda>s. ''b'')\<rparr>
    \<and> \<not> query_matches ser_sample [] (\<lambda>q d. True) q \<lparr>d_terms = {}, d_value = (\<lambda>s. ''c'')\<rparr>"
proof -
  have "doc_value THREADID_SLOT (\<lambda>k. Doc (\<lambda>t. ([], None)) (\<lambda>c. Inr ''a'')) ''a''"
    unfolding doc_value_def by (rule exI [of _ 0]) simp
  moreover have "doc_value THREADID_SLOT (\<lambda>k. if k = 0 then Raise (DatabaseModified None)
      else Doc (\<lambda>t. ([], None)) (\<lambda>c. Inr ''b'')) ''b''"
    unfolding doc_value_def by (rule exI [of _ 1]) simp
  ultimately have "list_all2 (\<lambda>d v. doc_value THREADID_SLOT (md_read d) v) thread_docs [''a'', ''b'']"
    by (simp add: thread_docs_def)
  then obtain q where q: "ThreadFieldProcessor (xapian_sample (\<lambda>k. Inl DocNotFound)
      (\<lambda>k. Inr \<lparr>ms_docs = thread_docs, ms_estimated = 2\<rparr>)) ''m@x'' = Inr q"
    "\<forall>d. query_matches ser_sample [] (\<lambda>q d. True) q d \<longleftrightarrow> d_value d THREADID_SLOT \<in> set [''a'', ''b'']"
    using thread_query_matches [of "''m@x''" "OP_OR (Term ''Qm@x'') (Term ''XRFm@x'')"
        "xapian_sample (\<lambda>k. Inl DocNotFound) (\<lambda>k. Inr \<lparr>ms_docs = thread_docs, ms_estimated = 2\<rparr>)"
        "\<lparr>ms_docs = thread_docs, ms_estimated = 2\<rparr>" "[''a'', ''b'']" ser_sample "[]" "\<lambda>q d. True"]
    by (simp add: xapian_sample_def) blast
  have "query_matches ser_sample [] (\<lambda>q d. True) q \<lparr>d_terms = {}, d_value = (\<lambda>s. ''b'')\<rparr>"
    "\<not> query_matches ser_sample [] (\<lambda>q d. True) q \<lparr>d_terms = {}, d_value = (\<lambda>s. ''c'')\<rparr>"
    using q(2) by simp_all
  then show ?thesis using q(1) by blast
qed

end
