(* ===== verification/Srch.thy ===== *)
theory Srch
  imports Khashl_Map Xh_Query
begin

text \<open>
  The cache of open databases of \<open>xap_helper.h\<close>: \<open>struct srch\<close> objects on a heap, the set
  \<open>srch_cache\<close> of pointers to them, keyed by the arguments they were opened with, and the
  accounting of file descriptors.  Opening a database and looking for a file are arguments.
\<close>

subsection \<open>Objects and the cache\<close>

text \<open>A pointer to a \<open>struct srch\<close> with the bytes of its key, which never change.\<close>

record srch_key =
  sk_ptr :: nat
  sk_ckey :: string

definition srch_hash :: "srch_key \<Rightarrow> khint" where
  "srch_hash k = kh_hash_bytes (length (sk_ckey k)) (map of_char (sk_ckey k))"

definition srch_eq :: "srch_key \<Rightarrow> srch_key \<Rightarrow> bool" where
  "srch_eq a b \<longleftrightarrow> (if length (sk_ckey a) = length (sk_ckey b) then sk_ckey a = sk_ckey b else False)"

text \<open>
  The rest of the object: the shards of its database (none before it is open), whether phrase
  searches are allowed, the prefixes of its query parser, and which set of prefixes it has.
\<close>

record srch =
  s_db :: "string list"
  s_phrase :: bool
  s_bool_prefix :: "(string \<times> string) list"
  s_prefix :: "(string \<times> string) list"
  s_code :: bool

definition srch_new :: srch where
  "srch_new = \<lparr>s_db = [], s_phrase = False, s_bool_prefix = [], s_prefix = [], s_code = False\<rparr>"

type_synonym srch_set = "srch_key cs_bucket khtab"

record srch_state =
  srch_cache :: srch_set
  srch_heap :: "nat \<rightharpoonup> srch"
  next_ptr :: nat
  shard_nfd :: int
  my_fd_max :: int
  lei :: bool
  lock_log :: "string list list"

definition SHARD_COST :: int where
  "SHARD_COST = 8"

definition MY_ARG_MAX :: nat where
  "MY_ARG_MAX = 256"

definition srch_free :: "nat \<Rightarrow> (nat \<rightharpoonup> srch) \<Rightarrow> (nat \<rightharpoonup> srch)" where
  "srch_free p heap = heap(p := None)"

definition srch_set_put :: "srch_key cs_bucket \<Rightarrow> srch_set \<Rightarrow> srch_key \<Rightarrow> (srch_set \<times> khint \<times> int) option" where
  "srch_set_put junk h key = cset_put srch_hash srch_eq junk h key"

text \<open>The loop over the slots; \<open>keep\<close> is spared.\<close>

definition renew_free :: "srch_set \<Rightarrow> srch_key \<Rightarrow> (nat \<rightharpoonup> srch) \<Rightarrow> (nat \<rightharpoonup> srch)" where
  "renew_free h keep heap =
     fold (\<lambda>k heap. if kh_exist h (of_nat k) \<and> sk_ptr (cset_key h (of_nat k)) \<noteq> sk_ptr keep
                    then srch_free (sk_ptr (cset_key h (of_nat k))) heap else heap)
       [0..<unat (kh_end h)] heap"

definition srch_cache_renew :: "srch_key cs_bucket \<Rightarrow> srch_key \<Rightarrow> srch_state \<Rightarrow> srch_state option" where
  "srch_cache_renew junk keep st =
     (let heap = renew_free (srch_cache st) keep (srch_heap st); h = kh_clear (srch_cache st)
      in map_option (\<lambda>(h, k, absent). st\<lparr>srch_cache := h, srch_heap := heap\<rparr>) (srch_set_put junk h keep))"

subsection \<open>Opening a database\<close>

text \<open>
  A block that holds the locks of the request: \<open>lock_log\<close> has the arguments of every call of
  \<open>lock_shared_maybe\<close>.  What the call does, and undoes at the end of the block, is in \<open>Locks\<close>.
\<close>

definition with_locks :: "req \<Rightarrow> srch_state \<Rightarrow> srch_state" where
  "with_locks req st = st\<lparr>lock_log := lock_log st @ [lockv req]\<rparr>"

text \<open>\<open>is_reg path\<close>: \<open>stat\<close> finds a regular file there.\<close>

definition PATH_MAX :: nat where
  "PATH_MAX = 4096"

definition is_chert :: "(string \<Rightarrow> bool) \<Rightarrow> string \<Rightarrow> abort + bool" where
  "is_chert is_reg dir =
     (if length (dir @ ''/iamchert'') \<ge> PATH_MAX then Inl (Exited 1) else Inr (is_reg (dir @ ''/iamchert'')))"

text \<open>
  The \<open>try\<close> block of \<open>srch_init\<close>; \<open>op dir\<close> tells whether the database opens.  An exception gives the
  shard that failed.
\<close>

fun add_shards :: "(string \<Rightarrow> bool) \<Rightarrow> (string \<Rightarrow> bool) \<Rightarrow> bool \<Rightarrow> string list \<Rightarrow> bool \<Rightarrow> abort + (string + bool)" where
  "add_shards op is_reg is_lei [] phrase = Inr (Inr phrase)"
| "add_shards op is_reg is_lei (dir # dirs) phrase =
     sum_bind (if \<not> is_lei \<and> phrase then is_chert is_reg dir else Inr False) (\<lambda>chert.
       if \<not> op dir then Inr (Inl dir)
       else add_shards op is_reg is_lei dirs (phrase \<and> \<not> chert))"

definition open_shards :: "(string \<Rightarrow> bool) \<Rightarrow> (string \<Rightarrow> bool) \<Rightarrow> bool \<Rightarrow> string list \<Rightarrow> abort + (string + bool)" where
  "open_shards op is_reg is_lei dirs =
     (if \<not> op (dirs ! 0) then Inr (Inl (dirs ! 0))
      else sum_bind (if \<not> is_lei then is_chert is_reg (dirs ! 0) else Inr False) (\<lambda>chert.
             add_shards op is_reg is_lei (drop 1 dirs) (\<not> chert)))"

text \<open>\<open>memchr\<close> on a string, and what is before and after the character.\<close>

definition split_at_chr :: "char \<Rightarrow> string \<Rightarrow> (string \<times> string) option" where
  "split_at_chr c s =
     (if c \<in> set s then Some (takeWhile (\<lambda>x. x \<noteq> c) s, drop 1 (dropWhile (\<lambda>x. x \<noteq> c) s)) else None)"

fun srch_init_extra :: "string list \<Rightarrow> srch \<Rightarrow> abort + srch" where
  "srch_init_extra [] s = Inr s"
| "srch_init_extra (q # qs) s =
     (case split_at_chr CHR ''='' q of
        Some p \<Rightarrow> srch_init_extra qs (s\<lparr>s_bool_prefix := s_bool_prefix s @ [p]\<rparr>)
      | None \<Rightarrow>
          (case split_at_chr CHR '':'' q of
             Some p \<Rightarrow> srch_init_extra qs (s\<lparr>s_prefix := s_prefix s @ [p]\<rparr>)
           | None \<Rightarrow> Inl (BadPrefix q)))"

text \<open>The parser of a mail database knows the thread field and, for \<open>lei\<close>, keywords and labels.\<close>

definition srch_qp :: "bool \<Rightarrow> bool \<Rightarrow> srch \<Rightarrow> srch" where
  "srch_qp is_lei code s =
     (if code then s\<lparr>s_code := True, s_bool_prefix := [], s_prefix := []\<rparr>
      else s\<lparr>s_code := False, s_prefix := [],
             s_bool_prefix := (''thread'', []) # (if is_lei then [(''kw'', ''K''), (''L'', ''L'')] else [])\<rparr>)"

text \<open>
  \<open>srch_init\<close> for the object at \<open>key\<close>: make room, open at most twice (emptying the cache in between),
  set up the parser.  \<open>None\<close> is an operation on the cache that does not return.
\<close>

definition srch_init ::
  "srch_key cs_bucket \<Rightarrow> (nat \<Rightarrow> string \<Rightarrow> bool) \<Rightarrow> (string \<Rightarrow> bool) \<Rightarrow> req \<Rightarrow> srch_key \<Rightarrow> srch_state
    \<Rightarrow> (abort + srch_state) option"
where
  "srch_init junk op is_reg req key st =
     (let nfd = int (length (dirv req)) * SHARD_COST;
          finish = (\<lambda>st phrase. map_sum id (\<lambda>s. st\<lparr>srch_heap := (srch_heap st)(sk_ptr key \<mapsto> s)\<rparr>)
            (srch_init_extra (qpfxv req)
              (srch_qp (lei st) (code_search req) (srch_new\<lparr>s_db := dirv req, s_phrase := phrase\<rparr>))))
      in do {
           st \<leftarrow> (if shard_nfd st + nfd > my_fd_max st
                  then map_option (\<lambda>st. st\<lparr>shard_nfd := nfd\<rparr>) (srch_cache_renew junk key st)
                  else Some (st\<lparr>shard_nfd := shard_nfd st + nfd\<rparr>));
           let st = with_locks req st;
           (case open_shards (op 0) is_reg (lei st) (dirv req) of
              Inl a \<Rightarrow> Some (Inl a)
            | Inr (Inr phrase) \<Rightarrow> Some (finish st phrase)
            | Inr (Inl dir) \<Rightarrow>
                do {
                  st \<leftarrow> srch_cache_renew junk key st;
                  let st = with_locks req st;
                  (case open_shards (op 1) is_reg (lei st) (dirv req) of
                     Inl a \<Rightarrow> Some (Inl a)
                   | Inr (Inr phrase) \<Rightarrow> Some (finish st phrase)
                   | Inr (Inl dir) \<Rightarrow> Some (Inl (CantOpen dir)))
                })
         })"

text \<open>
  The part of \<open>dispatch\<close> that finds or makes the object: the state and its pointer.  The new object
  is freed when an equal one is in the cache, which is then reopened; an exception of \<open>reopen\<close> is
  not caught there and ends the worker.
\<close>

definition dispatch_srch ::
  "srch_key cs_bucket \<Rightarrow> (nat \<Rightarrow> string \<Rightarrow> bool) \<Rightarrow> (string \<Rightarrow> bool) \<Rightarrow> (srch \<Rightarrow> bool) \<Rightarrow> req \<Rightarrow> string \<Rightarrow> srch_state
    \<Rightarrow> (abort + nat \<times> srch_state) option"
where
  "dispatch_srch junk op is_reg reopens req ckey st =
     (let key = \<lparr>sk_ptr = next_ptr st, sk_ckey = ckey\<rparr>;
          st = st\<lparr>srch_heap := (srch_heap st)(next_ptr st \<mapsto> srch_new), next_ptr := Suc (next_ptr st)\<rparr>
      in do {
           (h, ki, absent) \<leftarrow> srch_set_put junk (srch_cache st) key;
           let st = st\<lparr>srch_cache := h\<rparr>;
           let found = cset_key h ki;
           (if absent \<noteq> 0
            then map_option (map_sum id (\<lambda>st. (sk_ptr found, st))) (srch_init junk op is_reg req found st)
            else
              let st = with_locks req (st\<lparr>srch_heap := srch_free (sk_ptr key) (srch_heap st)\<rparr>)
              in Some (if reopens (the (srch_heap st (sk_ptr found))) then Inr (sk_ptr found, st) else Inl Uncaught))
         })"

end
