(* ===== verification/Srch_Spec.thy ===== *)
theory Srch_Spec
  imports Srch Fbuf
begin

text \<open>
  The cache of databases: no object is leaked, freed twice or used after it was freed, a request
  is served by the database it names, and the descriptors in use stay within the limit.
\<close>

subsection \<open>Keys\<close>

lemma srch_eq_iff: "srch_eq a b \<longleftrightarrow> sk_ckey a = sk_ckey b"
  by (auto simp: srch_eq_def)

interpretation sr: kh_keying cs_hash "cs_eq srch_eq"
  by unfold_locales (auto simp: cs_eq_def srch_eq_iff)

text \<open>The key of the arguments \<open>-d\<close> and \<open>-Q\<close>, in the order they are given.\<close>

definition ckey_of :: "(char \<times> string) list \<Rightarrow> string" where
  "ckey_of opts = concat (map (\<lambda>(c, a). ''-'' @ [c] @ [NUL] @ a @ [NUL]) opts)"

definition opt_args :: "char \<Rightarrow> (char \<times> string) list \<Rightarrow> string list" where
  "opt_args c opts = map snd (filter (\<lambda>x. fst x = c) opts)"

definition opts_ok :: "(char \<times> string) list \<Rightarrow> bool" where
  "opts_ok opts \<longleftrightarrow> (\<forall>x\<in>set opts. fst x \<in> {CHR ''d'', CHR ''Q''} \<and> NUL \<notin> set (snd x))"

lemma NUL_split:
  "NUL \<notin> set a \<Longrightarrow> NUL \<notin> set b \<Longrightarrow> a @ NUL # x = b @ NUL # y \<Longrightarrow> a = b \<and> x = y"
proof (induction a arbitrary: b)
  case Nil
  then show ?case by (cases b) auto
next
  case (Cons c a)
  then show ?case by (cases b) auto
qed

lemma ckey_of_inj: "opts_ok xs \<Longrightarrow> opts_ok ys \<Longrightarrow> ckey_of xs = ckey_of ys \<Longrightarrow> xs = ys"
proof (induction xs arbitrary: ys)
  case Nil
  then show ?case by (cases ys) (auto simp: ckey_of_def split: prod.splits)
next
  case (Cons x xs)
  obtain y ys' where ys: "ys = y # ys'" using Cons.prems(3) by (cases ys) (auto simp: ckey_of_def split: prod.splits)
  have eq: "fst x = fst y" "snd x @ NUL # ckey_of xs = snd y @ NUL # ckey_of ys'"
    using Cons.prems(3) by (auto simp: ckey_of_def ys case_prod_unfold)
  then have "snd x = snd y" "ckey_of xs = ckey_of ys'"
    using Cons.prems(1,2) NUL_split [of "snd x" "snd y"] by (auto simp: opts_ok_def ys)
  then show ?case using Cons eq(1) by (auto simp: ys opts_ok_def prod_eq_iff)
qed

subsection \<open>The objects that are freed\<close>

lemma renew_free_upto:
  "fold (\<lambda>k heap. if P k then srch_free (f k) heap else heap) [0..<n] heap p =
    (if \<exists>k<n. P k \<and> f k = p then None else heap p)"
  by (induction n) (auto simp: srch_free_def less_Suc_eq)

abbreviation bptr :: "srch_key cs_bucket \<Rightarrow> nat" where
  "bptr b \<equiv> sk_ptr (cs_key b)"

lemma renew_free_result:
  assumes "kh_wf cs_hash (cs_eq srch_eq) h"
  shows "renew_free h keep heap p = (if p \<noteq> sk_ptr keep \<and> p \<in> bptr ` kh_elems h then None else heap p)"
  unfolding renew_free_def renew_free_upto cset_key_def
  using kh_elems_slots [OF assms] by (auto simp: image_iff)

subsection \<open>The invariant\<close>

text \<open>The object was made for the arguments its key says.\<close>

definition made_for :: "string \<Rightarrow> srch \<Rightarrow> bool" where
  "made_for ckey s \<longleftrightarrow>
     (\<exists>opts l code phrase. opts_ok opts \<and> ckey = ckey_of opts \<and> opt_args CHR ''d'' opts \<noteq> []
       \<and> srch_init_extra (opt_args CHR ''Q'' opts)
           (srch_qp l code (srch_new\<lparr>s_db := opt_args CHR ''d'' opts, s_phrase := phrase\<rparr>)) = Inr s)"

text \<open>The descriptors the databases of the cache use.\<close>

definition fd_use :: "srch_state \<Rightarrow> int" where
  "fd_use st = (\<Sum>b\<in>kh_elems (srch_cache st). SHARD_COST * int (length (s_db (the (srch_heap st (bptr b))))))"

definition fd_limit :: "srch_state \<Rightarrow> int" where
  "fd_limit st = max (my_fd_max st) (SHARD_COST * 255)"

text \<open>
  Well-formed but for the objects in the set \<open>new\<close>, which are in the cache and not open yet.
\<close>

definition srch_pre :: "nat set \<Rightarrow> srch_state \<Rightarrow> bool" where
  "srch_pre new st \<longleftrightarrow>
     kh_wf cs_hash (cs_eq srch_eq) (srch_cache st)
     \<and> (\<forall>b\<in>kh_elems (srch_cache st). cs_hash b = srch_hash (cs_key b))
     \<and> inj_on bptr (kh_elems (srch_cache st))
     \<and> dom (srch_heap st) = bptr ` kh_elems (srch_cache st)
     \<and> (\<forall>b\<in>kh_elems (srch_cache st). bptr b < next_ptr st
         \<and> (if bptr b \<in> new then srch_heap st (bptr b) = Some srch_new
            else made_for (sk_ckey (cs_key b)) (the (srch_heap st (bptr b)))))
     \<and> fd_use st \<le> shard_nfd st \<and> shard_nfd st \<le> fd_limit st"

abbreviation srch_ok :: "srch_state \<Rightarrow> bool" where
  "srch_ok st \<equiv> srch_pre {} st"

lemma kh_elems_finite [simp]: "finite (kh_elems h)"
  by (simp add: kh_elems_def kh_slots_def)

text \<open>Objects that are open use at least one shard, so the limit bounds the size of the cache.\<close>

lemma srch_init_extra_db: "srch_init_extra qs s = Inr s' \<Longrightarrow> s_db s' = s_db s"
  by (induction qs s rule: srch_init_extra.induct) (auto split: option.splits)

lemma made_for_db: "made_for ckey s \<Longrightarrow> s_db s \<noteq> []"
  by (auto simp: made_for_def srch_qp_def dest!: srch_init_extra_db split: if_splits)

lemma srch_ok_count:
  assumes "srch_ok st" "my_fd_max st \<le> 2 ^ 32"
  shows "unat (kh_count (srch_cache st)) < 3 * 2 ^ 29"
proof -
  let ?E = "kh_elems (srch_cache st)"
  have wf: "kh_wf cs_hash (cs_eq srch_eq) (srch_cache st)" using assms(1) by (simp add: srch_pre_def)
  have "int (card ?E) * 8 = (\<Sum>b\<in>?E. 8)" by simp
  also have "\<dots> \<le> fd_use st" unfolding fd_use_def SHARD_COST_def
  proof (rule sum_mono)
    fix b assume "b \<in> ?E"
    then have "s_db (the (srch_heap st (bptr b))) \<noteq> []"
      using assms(1) made_for_db by (auto simp: srch_pre_def)
    then show "8 \<le> 8 * int (length (s_db (the (srch_heap st (bptr b)))))" by (simp add: Suc_le_eq)
  qed
  also have "\<dots> \<le> 2 ^ 32"
    using assms by (auto simp: srch_pre_def fd_limit_def SHARD_COST_def max_def split: if_splits)
  finally have "card ?E \<le> 2 ^ 29" by simp
  then show ?thesis using sr.count_card [OF wf] by simp
qed

subsection \<open>Emptying the cache\<close>

lemma srch_cache_renew_result:
  assumes "kh_wf cs_hash (cs_eq srch_eq) (srch_cache st)" "dom (srch_heap st) = bptr ` kh_elems (srch_cache st)"
    "sk_ptr key \<in> dom (srch_heap st)"
  defines "b \<equiv> \<lparr>cs_key = key, cs_hash = srch_hash key\<rparr>"
  shows "\<exists>st'. srch_cache_renew junk key st = Some st' \<and> kh_wf cs_hash (cs_eq srch_eq) (srch_cache st')
    \<and> kh_elems (srch_cache st') = {b} \<and> srch_heap st' = [sk_ptr key \<mapsto> the (srch_heap st (sk_ptr key))]
    \<and> next_ptr st' = next_ptr st \<and> shard_nfd st' = shard_nfd st \<and> my_fd_max st' = my_fd_max st \<and> lei st' = lei st
    \<and> lock_log st' = lock_log st"
proof -
  let ?h = "kh_clear (srch_cache st)"
  have c: "kh_wf cs_hash (cs_eq srch_eq) ?h" "kh_elems ?h = {}" "kh_count ?h = 0"
    using sr.clear_correct [OF assms(1)] by auto
  obtain h' i where h': "srch_set_put junk ?h key = Some (h', i, 1)" "kh_wf cs_hash (cs_eq srch_eq) h'" "kh_elems h' = {b}"
    using sr.putp_correct [OF c(1), of junk b] c(2,3) by (auto simp: srch_set_put_def cset_put_def b_def)
  have "renew_free (srch_cache st) key (srch_heap st) = [sk_ptr key \<mapsto> the (srch_heap st (sk_ptr key))]"
  proof
    fix p
    obtain s where "srch_heap st (sk_ptr key) = Some s" using assms(3) by auto
    then show "renew_free (srch_cache st) key (srch_heap st) p = [sk_ptr key \<mapsto> the (srch_heap st (sk_ptr key))] p"
      unfolding renew_free_result [OF assms(1)] assms(2) [symmetric] by (auto simp: domIff)
  qed
  then show ?thesis using h' by (simp add: srch_cache_renew_def Let_def)
qed

subsection \<open>Opening\<close>

lemma fd_use_nonneg: "0 \<le> fd_use st"
  by (auto simp: fd_use_def SHARD_COST_def intro: sum_nonneg)

lemma fd_use_singleton:
  assumes "kh_elems (srch_cache st) = {b}" "srch_heap st (bptr b) = Some s"
  shows "fd_use st = SHARD_COST * int (length (s_db s))"
  using assms by (simp add: fd_use_def)

lemma fd_use_open:
  assumes "b \<in> kh_elems (srch_cache st)" "inj_on bptr (kh_elems (srch_cache st))" "s_db (the (srch_heap st (bptr b))) = []"
  shows "fd_use (st\<lparr>srch_heap := (srch_heap st)(bptr b \<mapsto> s)\<rparr>) = fd_use st + SHARD_COST * int (length (s_db s))"
proof -
  let ?E = "kh_elems (srch_cache st)"
  have "(\<Sum>x\<in>?E - {b}. SHARD_COST * int (length (s_db (the (((srch_heap st)(bptr b \<mapsto> s)) (bptr x))))))
      = (\<Sum>x\<in>?E - {b}. SHARD_COST * int (length (s_db (the (srch_heap st (bptr x))))))"
    using assms(1,2) by (intro sum.cong) (auto simp: inj_on_def)
  then show ?thesis
    using assms(1,3) by (simp add: fd_use_def sum.remove [of ?E b])
qed

abbreviation key_bucket :: "srch_key \<Rightarrow> srch_key cs_bucket" where
  "key_bucket key \<equiv> \<lparr>cs_key = key, cs_hash = srch_hash key\<rparr>"

text \<open>The new object is in the cache and there is room for its descriptors.\<close>

definition room :: "srch_key \<Rightarrow> int \<Rightarrow> srch_state \<Rightarrow> bool" where
  "room key nfd st \<longleftrightarrow>
     srch_pre {sk_ptr key} st \<and> key_bucket key \<in> kh_elems (srch_cache st) \<and> fd_use st + nfd \<le> shard_nfd st"

lemma renew_room:
  assumes "srch_pre {sk_ptr key} st" "key_bucket key \<in> kh_elems (srch_cache st)" "nfd \<le> n" "n \<le> fd_limit st"
    "0 \<le> nfd"
  shows "\<exists>st'. srch_cache_renew junk key st = Some st' \<and> room key nfd (st'\<lparr>shard_nfd := n\<rparr>)
    \<and> my_fd_max st' = my_fd_max st \<and> lei st' = lei st \<and> shard_nfd st' = shard_nfd st \<and> lock_log st' = lock_log st
    \<and> kh_elems (srch_cache st') = {key_bucket key}"
proof -
  have p: "sk_ptr key \<in> bptr ` kh_elems (srch_cache st)" using assms(2) by (auto intro: rev_image_eqI)
  then have n: "srch_heap st (sk_ptr key) = Some srch_new" "sk_ptr key < next_ptr st"
    using assms(1,2) by (auto simp: srch_pre_def)
  obtain st' where st': "srch_cache_renew junk key st = Some st'" "kh_wf cs_hash (cs_eq srch_eq) (srch_cache st')"
    "kh_elems (srch_cache st') = {key_bucket key}" "srch_heap st' = [sk_ptr key \<mapsto> srch_new]" "next_ptr st' = next_ptr st"
    "shard_nfd st' = shard_nfd st" "my_fd_max st' = my_fd_max st" "lei st' = lei st" "lock_log st' = lock_log st"
    using srch_cache_renew_result [of st key junk] assms(1) p n by (auto simp: srch_pre_def)
  have "fd_use (st'\<lparr>shard_nfd := n\<rparr>) = 0"
    using fd_use_singleton [of "st'\<lparr>shard_nfd := n\<rparr>" "key_bucket key" srch_new] st'(3,4) by (simp add: srch_new_def)
  then have "room key nfd (st'\<lparr>shard_nfd := n\<rparr>)"
    using st' n(2) assms(3-5) by (simp add: room_def srch_pre_def fd_limit_def)
  with st' show ?thesis by blast
qed

lemma make_room:
  assumes "srch_pre {sk_ptr key} st" "key_bucket key \<in> kh_elems (srch_cache st)" "0 \<le> nfd" "nfd \<le> SHARD_COST * 255"
  shows "\<exists>st'. (if shard_nfd st + nfd > my_fd_max st
        then map_option (\<lambda>st. st\<lparr>shard_nfd := nfd\<rparr>) (srch_cache_renew junk key st)
        else Some (st\<lparr>shard_nfd := shard_nfd st + nfd\<rparr>)) = Some st'
    \<and> room key nfd st' \<and> my_fd_max st' = my_fd_max st \<and> lei st' = lei st \<and> lock_log st' = lock_log st
    \<and> (shard_nfd st + nfd > my_fd_max st \<longrightarrow> kh_elems (srch_cache st') = {key_bucket key})"
proof (cases "shard_nfd st + nfd > my_fd_max st")
  case True
  have "nfd \<le> fd_limit st" using assms(4) by (simp add: fd_limit_def)
  from renew_room [OF assms(1,2) order_refl this assms(3), of junk] show ?thesis using True by auto
next
  case False
  have "fd_use (st\<lparr>shard_nfd := n\<rparr>) = fd_use st" for n by (simp add: fd_use_def)
  then have "room key nfd (st\<lparr>shard_nfd := shard_nfd st + nfd\<rparr>)"
    using False assms by (auto simp: room_def srch_pre_def fd_limit_def)
  then show ?thesis using False by simp
qed

text \<open>Holding the locks changes nothing else.\<close>

lemma with_locks_simps [simp]:
  "srch_cache (with_locks req st) = srch_cache st" "srch_heap (with_locks req st) = srch_heap st"
  "next_ptr (with_locks req st) = next_ptr st" "shard_nfd (with_locks req st) = shard_nfd st"
  "my_fd_max (with_locks req st) = my_fd_max st" "lei (with_locks req st) = lei st"
  "lock_log (with_locks req st) = lock_log st @ [lockv req]"
  by (simp_all add: with_locks_def)

lemma with_locks_pre [simp]:
  "fd_use (with_locks req st) = fd_use st" "fd_limit (with_locks req st) = fd_limit st"
  "srch_pre new (with_locks req st) = srch_pre new st" "room key nfd (with_locks req st) = room key nfd st"
  by (simp_all add: fd_use_def fd_limit_def srch_pre_def room_def)

text \<open>The locks of a request are held once, or twice when the first try fails.\<close>

definition locked :: "req \<Rightarrow> srch_state \<Rightarrow> srch_state \<Rightarrow> bool" where
  "locked req st st' \<longleftrightarrow> lock_log st' \<in> {lock_log st @ [lockv req], lock_log st @ [lockv req, lockv req]}"

lemma finish_ok:
  assumes "room key (int (length (s_db s)) * SHARD_COST) st" "made_for (sk_ckey key) s"
  shows "srch_ok (st\<lparr>srch_heap := (srch_heap st)(sk_ptr key \<mapsto> s)\<rparr>)"
proof -
  let ?st = "st\<lparr>srch_heap := (srch_heap st)(sk_ptr key \<mapsto> s)\<rparr>" and ?b = "key_bucket key"
  have b: "?b \<in> kh_elems (srch_cache st)" "bptr ?b = sk_ptr key" using assms(1) by (simp_all add: room_def)
  have inj: "inj_on bptr (kh_elems (srch_cache st))" using assms(1) by (simp add: room_def srch_pre_def)
  have "srch_heap st (sk_ptr key) = Some srch_new" using assms(1) b(1) by (auto simp: room_def srch_pre_def)
  then have "fd_use ?st = fd_use st + SHARD_COST * int (length (s_db s))"
    using fd_use_open [OF b(1) inj, of s] by (simp add: srch_new_def)
  then have fd: "fd_use ?st \<le> shard_nfd ?st" using assms(1) by (simp add: room_def mult.commute)
  have "c = ?b" if "c \<in> kh_elems (srch_cache st)" "bptr c = sk_ptr key" for c
    using that b inj by (auto simp: inj_on_def)
  then have "sk_ckey (cs_key c) = sk_ckey key" if "c \<in> kh_elems (srch_cache st)" "bptr c = sk_ptr key" for c
    using that by (metis cs_bucket.select_convs(1))
  then have "\<forall>c\<in>kh_elems (srch_cache st). bptr c < next_ptr st
      \<and> made_for (sk_ckey (cs_key c)) (the (((srch_heap st)(sk_ptr key \<mapsto> s)) (bptr c)))"
    using assms by (auto simp: room_def srch_pre_def split: if_splits)
  moreover have "dom ((srch_heap st)(sk_ptr key \<mapsto> s)) = bptr ` kh_elems (srch_cache st)"
    using assms(1) b by (auto simp: room_def srch_pre_def intro: rev_image_eqI)
  ultimately show ?thesis using fd assms(1) by (simp add: room_def srch_pre_def fd_limit_def)
qed

text \<open>What \<open>srch_init\<close> starts from: the new object is in the cache, not open.\<close>

lemma srch_init_result:
  assumes pre: "srch_pre {sk_ptr key} st" and b: "key_bucket key \<in> kh_elems (srch_cache st)"
    and opts: "opts_ok opts" "sk_ckey key = ckey_of opts" "dirv req = opt_args CHR ''d'' opts"
      "qpfxv req = opt_args CHR ''Q'' opts" "dirv req \<noteq> []" "length (dirv req) < MY_ARG_MAX"
  shows "\<exists>r. srch_init junk op is_reg req key st = Some r
    \<and> (\<forall>st'. r = Inr st' \<longrightarrow> srch_ok st' \<and> my_fd_max st' = my_fd_max st \<and> locked req st st'
         \<and> (\<exists>s. srch_heap st' (sk_ptr key) = Some s \<and> made_for (sk_ckey key) s)
         \<and> (my_fd_max st < SHARD_COST \<longrightarrow> kh_elems (srch_cache st') = {key_bucket key}))"
proof -
  define nfd where "nfd = int (length (dirv req)) * SHARD_COST"
  have nfd: "0 \<le> nfd" "nfd \<le> SHARD_COST * 255" using opts(6) by (auto simp: nfd_def SHARD_COST_def MY_ARG_MAX_def)
  define fin where "fin = (\<lambda>(st :: srch_state) phrase. map_sum id (\<lambda>s. st\<lparr>srch_heap := (srch_heap st)(sk_ptr key \<mapsto> s)\<rparr>)
    (srch_init_extra (qpfxv req) (srch_qp (lei st) (code_search req) (srch_new\<lparr>s_db := dirv req, s_phrase := phrase\<rparr>))))"
  have fin: "srch_ok st' \<and> my_fd_max st' = my_fd_max st1 \<and> lock_log st' = lock_log st1 \<and> srch_cache st' = srch_cache st1
      \<and> (\<exists>s. srch_heap st' (sk_ptr key) = Some s \<and> made_for (sk_ckey key) s)"
    if r: "room key nfd st1" and f: "fin st1 phrase = Inr st'" for st1 phrase st'
  proof -
    obtain s where s: "srch_init_extra (qpfxv req) (srch_qp (lei st1) (code_search req) (srch_new\<lparr>s_db := dirv req, s_phrase := phrase\<rparr>)) = Inr s"
      "st' = st1\<lparr>srch_heap := (srch_heap st1)(sk_ptr key \<mapsto> s)\<rparr>"
      using f by (cases "srch_init_extra (qpfxv req) (srch_qp (lei st1) (code_search req) (srch_new\<lparr>s_db := dirv req, s_phrase := phrase\<rparr>))")
        (auto simp: fin_def)
    have "s_db s = dirv req" using srch_init_extra_db [OF s(1)] by (simp add: srch_qp_def)
    moreover have "made_for (sk_ckey key) s" unfolding made_for_def using opts(1-5) s(1) by metis
    ultimately show ?thesis using finish_ok [of key s st1] r s(2) by (simp add: nfd_def)
  qed
  obtain st0 where st0: "(if shard_nfd st + nfd > my_fd_max st
        then map_option (\<lambda>st. st\<lparr>shard_nfd := nfd\<rparr>) (srch_cache_renew junk key st)
        else Some (st\<lparr>shard_nfd := shard_nfd st + nfd\<rparr>)) = Some st0"
    "room key nfd st0" "my_fd_max st0 = my_fd_max st" "lei st0 = lei st" "lock_log st0 = lock_log st"
    "shard_nfd st + nfd > my_fd_max st \<longrightarrow> kh_elems (srch_cache st0) = {key_bucket key}"
    using make_room [OF pre b nfd] by blast
  define st1 where "st1 = with_locks req st0"
  have st1: "room key nfd st1" "my_fd_max st1 = my_fd_max st" "lock_log st1 = lock_log st @ [lockv req]"
    using st0(2-5) by (simp_all add: st1_def)
  have "0 \<le> shard_nfd st" "SHARD_COST \<le> nfd"
    using pre fd_use_nonneg [of st] opts(5) by (auto simp: srch_pre_def nfd_def SHARD_COST_def Suc_le_eq)
  then have one: "my_fd_max st < SHARD_COST \<longrightarrow> kh_elems (srch_cache st1) = {key_bucket key}"
    using st0(6) by (simp add: st1_def)
  have "srch_pre {sk_ptr key} st1" "key_bucket key \<in> kh_elems (srch_cache st1)" "nfd \<le> shard_nfd st1"
      "shard_nfd st1 \<le> fd_limit st1"
    using st1(1) fd_use_nonneg [of st1] by (auto simp: room_def srch_pre_def)
  then obtain st2 where st2: "srch_cache_renew junk key st1 = Some st2" "room key nfd (st2\<lparr>shard_nfd := shard_nfd st1\<rparr>)"
    "my_fd_max st2 = my_fd_max st1" "lei st2 = lei st1" "shard_nfd st2 = shard_nfd st1"
    "lock_log st2 = lock_log st1" "kh_elems (srch_cache st2) = {key_bucket key}"
    using renew_room [of key st1 nfd "shard_nfd st1" junk] nfd(1) by blast
  have "st2\<lparr>shard_nfd := shard_nfd st1\<rparr> = st2" unfolding st2(5) [symmetric] by (cases st2) simp
  then have "room key nfd st2" using st2(2) by simp
  then have r2: "room key nfd (with_locks req st2)" by simp
  have eq: "srch_init junk op is_reg req key st =
      (case open_shards (op 0) is_reg (lei st1) (dirv req) of
         Inl a \<Rightarrow> Some (Inl a)
       | Inr (Inr phrase) \<Rightarrow> Some (fin st1 phrase)
       | Inr (Inl dir) \<Rightarrow>
           (case open_shards (op 1) is_reg (lei (with_locks req st2)) (dirv req) of
              Inl a \<Rightarrow> Some (Inl a)
            | Inr (Inr phrase) \<Rightarrow> Some (fin (with_locks req st2) phrase)
            | Inr (Inl dir) \<Rightarrow> Some (Inl (CantOpen dir))))"
    unfolding srch_init_def Let_def nfd_def [symmetric] fin_def st0(1) using st2(1)
    by (simp add: st1_def split: sum.split)
  show ?thesis unfolding eq
    using fin [OF st1(1)] fin [OF r2] st1(2,3) st2(3,6,7) one by (auto simp: locked_def split: sum.split)
qed

subsection \<open>Looking an object up\<close>

lemma made_for_unique:
  assumes "made_for (ckey_of opts) s" "opts_ok opts"
  shows "s_db s = opt_args CHR ''d'' opts"
    "\<exists>l code phrase. srch_init_extra (opt_args CHR ''Q'' opts)
       (srch_qp l code (srch_new\<lparr>s_db := opt_args CHR ''d'' opts, s_phrase := phrase\<rparr>)) = Inr s"
proof -
  obtain opts' l code phrase where o: "opts_ok opts'" "ckey_of opts = ckey_of opts'"
    "srch_init_extra (opt_args CHR ''Q'' opts')
       (srch_qp l code (srch_new\<lparr>s_db := opt_args CHR ''d'' opts', s_phrase := phrase\<rparr>)) = Inr s"
    using assms(1) by (auto simp: made_for_def)
  have "opts = opts'" using assms(2) o(1,2) by (rule ckey_of_inj)
  with o(3) show "\<exists>l code phrase. srch_init_extra (opt_args CHR ''Q'' opts)
       (srch_qp l code (srch_new\<lparr>s_db := opt_args CHR ''d'' opts, s_phrase := phrase\<rparr>)) = Inr s" by blast
  show "s_db s = opt_args CHR ''d'' opts"
    using srch_init_extra_db [OF o(3)] \<open>opts = opts'\<close> by (simp add: srch_qp_def split: if_splits)
qed

lemma srch_pre_insert:
  assumes "srch_ok st" "kh_wf cs_hash (cs_eq srch_eq) h" "sk_ptr key = next_ptr st"
    "kh_elems h = insert (key_bucket key) (kh_elems (srch_cache st))"
  shows "srch_pre {sk_ptr key} (st\<lparr>srch_heap := (srch_heap st)(sk_ptr key \<mapsto> srch_new), next_ptr := Suc (next_ptr st), srch_cache := h\<rparr>)"
proof -
  let ?E = "kh_elems (srch_cache st)" and ?heap = "(srch_heap st)(sk_ptr key \<mapsto> srch_new)"
  have new: "bptr b \<noteq> sk_ptr key" if "b \<in> ?E" for b using that assms(1,3) by (auto simp: srch_pre_def)
  then have "key_bucket key \<notin> ?E" by force
  then have "(\<Sum>b\<in>kh_elems h. SHARD_COST * int (length (s_db (the (?heap (bptr b))))))
      = (\<Sum>b\<in>?E. SHARD_COST * int (length (s_db (the (?heap (bptr b))))))"
    using assms(4) by (simp add: srch_new_def)
  also have "\<dots> = fd_use st" unfolding fd_use_def using new by (intro sum.cong) auto
  finally have fd: "fd_use (st\<lparr>srch_heap := ?heap, next_ptr := Suc (next_ptr st), srch_cache := h\<rparr>) = fd_use st"
    by (simp add: fd_use_def)
  have "inj_on bptr ?E" using assms(1) by (simp add: srch_pre_def)
  then have "inj_on bptr (kh_elems h)" unfolding assms(4) inj_on_insert using new by fastforce
  moreover have "dom ?heap = bptr ` kh_elems h" using assms(1,4) by (auto simp: srch_pre_def)
  moreover have "\<forall>b\<in>kh_elems h. bptr b < Suc (next_ptr st) \<and> cs_hash b = srch_hash (cs_key b)
      \<and> (if bptr b \<in> {sk_ptr key} then ?heap (bptr b) = Some srch_new else made_for (sk_ckey (cs_key b)) (the (?heap (bptr b))))"
    using assms(1,3,4) new by (auto simp: srch_pre_def less_Suc_eq)
  ultimately show ?thesis using assms(1,2) fd by (auto simp: srch_pre_def fd_limit_def)
qed

lemma dispatch_srch_result:
  assumes ok: "srch_ok st" "my_fd_max st \<le> 2 ^ 32"
    and opts: "opts_ok opts" "dirv req = opt_args CHR ''d'' opts" "qpfxv req = opt_args CHR ''Q'' opts"
      "dirv req \<noteq> []" "length (dirv req) < MY_ARG_MAX"
  shows "\<exists>r. dispatch_srch junk op is_reg reopens req (ckey_of opts) st = Some r
    \<and> (\<forall>p st'. r = Inr (p, st') \<longrightarrow> srch_ok st' \<and> my_fd_max st' = my_fd_max st \<and> locked req st st'
         \<and> (\<exists>s. srch_heap st' p = Some s \<and> made_for (ckey_of opts) s)
         \<and> (my_fd_max st < SHARD_COST \<longrightarrow> card (kh_elems (srch_cache st)) \<le> 1 \<longrightarrow> card (kh_elems (srch_cache st')) \<le> 1))"
proof -
  define key where "key = \<lparr>sk_ptr = next_ptr st, sk_ckey = ckey_of opts\<rparr>"
  let ?h = "srch_cache st" and ?b = "key_bucket key"
  define st1 where "st1 = st\<lparr>srch_heap := (srch_heap st)(sk_ptr key \<mapsto> srch_new), next_ptr := Suc (next_ptr st)\<rparr>"
  have kp: "sk_ptr key = next_ptr st" "sk_ckey key = ckey_of opts" by (simp_all add: key_def)
  have wf: "kh_wf cs_hash (cs_eq srch_eq) ?h" using ok(1) by (simp add: srch_pre_def)
  have same: "cs_eq srch_eq b ?b \<longleftrightarrow> sk_ckey (cs_key b) = sk_ckey key" if "b \<in> kh_elems ?h" for b
    using that ok(1) by (auto simp: srch_pre_def cs_eq_def srch_eq_iff srch_hash_def)
  obtain h i where h: "srch_set_put junk ?h key = Some (h, i, if \<exists>b\<in>kh_elems ?h. cs_eq srch_eq b ?b then 0 else 1)"
    "kh_wf cs_hash (cs_eq srch_eq) h"
    "if \<exists>b\<in>kh_elems ?h. cs_eq srch_eq b ?b
     then kh_elems h = kh_elems ?h \<and> kh_bucket h i \<in> kh_elems ?h \<and> cs_eq srch_eq (kh_bucket h i) ?b
     else kh_elems h = insert ?b (kh_elems ?h) \<and> kh_bucket h i = ?b"
    using sr.putp_correct [OF wf srch_ok_count [OF ok], of junk ?b] by (auto simp: srch_set_put_def cset_put_def)
  have eq: "dispatch_srch junk op is_reg reopens req (ckey_of opts) st =
      (if \<exists>b\<in>kh_elems ?h. cs_eq srch_eq b ?b
       then Some (if reopens (the (srch_free (sk_ptr key) (srch_heap st1) (bptr (kh_bucket h i))))
         then Inr (bptr (kh_bucket h i), with_locks req (st1\<lparr>srch_cache := h, srch_heap := srch_free (sk_ptr key) (srch_heap st1)\<rparr>))
         else Inl Uncaught)
       else map_option (map_sum id (\<lambda>st. (bptr (kh_bucket h i), st)))
         (srch_init junk op is_reg req (cs_key (kh_bucket h i)) (st1\<lparr>srch_cache := h\<rparr>)))"
    using h(1) unfolding key_def st1_def by (simp add: dispatch_srch_def Let_def cset_key_def split: if_splits)
  show ?thesis
  proof (cases "\<exists>b\<in>kh_elems ?h. cs_eq srch_eq b ?b")
    case True
    let ?st = "with_locks req (st1\<lparr>srch_cache := h, srch_heap := srch_free (sk_ptr key) (srch_heap st1)\<rparr>)"
    have f: "kh_elems h = kh_elems ?h" "kh_bucket h i \<in> kh_elems ?h" "sk_ckey (cs_key (kh_bucket h i)) = ckey_of opts"
      using h(3) True same kp by auto
    have "next_ptr st \<notin> dom (srch_heap st)" using ok(1) by (force simp: srch_pre_def)
    then have "srch_heap st (next_ptr st) = None" by (simp add: domIff)
    then have heap: "srch_free (sk_ptr key) (srch_heap st1) = srch_heap st" by (simp add: srch_free_def st1_def kp(1) fun_upd_idem)
    then have "srch_ok ?st"
      using ok(1) f(1) h(2) by (auto simp: srch_pre_def st1_def fd_use_def fd_limit_def less_Suc_eq)
    moreover have "\<exists>s. srch_heap ?st (bptr (kh_bucket h i)) = Some s \<and> made_for (ckey_of opts) s"
      using ok(1) f(2,3) by (fastforce simp: srch_pre_def heap)
    ultimately show ?thesis unfolding eq using True f(1) by (simp add: st1_def locked_def)
  next
    case False
    then have f: "kh_elems h = insert ?b (kh_elems ?h)" "kh_bucket h i = ?b" using h(3) by auto
    have "srch_pre {sk_ptr key} (st1\<lparr>srch_cache := h\<rparr>)"
      unfolding st1_def using ok(1) h(2) kp(1) f(1) by (rule srch_pre_insert)
    moreover have "?b \<in> kh_elems (srch_cache (st1\<lparr>srch_cache := h\<rparr>))" using f(1) by simp
    ultimately obtain r where r: "srch_init junk op is_reg req key (st1\<lparr>srch_cache := h\<rparr>) = Some r"
      "\<forall>st'. r = Inr st' \<longrightarrow> srch_ok st' \<and> my_fd_max st' = my_fd_max (st1\<lparr>srch_cache := h\<rparr>) \<and> locked req (st1\<lparr>srch_cache := h\<rparr>) st'
         \<and> (\<exists>s. srch_heap st' (sk_ptr key) = Some s \<and> made_for (sk_ckey key) s)
         \<and> (my_fd_max (st1\<lparr>srch_cache := h\<rparr>) < SHARD_COST \<longrightarrow> kh_elems (srch_cache st') = {?b})"
      using srch_init_result [OF _ _ opts(1) kp(2) opts(2-5)] by blast
    then show ?thesis unfolding eq using False f(2) kp(2) by (cases r) (auto simp: st1_def locked_def)
  qed
qed

subsection \<open>Properties\<close>

text \<open>The states a worker's cache can be in: it starts empty, and requests come in any order.\<close>

definition srch_start :: "int \<Rightarrow> bool \<Rightarrow> srch_state" where
  "srch_start fd_max l = \<lparr>srch_cache = kh_init, srch_heap = Map.empty, next_ptr = 0, shard_nfd = 0, my_fd_max = fd_max, lei = l, lock_log = []\<rparr>"

definition req_opts :: "req \<Rightarrow> (char \<times> string) list \<Rightarrow> bool" where
  "req_opts req opts \<longleftrightarrow> opts_ok opts \<and> dirv req = opt_args CHR ''d'' opts \<and> qpfxv req = opt_args CHR ''Q'' opts
     \<and> dirv req \<noteq> [] \<and> length (dirv req) < MY_ARG_MAX"

inductive srch_reach :: "int \<Rightarrow> bool \<Rightarrow> srch_state \<Rightarrow> bool" for fd_max l where
  start: "srch_reach fd_max l (srch_start fd_max l)"
| request: "srch_reach fd_max l st \<Longrightarrow> req_opts req opts
    \<Longrightarrow> dispatch_srch junk op is_reg reopens req (ckey_of opts) st = Some (Inr (p, st')) \<Longrightarrow> srch_reach fd_max l st'"

lemma srch_ok_start: "srch_ok (srch_start fd_max l)"
  by (simp add: srch_pre_def srch_start_def fd_use_def fd_limit_def SHARD_COST_def)

lemma srch_reach_ok:
  assumes "srch_reach fd_max l st" "fd_max \<le> 2 ^ 32"
  shows "srch_ok st \<and> my_fd_max st = fd_max \<and> (fd_max < SHARD_COST \<longrightarrow> card (kh_elems (srch_cache st)) \<le> 1)"
  using assms
proof induction
  case start
  show ?case using srch_ok_start by (simp add: srch_start_def)
next
  case (request st req opts junk op is_reg reopens p st')
  then show ?case using dispatch_srch_result [of st opts req junk op is_reg reopens] by (auto simp: req_opts_def)
qed



text \<open>A first request on an empty cache, for one shard and one prefix.\<close>

definition srch_req :: req where
  "srch_req = \<lparr>lockv = [], argv = [''mset''], pfxv = [], qpfxv = [''gmane=XGMANE''], dirv = [''/x''], lenv = [], Pgit_dir = None,
     Oeidx_key = None, req_fn = None, req_max = 0, req_off = 0, threadid = 0, uid_min = 0, uid_max = 0, timeout_sec = 0,
     nr_out = 0, sort_col = 0, has_fp1 = False, has_input = False, collapse_threads = False,
     code_search = False, relevance = False, asc = False, optind = 1\<rparr>"

definition srch_opts :: "(char \<times> string) list" where
  "srch_opts = [(CHR ''d'', ''/x''), (CHR ''Q'', ''gmane=XGMANE'')]"

definition srch_junk :: "srch_key cs_bucket" where
  "srch_junk = \<lparr>cs_key = \<lparr>sk_ptr = 0, sk_ckey = []\<rparr>, cs_hash = 0\<rparr>"

lemma srch_req_opts: "req_opts srch_req srch_opts"
  by (simp add: req_opts_def srch_req_def srch_opts_def opts_ok_def opt_args_def NUL_def MY_ARG_MAX_def)

lemma srch_first_lookup:
  assumes "dirv req = [''/x'']" "qpfxv req = [''gmane=XGMANE'']" "code_search req = False"
  shows "\<exists>p st'. dispatch_srch srch_junk (\<lambda>k d. True) (\<lambda>f. False) (\<lambda>s. True) req (ckey_of srch_opts) (srch_start 960 False)
    = Some (Inr (p, st'))"
proof -
  let ?key = "\<lparr>sk_ptr = 0, sk_ckey = ckey_of srch_opts\<rparr>"
  obtain h i where h: "srch_set_put srch_junk kh_init ?key = Some (h, i, 1)" "kh_bucket h i = key_bucket ?key"
    using sr.putp_correct [OF kh_wf_init, of srch_junk "key_bucket ?key"]
    by (auto simp: srch_set_put_def cset_put_def kh_init_def kh_elems_init [unfolded kh_init_def])
  have "split_at_chr CHR ''='' ''gmane=XGMANE'' = Some (''gmane'', ''XGMANE'')" by code_simp
  then show ?thesis
    using h assms by (simp add: dispatch_srch_def srch_start_def srch_init_def cset_key_def SHARD_COST_def open_shards_def
        is_chert_def PATH_MAX_def srch_qp_def)
qed

lemma srch_first_request:
  "\<exists>p st'. dispatch_srch srch_junk (\<lambda>k d. True) (\<lambda>f. False) (\<lambda>s. True) srch_req (ckey_of srch_opts) (srch_start 960 False) = Some (Inr (p, st'))"
  by (rule srch_first_lookup) (simp_all add: srch_req_def)



end
