(* ===== verification/Dispatch.thy ===== *)
theory Dispatch
  imports Srch_Spec Cidx_Spec Xh_Mset
begin

text \<open>
  The request cycle of a worker in \<open>xap_helper.h\<close>: splitting the received buffer into arguments,
  \<open>dispatch\<close> with its options, finding the database, running the command.  \<open>getopt\<close> is that of the
  GNU C library, which moves arguments that are no options to the end.
\<close>

subsection \<open>Options\<close>

definition XH_SPEC :: string where
  "XH_SPEC = ''acd:g:k:l:m:o:rtu:A:K:O:T:U:Q:''"

text \<open>Whether an option is known, and whether it takes an argument.\<close>

fun opt_lookup :: "string \<Rightarrow> char \<Rightarrow> bool option" where
  "opt_lookup [] c = None"
| "opt_lookup (x # spec) c =
     (if c = CHR '':'' then None
      else if x = c then Some (chr_at spec 0 = CHR '':'')
      else opt_lookup spec c)"

text \<open>
  All the calls of \<open>getopt\<close> with the options \<open>spec\<close>: \<open>cs\<close> is the rest of the argument being scanned.  The options in order (a
  question mark for an error), the arguments that were used up, and those left at the end.
\<close>

function getopt_go :: "string \<Rightarrow> string \<Rightarrow> string list \<Rightarrow> (char \<times> string) list \<times> string list \<times> string list" where
  "getopt_go spec [] [] = ([], [], [])"
| "getopt_go spec [] (a # args) =
     (if a = ''--'' then ([], [a], args)
      else if chr_at a 0 = CHR ''-'' \<and> length a > 1 then
        let (evs, used, rest) = getopt_go spec (drop 1 a) args in (evs, a # used, rest)
      else let (evs, used, rest) = getopt_go spec [] args in (evs, used, a # rest))"
| "getopt_go spec (c # cs) args =
     (case opt_lookup spec c of
        None \<Rightarrow> let (evs, used, rest) = getopt_go spec cs args in ((CHR ''?'', []) # evs, used, rest)
      | Some False \<Rightarrow> let (evs, used, rest) = getopt_go spec cs args in ((c, []) # evs, used, rest)
      | Some True \<Rightarrow>
          if cs \<noteq> [] then let (evs, used, rest) = getopt_go spec [] args in ((c, cs) # evs, used, rest)
          else (case args of
                  [] \<Rightarrow> ([(CHR ''?'', [])], [], [])
                | a # args \<Rightarrow> let (evs, used, rest) = getopt_go spec [] args in ((c, a) # evs, a # used, rest)))"
  by pat_completeness auto
termination
  by (relation "measure (\<lambda>(spec, cs, args). 2 * length cs + sum_list (map (\<lambda>a. 2 * length a + 1) args))") auto

declare getopt_go.simps [simp del]

subsection \<open>dispatch: the request\<close>

text \<open>\<open>struct req req = {}\<close>, with the arguments and whether a second descriptor was received.\<close>

definition req_zero :: "string list \<Rightarrow> bool \<Rightarrow> bool \<Rightarrow> req" where
  "req_zero args fp1 input = \<lparr>lockv = [], argv = args, pfxv = [], qpfxv = [], dirv = [], lenv = [], Pgit_dir = None,
     Oeidx_key = None, req_fn = None, req_max = 0, req_off = 0, threadid = 0, uid_min = 0, uid_max = 0, timeout_sec = 0,
     nr_out = 0, sort_col = 0, has_fp1 = fp1, has_input = input, collapse_threads = False, code_search = False,
     relevance = False, asc = False, optind = 1\<rparr>"

definition cmds :: "(string \<times> cmd) list" where
  "cmds = [(''mset'', cmd_mset_fn), (''dump_ibx'', cmd_dump_ibx_fn), (''dump_roots'', cmd_dump_roots_fn),
     (''test_inspect'', cmd_test_inspect_fn), (''test_sleep'', cmd_test_sleep_fn)]"

definition OPT_U :: "char \<Rightarrow> string \<Rightarrow> abort + int" where
  "OPT_U ch optarg =
     (let (v, n) = strtoul optarg
      in if chr_at optarg n \<noteq> NUL \<or> v = ULLONG_MAX then Inl (BadOption ch optarg) else Inr v)"

definition opt_push :: "char \<Rightarrow> string \<Rightarrow> string list \<Rightarrow> abort + string list" where
  "opt_push ch optarg v =
     (let v = v @ [optarg] in if length v = MY_ARG_MAX then Inl (TooManyOption ch) else Inr v)"

text \<open>The \<open>switch\<close> of \<open>dispatch\<close>: the request and the key written so far.\<close>

definition dispatch_opt :: "char \<times> string \<Rightarrow> req \<times> string \<Rightarrow> abort + req \<times> string" where
  "dispatch_opt ev rk =
     (let (c, optarg) = ev; (req, key) = rk
      in if c = CHR ''a'' then Inr (req\<lparr>asc := True\<rparr>, key)
         else if c = CHR ''c'' then Inr (req\<lparr>code_search := True\<rparr>, key)
         else if c = CHR ''d'' then
           sum_bind (opt_push c optarg (dirv req)) (\<lambda>v. Inr (req\<lparr>dirv := v\<rparr>, key @ ''-d'' @ [NUL] @ optarg @ [NUL]))
         else if c = CHR ''g'' then Inr (req\<lparr>Pgit_dir := Some optarg\<rparr>, key)
         else if c = CHR ''k'' then
           let (v, n) = strtol optarg
           in if chr_at optarg n \<noteq> NUL \<or> v = LONG_MAX \<or> v = LONG_MIN then Inl (BadOption c optarg)
              else Inr (req\<lparr>sort_col := v\<rparr>, key)
         else if c = CHR ''l'' then sum_bind (opt_push c optarg (lockv req)) (\<lambda>v. Inr (req\<lparr>lockv := v\<rparr>, key))
         else if c = CHR ''m'' then sum_bind (OPT_U c optarg) (\<lambda>v. Inr (req\<lparr>req_max := v\<rparr>, key))
         else if c = CHR ''o'' then sum_bind (OPT_U c optarg) (\<lambda>v. Inr (req\<lparr>req_off := v\<rparr>, key))
         else if c = CHR ''r'' then Inr (req\<lparr>relevance := True\<rparr>, key)
         else if c = CHR ''t'' then Inr (req\<lparr>collapse_threads := True\<rparr>, key)
         else if c = CHR ''u'' then sum_bind (OPT_U c optarg) (\<lambda>v. Inr (req\<lparr>uid_min := v\<rparr>, key))
         else if c = CHR ''A'' then sum_bind (opt_push c optarg (pfxv req)) (\<lambda>v. Inr (req\<lparr>pfxv := v\<rparr>, key))
         else if c = CHR ''K'' then sum_bind (OPT_U c optarg) (\<lambda>v. Inr (req\<lparr>timeout_sec := v\<rparr>, key))
         else if c = CHR ''O'' then Inr (req\<lparr>Oeidx_key := Some optarg\<rparr>, key)
         else if c = CHR ''T'' then sum_bind (OPT_U c optarg) (\<lambda>v. Inr (req\<lparr>threadid := v\<rparr>, key))
         else if c = CHR ''U'' then sum_bind (OPT_U c optarg) (\<lambda>v. Inr (req\<lparr>uid_max := v\<rparr>, key))
         else if c = CHR ''Q'' then
           sum_bind (opt_push c optarg (qpfxv req)) (\<lambda>v. Inr (req\<lparr>qpfxv := v\<rparr>, key @ ''-Q'' @ [NUL] @ optarg @ [NUL]))
         else Inl (BadSwitch c))"

fun dispatch_opts :: "(char \<times> string) list \<Rightarrow> req \<times> string \<Rightarrow> abort + req \<times> string" where
  "dispatch_opts [] rk = Inr rk"
| "dispatch_opts (ev # evs) rk = sum_bind (dispatch_opt ev rk) (dispatch_opts evs)"

text \<open>Everything up to the lookup in the cache.\<close>

definition dispatch_parse :: "req \<Rightarrow> abort + req \<times> string" where
  "dispatch_parse req =
     (let req = req\<lparr>threadid := ULLONG_MAX, uid_min := ULLONG_MAX, uid_max := ULLONG_MAX, req_fn := map_of cmds (argv req ! 0)\<rparr>
      in if req_fn req = None then Inl (NotHandled (argv req ! 0))
         else
           let (evs, used, rest) = getopt_go XH_SPEC [] (drop 1 (argv req));
               req = req\<lparr>argv := argv req ! 0 # used @ rest, optind := 1 + length used\<rparr>
           in sum_bind (dispatch_opts evs (req, [])) (\<lambda>(req, key).
                if to_s32 (int (length key)) \<le> 0 \<or> dirv req = [] then Inl NoDirs else Inr (req, key)))"

subsection \<open>dispatch: the command\<close>

text \<open>
  What a command runs in: the database of an object, the results of \<open>write\<close>, files, the buffer size,
  the process identifier.
\<close>

record cmd_env =
  env_db :: "srch \<Rightarrow> xapian"
  env_write :: "nat \<Rightarrow> nat \<Rightarrow> int"
  env_file :: "string \<Rightarrow> string option"
  env_bufsiz :: nat
  env_pid :: nat
  env_junk :: root_bucket

definition cmd_test_inspect :: "nat \<Rightarrow> xapian \<Rightarrow> string" where
  "cmd_test_inspect pid db =
     ''pid='' @ dec_str pid @ '' has_threadid='' @ (if xp_has_threadid db then ''1'' else ''0'')"

definition run_cmd :: "cmd_env \<Rightarrow> srch \<Rightarrow> req \<Rightarrow> client \<Rightarrow> client \<times> string \<times> cmd_ret" where
  "run_cmd env s req cl =
     (let db = env_db env s
      in case the (req_fn req) of
           cmd_mset_fn \<Rightarrow>
             (case cmd_mset (env_bufsiz env) db (env_write env) req cl of
                Inl a \<Rightarrow> (cl, [], Died a)
              | Inr (cl, Inl x) \<Rightarrow> (cl, [], Threw x)
              | Inr (cl, Inr ok) \<Rightarrow> (cl, [], Returned ok))
         | cmd_dump_ibx_fn \<Rightarrow>
             (case cmd_dump_ibx db req of
                (out, st, r) \<Rightarrow> (cl\<lparr>cl_out := cl_out cl @ concat out\<rparr>, st, r))
         | cmd_dump_roots_fn \<Rightarrow> cmd_dump_roots (env_junk env) db (env_write env) (env_file env) req cl
         | cmd_test_inspect_fn \<Rightarrow>
             (cl\<lparr>cl_out := cl_out cl @ cmd_test_inspect (env_pid env) db\<rparr>, [], Returned True)
         | cmd_test_sleep_fn \<Rightarrow> (cl, [], Died Waiting))"

text \<open>What is reported after the command; \<open>alarm\<close> is set for its duration.\<close>

datatype report = NoReport | Failed | XapianErrorReport | UnhandledException

fun cmd_report :: "cmd_ret \<Rightarrow> abort + report" where
  "cmd_report (Returned ok) = Inr (if ok then NoReport else Failed)"
| "cmd_report (Threw x) = Inr (if is_xapian_error x then XapianErrorReport else UnhandledException)"
| "cmd_report (Died a) = Inl a"

definition alarm_secs :: "req \<Rightarrow> int option" where
  "alarm_secs req =
     (if timeout_sec req \<noteq> 0 then Some (if timeout_sec req > UINT_MAX then UINT_MAX else timeout_sec req) else None)"

definition dispatch ::
  "cmd_env \<Rightarrow> srch_key cs_bucket \<Rightarrow> (nat \<Rightarrow> string \<Rightarrow> bool) \<Rightarrow> (string \<Rightarrow> bool) \<Rightarrow> (srch \<Rightarrow> bool) \<Rightarrow> req \<Rightarrow> srch_state \<Rightarrow> client
    \<Rightarrow> (abort + (srch_state \<times> client \<times> string \<times> report)) option"
where
  "dispatch env junk op is_reg reopens req st cl =
     (case dispatch_parse req of
        Inl a \<Rightarrow> Some (Inl a)
      | Inr (req, key) \<Rightarrow>
          do {
            r \<leftarrow> dispatch_srch junk op is_reg reopens req key st;
            (case r of
               Inl a \<Rightarrow> Some (Inl a)
             | Inr (p, st) \<Rightarrow>
                 (case run_cmd env (the (srch_heap st p)) req cl of
                    (cl, status, r) \<Rightarrow> Some (map_sum id (\<lambda>rep. (st, cl, status, rep)) (cmd_report r))))
          })"

text \<open>\<open>recv_once\<close>, given the bytes that were received and what came with them.\<close>

definition recv_once ::
  "cmd_env \<Rightarrow> srch_key cs_bucket \<Rightarrow> (nat \<Rightarrow> string \<Rightarrow> bool) \<Rightarrow> (string \<Rightarrow> bool) \<Rightarrow> (srch \<Rightarrow> bool) \<Rightarrow> string \<Rightarrow> bool \<Rightarrow> bool \<Rightarrow> srch_state \<Rightarrow> client
    \<Rightarrow> (abort + (srch_state \<times> client \<times> string \<times> report)) option"
where
  "recv_once env junk op is_reg reopens rbuf fp1 input st cl =
     (case split2argv rbuf MY_ARG_MAX of
        Inl a \<Rightarrow> Some (Inl a)
      | Inr dst \<Rightarrow> dispatch env junk op is_reg reopens (req_zero (argv_strings rbuf dst) fp1 input) st cl)"

end
