(* ===== verification/Dispatch_Spec.thy ===== *)
theory Dispatch_Spec
  imports Dispatch
begin

text \<open>
  Properties of the request cycle: what the options of a request become, that the key of the cache
  is made of exactly its shards and prefixes, and which requests are refused.
\<close>

subsection \<open>Options\<close>

text \<open>The characters of the arguments of options come from the arguments that are scanned.\<close>

definition opt_chars :: "(char \<times> string) list \<Rightarrow> char set" where
  "opt_chars evs = (\<Union>x\<in>set evs. set (snd x))"

lemma opt_chars_simps [simp]:
  "opt_chars [] = {}" "opt_chars ((c, a) # evs) = set a \<union> opt_chars evs"
  by (simp_all add: opt_chars_def)

lemma getopt_fst:
  "fst (getopt_go spec [] []) = []"
  "fst (getopt_go spec [] (a # args)) = (if a = ''--'' then []
     else if chr_at a 0 = CHR ''-'' \<and> length a > 1 then fst (getopt_go spec (drop 1 a) args) else fst (getopt_go spec [] args))"
  "opt_lookup spec c = None \<Longrightarrow> fst (getopt_go spec (c # cs) args) = (CHR ''?'', []) # fst (getopt_go spec cs args)"
  "opt_lookup spec c = Some False \<Longrightarrow> fst (getopt_go spec (c # cs) args) = (c, []) # fst (getopt_go spec cs args)"
  "opt_lookup spec c = Some True \<Longrightarrow> cs \<noteq> [] \<Longrightarrow> fst (getopt_go spec (c # cs) args) = (c, cs) # fst (getopt_go spec [] args)"
  "opt_lookup spec c = Some True \<Longrightarrow> fst (getopt_go spec [c] []) = [(CHR ''?'', [])]"
  "opt_lookup spec c = Some True \<Longrightarrow> fst (getopt_go spec [c] (a # args)) = (c, a) # fst (getopt_go spec [] args)"
  by (simp_all only: getopt_go.simps option.case bool.case list.case case_prod_unfold Let_def fst_conv if_distrib [of fst]
      if_False if_True simp_thms cong: if_cong)

lemma getopt_chars: "opt_chars (fst (getopt_go spec cs args)) \<subseteq> set cs \<union> set (concat args)"
proof (induction spec cs args rule: getopt_go.induct)
  case (2 spec a args)
  have "opt_chars (fst (getopt_go spec (drop 1 a) args)) \<subseteq> set (concat (a # args))"
    if "a \<noteq> ''--''" "chr_at a 0 = CHR ''-'' \<and> length a > 1"
    using "2.IH"(1) [OF that] set_drop_subset [of 1 a] unfolding concat.simps set_append by blast
  moreover have "opt_chars (fst (getopt_go spec [] args)) \<subseteq> set (concat (a # args))"
    if "a \<noteq> ''--''" "\<not> (chr_at a 0 = CHR ''-'' \<and> length a > 1)"
    using "2.IH"(2) [OF that] by auto
  ultimately show ?case unfolding getopt_fst by simp
next
  case (3 spec c cs args)
  consider "opt_lookup spec c = None" | "opt_lookup spec c = Some False"
    | "opt_lookup spec c = Some True" "cs \<noteq> []" | "opt_lookup spec c = Some True" "cs = []" "args = []"
    | a as where "opt_lookup spec c = Some True" "cs = []" "args = a # as"
    by (cases "opt_lookup spec c"; cases cs; cases args) (simp_all, (metis (full_types))+)
  then show ?case
  proof cases
    case 1
    then show ?thesis using "3.IH"(1) by (simp add: getopt_fst(3)) blast
  next
    case 2
    then show ?thesis using "3.IH"(4) [OF 2 refl] by (simp add: getopt_fst(4)) blast
  next
    case 3
    then show ?thesis using "3.IH"(2) [OF 3(1) refl 3(2)] by (simp add: getopt_fst(5)) blast
  next
    case 5
    then show ?thesis using "3.IH"(3) [OF 5(1) refl _ 5(3)] 5(2) by (simp add: getopt_fst(7)) blast
  qed (simp add: getopt_fst(6))
qed (simp add: getopt_fst(1))

lemma ckey_of_append: "ckey_of (xs @ ys) = ckey_of xs @ ckey_of ys"
  by (simp add: ckey_of_def)

definition key_opts :: "(char \<times> string) list \<Rightarrow> (char \<times> string) list" where
  "key_opts evs = filter (\<lambda>x. fst x \<in> {CHR ''d'', CHR ''Q''}) evs"

lemma dispatch_opt_result:
  assumes "dispatch_opt (c, a) (req, key) = Inr (req', key')"
  shows "dirv req' = dirv req @ opt_args CHR ''d'' [(c, a)]" "qpfxv req' = qpfxv req @ opt_args CHR ''Q'' [(c, a)]"
    "key' = key @ ckey_of (key_opts [(c, a)])"
    "length (dirv req) < MY_ARG_MAX \<Longrightarrow> length (dirv req') < MY_ARG_MAX" "argv req' = argv req" "optind req' = optind req"
    "req_fn req' = req_fn req"
  using assms
  by (auto simp: dispatch_opt_def opt_push_def opt_args_def key_opts_def ckey_of_def Let_def sum_bind_Inr_iff
      split: if_splits prod.splits)

lemma dispatch_opts_result:
  assumes "dispatch_opts evs (req, key) = Inr (req', key')"
  shows "dirv req' = dirv req @ opt_args CHR ''d'' evs \<and> qpfxv req' = qpfxv req @ opt_args CHR ''Q'' evs
    \<and> key' = key @ ckey_of (key_opts evs) \<and> (length (dirv req) < MY_ARG_MAX \<longrightarrow> length (dirv req') < MY_ARG_MAX)
    \<and> argv req' = argv req \<and> optind req' = optind req \<and> req_fn req' = req_fn req"
  using assms
proof (induction evs arbitrary: req key)
  case (Cons ev evs)
  obtain c a where ev: "ev = (c, a)" by (cases ev)
  obtain req1 key1 where s: "dispatch_opt (c, a) (req, key) = Inr (req1, key1)" "dispatch_opts evs (req1, key1) = Inr (req', key')"
    using Cons.prems by (auto simp: ev sum_bind_Inr_iff)
  show ?case using Cons.IH [OF s(2)] dispatch_opt_result [OF s(1)]
    by (auto simp: ev opt_args_def key_opts_def ckey_of_def)
qed (simp add: opt_args_def key_opts_def ckey_of_def)

lemma opt_args_key_opts: "c \<in> {CHR ''d'', CHR ''Q''} \<Longrightarrow> opt_args c (key_opts evs) = opt_args c evs"
  by (induction evs) (auto simp: opt_args_def key_opts_def)

lemma dispatch_parse_result:
  assumes "dispatch_parse (req_zero args fp1 input) = Inr (req, key)" "\<forall>a\<in>set args. NUL \<notin> set a" "args \<noteq> []"
  shows "\<exists>evs used rest. getopt_go XH_SPEC [] (drop 1 args) = (evs, used, rest) \<and> req_opts req (key_opts evs) \<and> key = ckey_of (key_opts evs)
    \<and> argv req = args ! 0 # used @ rest \<and> optind req = 1 + length used \<and> req_fn req = map_of cmds (args ! 0) \<and> req_fn req \<noteq> None"
proof -
  obtain evs used rest where g: "getopt_go XH_SPEC [] (drop 1 args) = (evs, used, rest)" by (metis prod_cases3)
  let ?r = "(req_zero args fp1 input)\<lparr>threadid := ULLONG_MAX, uid_min := ULLONG_MAX, uid_max := ULLONG_MAX,
      req_fn := map_of cmds (args ! 0), argv := args ! 0 # used @ rest, optind := 1 + length used\<rparr>"
  have fn: "map_of cmds (args ! 0) \<noteq> None"
    using assms(1) by (auto simp: dispatch_parse_def Let_def req_zero_def split: if_splits)
  have d: "dispatch_opts evs (?r, []) = Inr (req, key)" "dirv req \<noteq> []"
    using assms(1) g fn by (auto simp: dispatch_parse_def Let_def req_zero_def sum_bind_Inr_iff split: if_splits)
  note r = dispatch_opts_result [OF d(1)]
  have sub: "opt_chars evs \<subseteq> set (concat (drop 1 args))" using getopt_chars [of XH_SPEC "[]" "drop 1 args"] g by simp
  have nul: "NUL \<notin> set (concat (drop 1 args))" using assms(2) set_drop_subset [of 1 args] by auto
  have "NUL \<notin> set (snd x)" if "x \<in> set evs" for x using sub nul that unfolding opt_chars_def by blast
  then have "opts_ok (key_opts evs)" by (auto simp: opts_ok_def key_opts_def)
  moreover have "dirv req = opt_args CHR ''d'' (key_opts evs)" "qpfxv req = opt_args CHR ''Q'' (key_opts evs)"
    using r by (simp_all add: req_zero_def opt_args_key_opts)
  moreover have "length (dirv req) < MY_ARG_MAX" using r by (auto simp: req_zero_def MY_ARG_MAX_def)
  ultimately have "req_opts req (key_opts evs)" using d(2) unfolding req_opts_def by blast
  then show ?thesis using g r fn by (auto simp: req_zero_def)
qed

subsection \<open>A request that is served\<close>

lemma dispatch_result:
  assumes "srch_reach fd_max l st" "fd_max \<le> 2 ^ 32" "args \<noteq> []" "\<forall>a\<in>set args. NUL \<notin> set a"
  shows "\<exists>r. dispatch env junk op is_reg reopens (req_zero args fp1 input) st cl = Some r
    \<and> (\<forall>st' cl' status rep. r = Inr (st', cl', status, rep) \<longrightarrow> srch_reach fd_max l st'
        \<and> (\<exists>evs used rest req p s ret. getopt_go XH_SPEC [] (drop 1 args) = (evs, used, rest)
            \<and> argv req = args ! 0 # used @ rest \<and> optind req = 1 + length used \<and> req_fn req = map_of cmds (args ! 0)
            \<and> srch_heap st' p = Some s \<and> s_db s = opt_args CHR ''d'' evs
            \<and> run_cmd env s req cl = (cl', status, ret) \<and> cmd_report ret = Inr rep))"
proof (cases "dispatch_parse (req_zero args fp1 input)")
  case (Inl a)
  then show ?thesis by (simp add: dispatch_def)
next
  case (Inr rk)
  obtain req key where rk: "rk = (req, key)" by (cases rk)
  obtain evs used rest where p: "getopt_go XH_SPEC [] (drop 1 args) = (evs, used, rest)" "req_opts req (key_opts evs)"
    "key = ckey_of (key_opts evs)" "argv req = args ! 0 # used @ rest" "optind req = 1 + length used"
    "req_fn req = map_of cmds (args ! 0)"
    using dispatch_parse_result [OF Inr [unfolded rk] assms(4,3)] by blast
  have o: "opts_ok (key_opts evs)" "dirv req = opt_args CHR ''d'' (key_opts evs)" "qpfxv req = opt_args CHR ''Q'' (key_opts evs)"
    "dirv req \<noteq> []" "length (dirv req) < MY_ARG_MAX" using p(2) unfolding req_opts_def by blast+
  have st: "srch_ok st" "my_fd_max st \<le> 2 ^ 32" using srch_reach_ok [OF assms(1,2)] assms(2) by auto
  obtain r where r: "dispatch_srch junk op is_reg reopens req (ckey_of (key_opts evs)) st = Some r"
    "\<forall>p st'. r = Inr (p, st') \<longrightarrow> (\<exists>s. srch_heap st' p = Some s \<and> made_for (ckey_of (key_opts evs)) s)"
    using dispatch_srch_result [OF st o, of junk op is_reg reopens] by blast
  show ?thesis
  proof (cases r)
    case inl: (Inl a)
    then show ?thesis using r(1) by (simp add: dispatch_def Inr rk p(3))
  next
    case inr: (Inr pst)
    obtain pt st' where pst: "pst = (pt, st')" by (cases pst)
    obtain s where s: "srch_heap st' pt = Some s" "made_for (ckey_of (key_opts evs)) s" using r(2) inr pst by blast
    have db: "s_db s = opt_args CHR ''d'' evs"
      using made_for_unique [OF s(2) o(1)] opt_args_key_opts [of "CHR ''d''" evs] by auto
    have reach: "srch_reach fd_max l st'" using srch_reach.request [OF assms(1) p(2)] r(1) inr pst by blast
    obtain cl1 status ret where run: "run_cmd env s req cl = (cl1, status, ret)" by (metis prod_cases3)
    have d: "dispatch env junk op is_reg reopens (req_zero args fp1 input) st cl =
        Some (map_sum id (\<lambda>rep. (st', cl1, status, rep)) (cmd_report ret))"
      using r(1) inr pst s(1) run by (simp add: dispatch_def Inr rk p(3))
    show ?thesis
    proof (cases "cmd_report ret")
      case (Inl a)
      then show ?thesis by (simp add: d)
    next
      case rep: (Inr rep)
      have "\<exists>evs used rest req p s ret. getopt_go XH_SPEC [] (drop 1 args) = (evs, used, rest)
          \<and> argv req = args ! 0 # used @ rest \<and> optind req = 1 + length used \<and> req_fn req = map_of cmds (args ! 0)
          \<and> srch_heap st' p = Some s \<and> s_db s = opt_args CHR ''d'' evs
          \<and> run_cmd env s req cl = (cl1, status, ret) \<and> cmd_report ret = Inr rep"
        using p(1,4-6) s(1) db run rep by blast
      then show ?thesis using reach by (simp add: d rep)
    qed
  qed
qed

lemma split2argv_strings:
  assumes "split2argv buf limit = Inr dst"
  shows "argv_strings buf dst \<noteq> []" "\<forall>a\<in>set (argv_strings buf dst). NUL \<notin> set a"
  using assms by (auto simp: split2argv_def argv_strings_def cstr_from_def sum_bind_Inr_iff dest: set_takeWhileD split: if_splits)

lemma recv_once_reach:
  assumes "srch_reach fd_max l st" "fd_max \<le> 2 ^ 32"
  shows "\<exists>r. recv_once env junk op is_reg reopens rbuf fp1 input st cl = Some r
    \<and> (\<forall>st' out. r = Inr (st', out) \<longrightarrow> srch_reach fd_max l st')"
proof (cases "split2argv rbuf MY_ARG_MAX")
  case (Inr dst)
  then show ?thesis
    using dispatch_result [OF assms split2argv_strings [OF Inr], of env junk op is_reg reopens fp1 input cl]
    by (auto simp: recv_once_def)
qed (simp add: recv_once_def)

subsection \<open>Numbers\<close>

lemma OPT_U_dec_str:
  assumes "r = [] \<or> \<not> c_isdigit (hd r) \<and> hd r \<noteq> NUL"
  shows "OPT_U c (dec_str n @ r) = (if r = [] \<and> int n < ULLONG_MAX then Inr (int n) else Inl (BadOption c (dec_str n @ r)))"
proof -
  have nd: "\<not> c_isdigit (chr_at r 0)" using assms by (cases r) (auto simp: chr_at_def c_isdigit_def chr_code_def NUL_def)
  have "strto_scan (dec_str n @ r) = (False, int n, length (dec_str n))"
    using strto_scan_digits [OF dec_str_digits(2) dec_str_digits(1) nd] by (simp add: dec_val_dec_str)
  moreover have "chr_at (dec_str n @ r) (length (dec_str n)) = chr_at r 0" by simp
  moreover have "chr_at r 0 \<noteq> NUL \<longleftrightarrow> r \<noteq> []" using assms by (cases r) (auto simp: chr_at_def NUL_def)
  ultimately show ?thesis by (auto simp: OPT_U_def strtoul_def)
qed

subsection \<open>Requests as they are sent\<close>

text \<open>The arguments for a list of options, and the options that carry the fields of a request.\<close>

definition render :: "(char \<times> string) list \<Rightarrow> string list" where
  "render opts = concat (map (\<lambda>(c, a). [CHR ''-'', c] # (if opt_lookup XH_SPEC c = Some True then [a] else [])) opts)"

definition opt_known :: "char \<times> string \<Rightarrow> bool" where
  "opt_known x \<longleftrightarrow> opt_lookup XH_SPEC (fst x) = Some True \<or> opt_lookup XH_SPEC (fst x) = Some False \<and> snd x = []"

definition req_line ::
  "string list \<Rightarrow> string list \<Rightarrow> nat \<Rightarrow> nat \<Rightarrow> nat \<Rightarrow> nat \<Rightarrow> nat \<Rightarrow> nat \<Rightarrow> char list \<Rightarrow> (char \<times> string) list"
where
  "req_line dirs qs mx off umin umax thr tmo flags =
     map (Pair CHR ''d'') dirs @ map (Pair CHR ''Q'') qs @
     [(CHR ''m'', dec_str mx), (CHR ''o'', dec_str off), (CHR ''u'', dec_str umin), (CHR ''U'', dec_str umax),
      (CHR ''T'', dec_str thr), (CHR ''K'', dec_str tmo)] @ map (\<lambda>c. (c, [])) flags"

lemma getopt_rest: "\<forall>a\<in>set rest. chr_at a 0 \<noteq> CHR ''-'' \<Longrightarrow> getopt_go XH_SPEC [] rest = ([], [], rest)"
proof (induction rest)
  case (Cons a rest)
  then have "a \<noteq> ''--''" by (auto simp: chr_at_def)
  then show ?case using Cons by (simp add: getopt_go.simps(2))
qed (simp add: getopt_go.simps(1))

lemma getopt_render:
  assumes "\<forall>x\<in>set opts. opt_known x" "\<forall>a\<in>set rest. chr_at a 0 \<noteq> CHR ''-''"
  shows "getopt_go XH_SPEC [] (render opts @ rest) = (opts, render opts, rest)"
  using assms(1)
proof (induction opts)
  case Nil
  show ?case using getopt_rest [OF assms(2)] by (simp add: render_def)
next
  case (Cons x opts)
  obtain c a where x: "x = (c, a)" by (cases x)
  have ih: "getopt_go XH_SPEC [] (render opts @ rest) = (opts, render opts, rest)" using Cons by simp
  have "opt_lookup XH_SPEC CHR ''-'' = None" by code_simp
  then have c: "c \<noteq> CHR ''-''" using Cons.prems by (auto simp: x opt_known_def)
  then have dash: "getopt_go XH_SPEC [] ([CHR ''-'', c] # as) = (case getopt_go XH_SPEC [c] as of (evs, used, rest) \<Rightarrow> (evs, [CHR ''-'', c] # used, rest))" for as
    by (simp add: getopt_go.simps(2) chr_at_def)
  consider "opt_lookup XH_SPEC c = Some True" | "opt_lookup XH_SPEC c = Some False" "a = []"
    using Cons.prems by (auto simp: x opt_known_def)
  then show ?case
  proof cases
    case 1
    have "render (x # opts) @ rest = [CHR ''-'', c] # a # render opts @ rest" using 1 by (simp add: render_def x)
    then show ?thesis using 1 ih by (simp add: dash getopt_go.simps(3) x)
  next
    case 2
    have "render (x # opts) @ rest = [CHR ''-'', c] # render opts @ rest" using 2 by (simp add: render_def x)
    then show ?thesis using 2 ih by (simp add: dash getopt_go.simps(3) x)
  qed
qed

lemma dispatch_opts_append: "dispatch_opts (xs @ ys) rk = sum_bind (dispatch_opts xs rk) (dispatch_opts ys)"
  by (induction xs arbitrary: rk) (auto simp: sum_bind_def split: sum.splits)

lemma dispatch_opts_d:
  "length (dirv req) + length dirs < MY_ARG_MAX \<Longrightarrow>
    dispatch_opts (map (Pair CHR ''d'') dirs) (req, key) = Inr (req\<lparr>dirv := dirv req @ dirs\<rparr>, key @ ckey_of (map (Pair CHR ''d'') dirs))"
  by (induction dirs arbitrary: req key) (simp_all add: dispatch_opt_def opt_push_def ckey_of_def)

lemma dispatch_opts_Q:
  "length (qpfxv req) + length qs < MY_ARG_MAX \<Longrightarrow>
    dispatch_opts (map (Pair CHR ''Q'') qs) (req, key) = Inr (req\<lparr>qpfxv := qpfxv req @ qs\<rparr>, key @ ckey_of (map (Pair CHR ''Q'') qs))"
  by (induction qs arbitrary: req key) (simp_all add: dispatch_opt_def opt_push_def ckey_of_def)

lemma dispatch_opt_flag:
  assumes "c \<in> set ''acrt''"
  shows "dispatch_opt (c, []) (req, key) = Inr (req\<lparr>asc := asc req \<or> CHR ''a'' = c, code_search := code_search req \<or> CHR ''c'' = c,
      relevance := relevance req \<or> CHR ''r'' = c, collapse_threads := collapse_threads req \<or> CHR ''t'' = c\<rparr>, key)"
proof -
  consider "c = CHR ''a''" | "c = CHR ''c''" | "c = CHR ''r''" | "c = CHR ''t''" using assms by auto
  then show ?thesis by cases (simp_all add: dispatch_opt_def)
qed

lemma dispatch_opts_flags:
  "set flags \<subseteq> set ''acrt'' \<Longrightarrow> dispatch_opts (map (\<lambda>c. (c, [])) flags) (req, key) =
    Inr (req\<lparr>asc := asc req \<or> CHR ''a'' \<in> set flags, code_search := code_search req \<or> CHR ''c'' \<in> set flags,
      relevance := relevance req \<or> CHR ''r'' \<in> set flags, collapse_threads := collapse_threads req \<or> CHR ''t'' \<in> set flags\<rparr>, key)"
proof (induction flags arbitrary: req)
  case (Cons c flags)
  have "c \<in> set ''acrt''" "set flags \<subseteq> set ''acrt''" using Cons.prems by simp_all
  then show ?case using Cons.IH by (simp only: list.map dispatch_opts.simps dispatch_opt_flag sum_bind_simps) simp
qed simp

lemma req_line_known: "set flags \<subseteq> set ''acrt'' \<Longrightarrow> \<forall>x\<in>set (req_line dirs qs mx off umin umax thr tmo flags). opt_known x"
proof -
  assume f: "set flags \<subseteq> set ''acrt''"
  have "opt_lookup XH_SPEC CHR ''d'' = Some True" "opt_lookup XH_SPEC CHR ''Q'' = Some True"
    "opt_lookup XH_SPEC CHR ''m'' = Some True" "opt_lookup XH_SPEC CHR ''o'' = Some True"
    "opt_lookup XH_SPEC CHR ''u'' = Some True" "opt_lookup XH_SPEC CHR ''U'' = Some True"
    "opt_lookup XH_SPEC CHR ''T'' = Some True" "opt_lookup XH_SPEC CHR ''K'' = Some True" by code_simp+
  moreover have "\<forall>c\<in>set ''acrt''. opt_lookup XH_SPEC c = Some False" by code_simp
  then have "opt_known (c, [])" if "c \<in> set flags" for c using f that unfolding opt_known_def by auto
  ultimately show ?thesis by (simp add: req_line_def ball_Un opt_known_def)
qed

lemma dispatch_opt_number:
  "dispatch_opt (CHR ''m'', a) (req, key) = sum_bind (OPT_U CHR ''m'' a) (\<lambda>v. Inr (req\<lparr>req_max := v\<rparr>, key))"
  "dispatch_opt (CHR ''o'', a) (req, key) = sum_bind (OPT_U CHR ''o'' a) (\<lambda>v. Inr (req\<lparr>req_off := v\<rparr>, key))"
  "dispatch_opt (CHR ''u'', a) (req, key) = sum_bind (OPT_U CHR ''u'' a) (\<lambda>v. Inr (req\<lparr>uid_min := v\<rparr>, key))"
  "dispatch_opt (CHR ''U'', a) (req, key) = sum_bind (OPT_U CHR ''U'' a) (\<lambda>v. Inr (req\<lparr>uid_max := v\<rparr>, key))"
  "dispatch_opt (CHR ''T'', a) (req, key) = sum_bind (OPT_U CHR ''T'' a) (\<lambda>v. Inr (req\<lparr>threadid := v\<rparr>, key))"
  "dispatch_opt (CHR ''K'', a) (req, key) = sum_bind (OPT_U CHR ''K'' a) (\<lambda>v. Inr (req\<lparr>timeout_sec := v\<rparr>, key))"
  by (simp_all add: dispatch_opt_def)

lemma dispatch_opts_req_line:
  assumes "length (dirv req) + length dirs < MY_ARG_MAX" "length (qpfxv req) + length qs < MY_ARG_MAX" "set flags \<subseteq> set ''acrt''"
    "\<forall>n\<in>{mx, off, umin, umax, thr, tmo}. int n < ULLONG_MAX"
  shows "dispatch_opts (req_line dirs qs mx off umin umax thr tmo flags) (req, key) =
    Inr (req\<lparr>dirv := dirv req @ dirs, qpfxv := qpfxv req @ qs, req_max := int mx, req_off := int off, uid_min := int umin,
      uid_max := int umax, threadid := int thr, timeout_sec := int tmo, asc := asc req \<or> CHR ''a'' \<in> set flags,
      code_search := code_search req \<or> CHR ''c'' \<in> set flags, relevance := relevance req \<or> CHR ''r'' \<in> set flags,
      collapse_threads := collapse_threads req \<or> CHR ''t'' \<in> set flags\<rparr>,
      key @ ckey_of (map (Pair CHR ''d'') dirs @ map (Pair CHR ''Q'') qs))"
proof -
  let ?nums = "[(CHR ''m'', dec_str mx), (CHR ''o'', dec_str off), (CHR ''u'', dec_str umin), (CHR ''U'', dec_str umax),
      (CHR ''T'', dec_str thr), (CHR ''K'', dec_str tmo)]"
  have n: "OPT_U c (dec_str n) = Inr (int n)" if "n \<in> {mx, off, umin, umax, thr, tmo}" for c n
    using OPT_U_dec_str [of "[]" c n] assms(4) that by auto
  have nums: "dispatch_opts ?nums (r, k) = Inr (r\<lparr>req_max := int mx, req_off := int off, uid_min := int umin,
      uid_max := int umax, threadid := int thr, timeout_sec := int tmo\<rparr>, k)" for r k
    by (simp only: dispatch_opts.simps dispatch_opt_number n insertI1 insertI2 sum_bind_simps)
  have q: "length (qpfxv (req\<lparr>dirv := dirv req @ dirs\<rparr>)) + length qs < MY_ARG_MAX" using assms(2) by simp
  show ?thesis
    unfolding req_line_def dispatch_opts_append dispatch_opts_d [OF assms(1)] sum_bind_simps dispatch_opts_Q [OF q] nums
      dispatch_opts_flags [OF assms(3)]
    by (simp add: ckey_of_append)
qed

text \<open>
  C22: a request written with its options comes out of the parser as it was: directories, prefixes,
  numbers below \<open>ULLONG_MAX\<close>, switches and, at \<open>optind\<close>, the arguments that are no options; its key
  is made of the directories and prefixes.
\<close>

theorem dispatch_parse_roundtrip:
  assumes "map_of cmds name = Some fn" "dirs \<noteq> []" "length dirs < MY_ARG_MAX" "length qs < MY_ARG_MAX" "set flags \<subseteq> set ''acrt''"
    "\<forall>n\<in>{mx, off, umin, umax, thr, tmo}. int n < ULLONG_MAX" "\<forall>a\<in>set rest. chr_at a 0 \<noteq> CHR ''-''"
    "length (ckey_of (map (Pair CHR ''d'') dirs @ map (Pair CHR ''Q'') qs)) < 2 ^ 31"
  shows "\<exists>req. dispatch_parse (req_zero (name # render (req_line dirs qs mx off umin umax thr tmo flags) @ rest) fp1 input)
      = Inr (req, ckey_of (map (Pair CHR ''d'') dirs @ map (Pair CHR ''Q'') qs))
    \<and> req_fn req = Some fn \<and> dirv req = dirs \<and> qpfxv req = qs \<and> req_max req = int mx \<and> req_off req = int off
    \<and> uid_min req = int umin \<and> uid_max req = int umax \<and> threadid req = int thr \<and> timeout_sec req = int tmo
    \<and> asc req = (CHR ''a'' \<in> set flags) \<and> code_search req = (CHR ''c'' \<in> set flags)
    \<and> relevance req = (CHR ''r'' \<in> set flags) \<and> collapse_threads req = (CHR ''t'' \<in> set flags)
    \<and> drop (optind req) (argv req) = rest"
proof -
  let ?line = "req_line dirs qs mx off umin umax thr tmo flags"
  let ?key = "ckey_of (map (Pair CHR ''d'') dirs @ map (Pair CHR ''Q'') qs)"
  have g: "getopt_go XH_SPEC [] (render ?line @ rest) = (?line, render ?line, rest)"
    using getopt_render [OF req_line_known [OF assms(5)] assms(7)] .
  have "ckey_of (map (Pair CHR ''d'') dirs) \<noteq> []" using assms(2) by (cases dirs) (simp_all add: ckey_of_def)
  then have "0 < length ?key" by (simp add: ckey_of_append)
  then have "\<not> to_s32 (int (length ?key)) \<le> 0" using assms(8) by (simp add: to_s32_def)
  moreover have "dispatch_opts ?line (req, []) =
    Inr (req\<lparr>dirv := dirs, qpfxv := qs, req_max := int mx, req_off := int off, uid_min := int umin,
      uid_max := int umax, threadid := int thr, timeout_sec := int tmo, asc := asc req \<or> CHR ''a'' \<in> set flags,
      code_search := code_search req \<or> CHR ''c'' \<in> set flags, relevance := relevance req \<or> CHR ''r'' \<in> set flags,
      collapse_threads := collapse_threads req \<or> CHR ''t'' \<in> set flags\<rparr>, ?key)" if "dirv req = []" "qpfxv req = []" for req
    using dispatch_opts_req_line [of req dirs qs flags mx off umin umax thr tmo "[]"] that assms(3-6) by simp
  ultimately show ?thesis using g assms(1,2) by (simp add: dispatch_parse_def req_zero_def)
qed

text \<open>A search in two shards, as a client sends it.\<close>

theorem dispatch_parse_roundtrip_witness:
  "\<exists>req. dispatch_parse (req_zero (''mset'' # render (req_line [''/x/0'', ''/x/1''] [] 50 0 7 900 3 60 ''rt'') @ [''hello'']) True False)
      = Inr (req, ckey_of [(CHR ''d'', ''/x/0''), (CHR ''d'', ''/x/1'')])
    \<and> dirv req = [''/x/0'', ''/x/1''] \<and> req_max req = 50 \<and> relevance req \<and> \<not> asc req \<and> drop (optind req) (argv req) = [''hello'']"
  using dispatch_parse_roundtrip [of "''mset''" cmd_mset_fn "[''/x/0'', ''/x/1'']" "[]" "''rt''" 50 0 7 900 3 60 "[''hello'']" True False]
  by (auto simp: cmds_def MY_ARG_MAX_def ULONG_MAX_def ckey_of_def chr_at_def)

text \<open>
  The number of an option is accepted exactly when it is a numeral for less than \<open>ULLONG_MAX\<close>
  with nothing after it; otherwise the worker aborts the request with the option and its argument.
\<close>

theorem option_numbers:
  assumes "c \<in> set ''mouUTK''" "r = [] \<or> \<not> c_isdigit (hd r) \<and> hd r \<noteq> NUL"
  shows "case dispatch_opt (c, dec_str n @ r) rk of
      Inr rk' \<Rightarrow> r = [] \<and> int n < ULLONG_MAX
    | Inl a \<Rightarrow> \<not> (r = [] \<and> int n < ULLONG_MAX) \<and> a = BadOption c (dec_str n @ r)"
proof -
  obtain req key where rk: "rk = (req, key)" by (cases rk)
  obtain f where "dispatch_opt (c, dec_str n @ r) rk = sum_bind (OPT_U c (dec_str n @ r)) (\<lambda>v. Inr (f v))"
    using assms(1) dispatch_opt_number [of "dec_str n @ r" req key] unfolding rk by fastforce
  then show ?thesis using OPT_U_dec_str [OF assms(2), of c n] by simp
qed

theorem option_numbers_witness:
  "case dispatch_opt (CHR ''m'', dec_str 12 @ ''k'') (req_zero [] False False, []) of
      Inr rk' \<Rightarrow> False | Inl a \<Rightarrow> a = BadOption CHR ''m'' (dec_str 12 @ ''k'')"
  using option_numbers [of "CHR ''m''" "''k''" 12 "(req_zero [] False False, [])"]
  by (simp add: c_isdigit_def chr_code_def NUL_def split: sum.splits)

subsection \<open>A request as an example\<close>

text \<open>A first request, which asks whether the database has thread identifiers.\<close>

definition inspect_args :: "string list" where
  "inspect_args = [''test_inspect'', ''-d'', ''/x'', ''-Q'', ''gmane=XGMANE'']"

definition inspect_env :: cmd_env where
  "inspect_env = \<lparr>env_db = (\<lambda>s. xapian_sample (\<lambda>k. Inl DocNotFound) (\<lambda>k. Inl DocNotFound)), env_write = (\<lambda>i n. int n),
     env_file = (\<lambda>p. None), env_bufsiz = 8192, env_pid = 7, env_junk = junk_root\<rparr>"

lemma inspect_getopt: "getopt_go XH_SPEC [] (drop 1 inspect_args) = (srch_opts, render srch_opts, [])"
proof -
  have "\<forall>x\<in>set srch_opts. opt_known x" by code_simp
  then have "getopt_go XH_SPEC [] (render srch_opts @ []) = (srch_opts, render srch_opts, [])" by (rule getopt_render) simp
  moreover have "render srch_opts = drop 1 inspect_args" by code_simp
  ultimately show ?thesis by simp
qed

lemma inspect_parse:
  "\<exists>req. dispatch_parse (req_zero inspect_args fp1 input) = Inr (req, ckey_of srch_opts)
    \<and> dirv req = [''/x''] \<and> qpfxv req = [''gmane=XGMANE''] \<and> code_search req = False \<and> req_fn req = Some cmd_test_inspect_fn"
proof -
  have o: "dispatch_opts srch_opts (r, []) = Inr (r\<lparr>dirv := [''/x''], qpfxv := [''gmane=XGMANE'']\<rparr>, ckey_of srch_opts)"
    if "dirv r = []" "qpfxv r = []" for r
    using that by (simp add: srch_opts_def dispatch_opt_def opt_push_def MY_ARG_MAX_def ckey_of_def)
  have "\<not> to_s32 (int (length (ckey_of srch_opts))) \<le> 0" by (simp add: srch_opts_def ckey_of_def to_s32_def)
  moreover have "map_of cmds (inspect_args ! 0) = Some cmd_test_inspect_fn" by code_simp
  ultimately show ?thesis
    using inspect_getopt o by (simp add: dispatch_parse_def req_zero_def)
qed

lemma inspect_args_ok:
  "inspect_args \<noteq> []" "hd inspect_args \<noteq> []" "\<forall>a\<in>set inspect_args. NUL \<notin> set a" "length inspect_args < MY_ARG_MAX"
  by (simp_all add: inspect_args_def NUL_def MY_ARG_MAX_def)

lemma inspect_answer:
  "\<exists>st' cl'. recv_once inspect_env srch_junk (\<lambda>k d. True) (\<lambda>f. False) (\<lambda>s. True) (join_args inspect_args) fp1 input
      (srch_start 960 False) cl = Some (Inr (st', cl', [], NoReport)) \<and> cl_out cl' = cl_out cl @ ''pid=7 has_threadid=1''"
proof -
  obtain req where req: "dispatch_parse (req_zero inspect_args fp1 input) = Inr (req, ckey_of srch_opts)"
    "dirv req = [''/x'']" "qpfxv req = [''gmane=XGMANE'']" "code_search req = False" "req_fn req = Some cmd_test_inspect_fn"
    using inspect_parse by blast
  obtain dst where dst: "split2argv (join_args inspect_args) MY_ARG_MAX = Inr dst" "argv_strings (join_args inspect_args) dst = inspect_args"
    using split2argv_join_args [OF inspect_args_ok] inspect_args_ok(4) by (auto simp: MY_ARG_MAX_def)
  obtain p st' where l: "dispatch_srch srch_junk (\<lambda>k d. True) (\<lambda>f. False) (\<lambda>s. True) req (ckey_of srch_opts) (srch_start 960 False)
      = Some (Inr (p, st'))"
    using srch_first_lookup [OF req(2-4)] by blast
  have "dec_str 7 = ''7''" by code_simp
  then show ?thesis
    using l req(1,5) dst by (simp add: recv_once_def dispatch_def run_cmd_def inspect_env_def cmd_test_inspect_def xapian_sample_def)
qed

end
