(* ===== verification/Recv.thy ===== *)
theory Recv
  imports Dispatch_Spec Workers
begin

text \<open>
  The worker process of \<open>xap_helper.h\<close>: \<open>recv_req\<close>, its signal handler \<open>sigw\<close>, \<open>reopen_logs\<close> and
  \<open>recv_loop\<close>.  What happens to the process is a list of events: signals, which are only let in while
  it waits for a message, and the results of \<open>recvmsg\<close>.
\<close>

subsection \<open>Receiving\<close>

text \<open>
  A message has its bytes, whether it was truncated, and the access modes (\<open>F_GETFL\<close>) of the
  descriptors that came with it, if any did.
\<close>

datatype revent = Signal signal | RecvErr int | Received string bool "int list option"

record worker =
  sock_fd :: int
  needs_reopen :: bool

definition sigw :: "signal \<Rightarrow> worker \<Rightarrow> worker" where
  "sigw s w = (if s = SIGUSR1 then w\<lparr>needs_reopen := True\<rparr> else w\<lparr>sock_fd := -1\<rparr>)"

definition RECV_FD_CAPA :: nat where
  "RECV_FD_CAPA = 2"

text \<open>The modes the descriptors are opened with; \<open>req->fp\<close> has room for two.\<close>

fun recv_fds :: "nat \<Rightarrow> int list \<Rightarrow> abort + string list" where
  "recv_fds i [] = Inr []"
| "recv_fds i (fl # fls) =
     (if fl = -1 then Inl (Exited 1)
      else sum_bind (if odd fl then Inr ''w'' else if odd (fl div 2) then Inr ''r+'' else Inl (Exited 1)) (\<lambda>mode.
        if i \<ge> RECV_FD_CAPA then Inl OutOfRange
        else sum_bind (recv_fds (Suc i) fls) (\<lambda>modes. Inr (mode # modes))))"

text \<open>
  \<open>recv_req\<close>: a message with the modes of its descriptors, the worker after the signals it was sent
  meanwhile, and the events to come.  With the descriptor gone \<open>recvmsg\<close> fails with \<open>EBADF\<close>.
\<close>

fun recv_req :: "worker \<Rightarrow> revent list \<Rightarrow> abort + string \<times> string list \<times> worker \<times> revent list" where
  "recv_req w [] = Inl (if sock_fd w < 0 then Exited 0 else Waiting)"
| "recv_req w (ev # evs) =
     (if sock_fd w < 0 then Inl (Exited 0)
      else case ev of
             Signal s \<Rightarrow> recv_req (sigw s w) evs
           | RecvErr e \<Rightarrow> if e = EINTR then recv_req w evs else Inl (Exited (if e = EAGAIN then 0 else 1))
           | Received buf trunc cmsg \<Rightarrow>
               if buf = [] then Inl (Exited EX_NOINPUT)
               else if trunc then Inl Truncated
               else (case cmsg of
                       None \<Rightarrow> Inl (Exited 1)
                     | Some fls \<Rightarrow> sum_bind (recv_fds 0 fls) (\<lambda>modes. Inr (buf, modes, w, evs))))"

subsection \<open>The loop\<close>

text \<open>
  The surroundings of the worker, by the number of the request: what its commands and the opening of
  databases find, the client, and which files can be reopened.
\<close>

record world =
  wd_env :: "nat \<Rightarrow> cmd_env"
  wd_open :: "nat \<Rightarrow> nat \<Rightarrow> string \<Rightarrow> bool"
  wd_is_reg :: "nat \<Rightarrow> string \<Rightarrow> bool"
  wd_reopens :: "nat \<Rightarrow> srch \<Rightarrow> bool"
  wd_client :: "nat \<Rightarrow> client"
  wd_freopen :: "nat \<Rightarrow> string \<Rightarrow> bool"
  wd_junk :: "srch_key cs_bucket"
  stdout_path :: "string option"
  stderr_path :: "string option"

definition reopen_logs :: "(string \<Rightarrow> bool) \<Rightarrow> string option \<Rightarrow> string option \<Rightarrow> abort + string list" where
  "reopen_logs freopen out err =
     (let paths = filter (\<lambda>p. p \<noteq> []) ((case out of Some p \<Rightarrow> [p] | None \<Rightarrow> []) @ (case err of Some p \<Rightarrow> [p] | None \<Rightarrow> []))
      in if list_all freopen paths then Inr paths else Inl (Exited 1))"

datatype wact = Served client string report | Reopened "string list"

lemma recv_req_shorter: "recv_req w evs = Inr (buf, modes, w', evs') \<Longrightarrow> length evs' < length evs"
proof (induction w evs rule: recv_req.induct)
  case (2 w ev evs)
  then show ?case by (cases ev) (force simp: sum_bind_Inr_iff split: if_splits option.splits)+
qed simp

text \<open>What the loop did, whether it returned or the process ended, and the cache it is left with.\<close>

function recv_loop ::
  "world \<Rightarrow> nat \<Rightarrow> worker \<Rightarrow> srch_state \<Rightarrow> revent list \<Rightarrow> (wact list \<times> (abort + unit) \<times> srch_state) option"
where
  "recv_loop wd k w st evs =
     (if sock_fd w \<noteq> 0 then Some ([], Inr (), st)
      else case recv_req w evs of
             Inl a \<Rightarrow> Some ([], Inl a, st)
           | Inr (buf, modes, w, evs) \<Rightarrow>
               do {
                 r \<leftarrow> recv_once (wd_env wd k) (wd_junk wd) (wd_open wd k) (wd_is_reg wd k) (wd_reopens wd k) buf
                   (length modes > 1) (modes \<noteq> [] \<and> hd modes = ''r+'') st (wd_client wd k);
                 (case r of
                    Inl a \<Rightarrow> Some ([], Inl a, st)
                  | Inr (st, cl, status, rep) \<Rightarrow>
                      (case if needs_reopen w then map_sum id (\<lambda>fs. [Reopened fs]) (reopen_logs (wd_freopen wd k) (stdout_path wd) (stderr_path wd))
                            else Inr [] of
                         Inl a \<Rightarrow> Some ([Served cl status rep], Inl a, st)
                       | Inr act \<Rightarrow>
                           do {
                             (acts, r, st) \<leftarrow> recv_loop wd (Suc k) (w\<lparr>needs_reopen := False\<rparr>) st evs;
                             Some (Served cl status rep # act @ acts, r, st)
                           }))
               })"
  by pat_completeness auto
termination
  by (relation "measure (\<lambda>(wd, k, w, st, evs). length evs)") (auto dest: recv_req_shorter)

declare recv_loop.simps [simp del]

end
