(* ===== verification/Recv_Spec.thy ===== *)
theory Recv_Spec
  imports Recv
begin

text \<open>
  Properties of a worker: it ends every request it begins, it stops at \<open>SIGTERM\<close> and not before, and
  it reopens its log files after \<open>SIGUSR1\<close>.
\<close>

lemma recv_req_term:
  "case recv_req w (evs @ [Signal SIGTERM]) of
     Inl a \<Rightarrow> recv_req w (evs @ Signal SIGTERM # rest) = Inl a
   | Inr (buf, modes, w', evs') \<Rightarrow> \<exists>evs2. evs' = evs2 @ [Signal SIGTERM] \<and> length evs2 < length evs
       \<and> recv_req w (evs @ Signal SIGTERM # rest) = Inr (buf, modes, w', evs2 @ Signal SIGTERM # rest)"
proof (induction evs arbitrary: w)
  case Nil
  have "recv_req w' evs = Inl (Exited 0)" if "sock_fd w' < 0" for w' evs using that by (cases evs) simp_all
  then show ?case by (simp add: sigw_def)
next
  case (Cons ev evs)
  show ?case
  proof (cases "sock_fd w < 0")
    case False
    show ?thesis
    proof (cases ev)
      case (Signal s)
      then show ?thesis using Cons [of "sigw s w"] False by (auto split: sum.splits prod.splits)
    next
      case (RecvErr e)
      then show ?thesis using Cons [of w] False by (auto split: sum.splits prod.splits)
    next
      case (Received buf trunc cmsg)
      then show ?thesis
        using False by (cases cmsg; cases "recv_fds 0 (the cmsg)") auto
    qed
  qed simp
qed

text \<open>
  C31: nothing that arrives after \<open>SIGTERM\<close> has an effect on the worker: the requests that came before
  are answered as they would be, and no other is begun.
\<close>

theorem worker_term_stops:
  "recv_loop wd k w st (evs @ Signal SIGTERM # rest) = recv_loop wd k w st (evs @ [Signal SIGTERM])"
proof (induction evs arbitrary: k w st rule: length_induct)
  case (1 evs)
  show ?case
  proof (cases "recv_req w (evs @ [Signal SIGTERM])")
    case (Inl a)
    then have "recv_req w (evs @ Signal SIGTERM # rest) = Inl a" using recv_req_term [of w evs rest] by simp
    then show ?thesis by (simp only: recv_loop.simps [of wd k w st] Inl sum.case)
  next
    case (Inr m)
    obtain buf modes w' evs' where m: "m = (buf, modes, w', evs')" by (cases m)
    obtain evs2 where e: "evs' = evs2 @ [Signal SIGTERM]" "length evs2 < length evs"
      "recv_req w (evs @ Signal SIGTERM # rest) = Inr (buf, modes, w', evs2 @ Signal SIGTERM # rest)"
      using recv_req_term [of w evs rest] Inr m by auto
    have ih: "recv_loop wd k w st (evs2 @ Signal SIGTERM # rest) = recv_loop wd k w st evs'" for k w st
      using "1.IH" e(1,2) by simp
    show ?thesis
      by (simp only: recv_loop.simps [of wd k w st] Inr m e(3) sum.case prod.case ih)
  qed
qed

lemma recv_loop_reach:
  assumes "srch_reach fd_max l st" "fd_max \<le> 2 ^ 32"
  shows "\<exists>acts r st'. recv_loop wd k w st evs = Some (acts, r, st') \<and> srch_reach fd_max l st'"
  using assms(1)
proof (induction evs arbitrary: k w st rule: length_induct)
  case (1 evs)
  show ?case
  proof (cases "recv_req w evs")
    case (Inl a)
    then show ?thesis using "1.prems" by (simp add: recv_loop.simps [of wd k w st])
  next
    case (Inr m)
    obtain buf modes w' evs' where m: "m = (buf, modes, w', evs')" by (cases m)
    have len: "length evs' < length evs" using recv_req_shorter Inr m by blast
    obtain r where r: "recv_once (wd_env wd k) (wd_junk wd) (wd_open wd k) (wd_is_reg wd k) (wd_reopens wd k) buf
        (length modes > 1) (modes \<noteq> [] \<and> hd modes = ''r+'') st (wd_client wd k) = Some r"
      "\<And>st' out. r = Inr (st', out) \<Longrightarrow> srch_reach fd_max l st'"
      using recv_once_reach [OF "1.prems" assms(2)] by metis
    have ih: "\<exists>acts r st'. recv_loop wd k w st evs' = Some (acts, r, st') \<and> srch_reach fd_max l st'"
      if "srch_reach fd_max l st" for k w st using "1.IH" len that by blast
    show ?thesis
    proof (cases r)
      case inl: (Inl a)
      then show ?thesis using Inr m r(1) "1.prems" by (simp add: recv_loop.simps [of wd k w st])
    next
      case inr: (Inr x)
      obtain st1 cl status rep where x: "x = (st1, cl, status, rep)" by (cases x)
      have st1: "srch_reach fd_max l st1" using r(2) inr x by blast
      let ?act = "if needs_reopen w' then map_sum id (\<lambda>fs. [Reopened fs]) (reopen_logs (wd_freopen wd k) (stdout_path wd) (stderr_path wd))
          else Inr []"
      obtain acts r' st' where n: "recv_loop wd (Suc k) (w'\<lparr>needs_reopen := False\<rparr>) st1 evs' = Some (acts, r', st')"
        "srch_reach fd_max l st'" using ih [OF st1] by blast
      show ?thesis
        using Inr m r(1) inr x st1 n "1.prems" by (cases ?act) (simp_all add: recv_loop.simps [of wd k w st])
    qed
  qed
qed


text \<open>
  When \<open>SIGUSR1\<close> arrives while the worker waits, however often, the log files are reopened once,
  right after the next request was answered.
\<close>

theorem worker_usr1_reopens:
  assumes "sock_fd w = 0" "buf \<noteq> []" "recv_fds 0 fls = Inr modes"
    "recv_once (wd_env wd k) (wd_junk wd) (wd_open wd k) (wd_is_reg wd k) (wd_reopens wd k) buf
       (length modes > 1) (modes \<noteq> [] \<and> hd modes = ''r+'') st (wd_client wd k) = Some (Inr (st1, cl, status, rep))"
    "\<forall>p. wd_freopen wd k p"
  shows "\<exists>fs. recv_loop wd k w st (replicate (Suc n) (Signal SIGUSR1) @ Received buf False (Some fls) # evs) =
    map_option (\<lambda>(acts, r, st'). (Served cl status rep # Reopened fs # acts, r, st'))
      (recv_loop wd (Suc k) (w\<lparr>needs_reopen := False\<rparr>) st1 evs)"
proof -
  have "recv_req w (replicate (Suc n) (Signal SIGUSR1) @ Received buf False (Some fls) # evs)
      = Inr (buf, modes, w\<lparr>needs_reopen := True\<rparr>, evs)"
    using assms(1)
  proof (induction n arbitrary: w)
    case (Suc n)
    then show ?case using Suc.IH [of "w\<lparr>needs_reopen := True\<rparr>"] by (simp add: sigw_def)
  qed (simp add: sigw_def assms(2,3))
  moreover obtain fs where "reopen_logs (wd_freopen wd k) (stdout_path wd) (stderr_path wd) = Inr fs"
    using assms(5) by (simp add: reopen_logs_def list_all_iff)
  ultimately show ?thesis
    using assms(1,4) by (auto simp: recv_loop.simps [of wd k w st] map_option_case bind_eq_None_conv split: option.splits)
qed

text \<open>A worker that is asked to reopen its logs twice, answers a request and is told to end.\<close>

definition sample_world :: world where
  "sample_world = \<lparr>wd_env = (\<lambda>k. inspect_env), wd_open = (\<lambda>k n d. True), wd_is_reg = (\<lambda>k f. False), wd_reopens = (\<lambda>k s. True),
     wd_client = (\<lambda>k. client0), wd_freopen = (\<lambda>k p. True), wd_junk = srch_junk, stdout_path = None, stderr_path = Some ''/var/log/x''\<rparr>"

abbreviation idle :: worker where
  "idle \<equiv> \<lparr>sock_fd = 0, needs_reopen = False\<rparr>"

definition sample_events :: "revent list" where
  "sample_events = replicate (Suc 1) (Signal SIGUSR1) @ Received (join_args inspect_args) False (Some [1]) # [Signal SIGTERM]"

theorem worker_usr1_reopens_witness:
  "\<exists>cl fs st'. recv_loop sample_world 0 idle (srch_start 960 False) sample_events
      = Some ([Served cl [] NoReport, Reopened fs], Inl (Exited 0), st')
    \<and> cl_out cl = ''pid=7 has_threadid=1''"
proof -
  obtain st' cl' where r: "recv_once inspect_env srch_junk (\<lambda>k d. True) (\<lambda>f. False) (\<lambda>s. True) (join_args inspect_args) False False
      (srch_start 960 False) client0 = Some (Inr (st', cl', [], NoReport))" "cl_out cl' = cl_out client0 @ ''pid=7 has_threadid=1''"
    using inspect_answer by blast
  have "join_args inspect_args \<noteq> []" by (simp add: join_args_def inspect_args_def)
  moreover have "recv_loop sample_world 1 idle st' [Signal SIGTERM] = Some ([], Inl (Exited 0), st')"
    by (simp add: recv_loop.simps sigw_def)
  ultimately show ?thesis
    using worker_usr1_reopens [of idle "join_args inspect_args" "[1]" "[''w'']" sample_world 0 "srch_start 960 False" st' cl' "[]" NoReport
        1 "[Signal SIGTERM]"] r
    by (auto simp: sample_world_def sample_events_def RECV_FD_CAPA_def client0_def)
qed


end
