(* ===== verification/Locks.thy ===== *)
theory Locks
  imports Xh_Util
begin

text \<open>
  The shared locks a worker holds on the \<open>open.lock\<close> files (\<open>-l\<close>) while it opens or reopens a
  database: \<open>lock_shared_maybe\<close> and \<open>unlock_ensure\<close> of \<open>xap_helper.h\<close>, which the compiler calls when
  the variable \<open>lk\<close> goes out of scope.
\<close>

text \<open>
  The process has a set of open descriptors.  \<open>op fds path\<close> is the result of \<open>open\<close>, a descriptor or a
  negative number; \<open>flock\<close> gives zero or an error number, one after the other, and blocks when there
  is no further result; \<open>cl fd\<close> is zero or the error number of \<open>close\<close>.
\<close>

fun flock_sh :: "int list \<Rightarrow> int list option" where
  "flock_sh [] = None"
| "flock_sh (e # es) = (if e = EINTR then flock_sh es else Some es)"

fun lock_loop :: "(int set \<Rightarrow> string \<Rightarrow> int) \<Rightarrow> string list \<Rightarrow> int set \<Rightarrow> int list \<Rightarrow> (int list \<times> int set \<times> int list) option" where
  "lock_loop op [] fds es = Some ([], fds, es)"
| "lock_loop op (path # paths) fds es =
     (let fd = op fds path
      in if fd < 0 then map_option (apfst (\<lambda>lock_fd. fd # lock_fd)) (lock_loop op paths fds es)
         else do {
           es \<leftarrow> flock_sh es;
           map_option (apfst (\<lambda>lock_fd. fd # lock_fd)) (lock_loop op paths (insert fd fds) es)
         })"

text \<open>No locks are taken (the null pointer) when the request names none.\<close>

definition lock_shared_maybe ::
  "(int set \<Rightarrow> string \<Rightarrow> int) \<Rightarrow> string list \<Rightarrow> int set \<Rightarrow> int list \<Rightarrow> (int list option \<times> int set \<times> int list) option"
where
  "lock_shared_maybe op lockv fds es =
     (if lockv = [] then Some (None, fds, es) else map_option (apfst Some) (lock_loop op lockv fds es))"

definition xclose :: "(int \<Rightarrow> int) \<Rightarrow> int \<Rightarrow> int set \<Rightarrow> abort + int set" where
  "xclose cl fd fds = (if cl fd \<noteq> 0 \<and> cl fd \<noteq> EINTR then Inl NoFd else Inr (fds - {fd}))"

fun unlock_loop :: "(int \<Rightarrow> int) \<Rightarrow> int list \<Rightarrow> int set \<Rightarrow> abort + int set" where
  "unlock_loop cl [] fds = Inr fds"
| "unlock_loop cl (fd # lock_fd) fds =
     sum_bind (if fd \<ge> 0 then xclose cl fd fds else Inr fds) (unlock_loop cl lock_fd)"

definition unlock_ensure :: "(int \<Rightarrow> int) \<Rightarrow> int list option \<Rightarrow> int set \<Rightarrow> abort + int set" where
  "unlock_ensure cl lk fds = (case lk of None \<Rightarrow> Inr fds | Some lock_fd \<Rightarrow> unlock_loop cl lock_fd fds)"

subsection \<open>Nothing is left open\<close>

lemma flock_sh_iff: "(\<exists>es'. flock_sh es = Some es') \<longleftrightarrow> (\<exists>e\<in>set es. e \<noteq> EINTR)"
  by (induction es) auto

lemma flock_sh_count: "flock_sh es = Some es' \<Longrightarrow> length (filter (\<lambda>e. e \<noteq> EINTR) es) = Suc (length (filter (\<lambda>e. e \<noteq> EINTR) es'))"
  by (induction es) (auto split: if_splits)

text \<open>\<open>open\<close> fails or gives a descriptor that is not in use.\<close>

definition open_contract :: "(int set \<Rightarrow> string \<Rightarrow> int) \<Rightarrow> bool" where
  "open_contract op \<longleftrightarrow> (\<forall>S p. op S p < 0 \<or> op S p \<notin> S)"

definition got :: "int list \<Rightarrow> int set" where
  "got lock_fd = {fd \<in> set lock_fd. 0 \<le> fd}"

lemma lock_loop_result:
  assumes "open_contract op" "length paths \<le> length (filter (\<lambda>e. e \<noteq> EINTR) es)"
  shows "\<exists>lock_fd es'. lock_loop op paths fds es = Some (lock_fd, fds \<union> got lock_fd, es') \<and> length lock_fd = length paths
    \<and> got lock_fd \<inter> fds = {}"
  using assms(2)
proof (induction paths arbitrary: fds es)
  case (Cons p paths)
  show ?case
  proof (cases "op fds p < 0")
    case True
    obtain lock_fd es' where "lock_loop op paths fds es = Some (lock_fd, fds \<union> got lock_fd, es')" "length lock_fd = length paths"
      "got lock_fd \<inter> fds = {}" using Cons.IH [of es fds] Cons.prems by auto
    moreover have "got (op fds p # lock_fd) = got lock_fd" using True by (auto simp: got_def)
    ultimately show ?thesis using True by auto
  next
    case False
    have "filter (\<lambda>e. e \<noteq> EINTR) es \<noteq> []" using Cons.prems by (cases "filter (\<lambda>e. e \<noteq> EINTR) es") auto
    then obtain es1 where es1: "flock_sh es = Some es1" using flock_sh_iff [of es] by (auto simp: filter_empty_conv)
    have "length paths \<le> length (filter (\<lambda>e. e \<noteq> EINTR) es1)" using Cons.prems flock_sh_count [OF es1] by simp
    then obtain lock_fd es' where l: "lock_loop op paths (insert (op fds p) fds) es1 = Some (lock_fd, insert (op fds p) fds \<union> got lock_fd, es')"
      "length lock_fd = length paths" "got lock_fd \<inter> insert (op fds p) fds = {}"
      using Cons.IH [of es1 "insert (op fds p) fds"] by blast
    have "got (op fds p # lock_fd) = insert (op fds p) (got lock_fd)" using False by (auto simp: got_def)
    moreover have "op fds p \<notin> fds" using assms(1) False unfolding open_contract_def by blast
    ultimately show ?thesis using False es1 l by (auto simp: Let_def)
  qed
qed (simp add: got_def)

lemma unlock_loop_result: "\<forall>fd. cl fd = 0 \<or> cl fd = EINTR \<Longrightarrow> unlock_loop cl lock_fd fds = Inr (fds - got lock_fd)"
proof (induction lock_fd arbitrary: fds)
  case (Cons fd lock_fd)
  have "got (fd # lock_fd) = (if fd \<ge> 0 then {fd} else {}) \<union> got lock_fd" by (auto simp: got_def)
  then show ?case using Cons by (auto simp: xclose_def)
qed (simp add: got_def)


text \<open>
  The second of three files is missing, the last finds no free descriptor, and the only lock takes
  two tries.
\<close>

definition sample_open :: "int set \<Rightarrow> string \<Rightarrow> int" where
  "sample_open S p = (if p = ''/b'' \<or> 5 \<in> S then -1 else 5)"


end
