(* ===== verification/Lg2.thy ===== *)
theory Lg2
  imports Xh_Util "HOL-Library.Sublist"
begin

text \<open>
  The bindings to libgit2: \<open>cat_oid\<close> of \<open>lg2.h\<close>, which writes a git object the way
  \<open>git cat-file --batch\<close> does, and \<open>cfgwr_commit\<close> of \<open>lg2_cfg.h\<close>, which applies a list of changes to a
  configuration file.  libgit2 and the results of \<open>writev\<close> are arguments.
\<close>

subsection \<open>Objects\<close>

text \<open>
  An object with its type and data; the object database: parsing a hexadecimal name of a given
  length, reading an object, and the name of an object as it is formatted.
\<close>

record git_object =
  go_type :: string
  go_data :: string

record libgit2 =
  lg_experimental :: bool
  lg_fromstrn :: "nat \<Rightarrow> string \<Rightarrow> string option"
  lg_read :: "string \<Rightarrow> git_object option"
  lg_fmt :: "git_object \<Rightarrow> string option"

definition GIT_OID_SHA1_HEXSIZE :: nat where
  "GIT_OID_SHA1_HEXSIZE = 40"

definition GIT_OID_SHA256_HEXSIZE :: nat where
  "GIT_OID_SHA256_HEXSIZE = 64"

definition MY_OID_MAX_HEXSIZE :: "libgit2 \<Rightarrow> nat" where
  "MY_OID_MAX_HEXSIZE lg = (if lg_experimental lg then GIT_OID_SHA256_HEXSIZE else GIT_OID_SHA1_HEXSIZE)"

datatype croak = UnsupportedOid string | SnprintfError | WritevError int

text \<open>Both compilations of the function: the identifier, if there is one, and the full length.\<close>

definition my_oid_fromstrn :: "libgit2 \<Rightarrow> string \<Rightarrow> croak + string option \<times> nat" where
  "my_oid_fromstrn lg str =
     (if \<not> lg_experimental lg then Inr (lg_fromstrn lg GIT_OID_SHA1_HEXSIZE str, GIT_OID_SHA1_HEXSIZE)
      else if length str \<le> GIT_OID_SHA1_HEXSIZE then Inr (lg_fromstrn lg GIT_OID_SHA1_HEXSIZE str, GIT_OID_SHA1_HEXSIZE)
      else if length str = GIT_OID_SHA256_HEXSIZE
      then Inr (lg_fromstrn lg GIT_OID_SHA256_HEXSIZE str, GIT_OID_SHA256_HEXSIZE)
      else Inl (UnsupportedOid str))"

text \<open>The header in its buffer, which has room for a type of six letters and a size of 64 bits.\<close>

definition cat_hdr :: "libgit2 \<Rightarrow> nat \<Rightarrow> string \<Rightarrow> git_object \<Rightarrow> string option" where
  "cat_hdr lg full_oidlen hex obj =
     (let remain = MY_OID_MAX_HEXSIZE lg + length ''_commit_18446744073709551615'' + 1 - full_oidlen;
          s = '' '' @ go_type obj @ '' '' @ dec_str (length (go_data obj)) @ [CHR 0x0A]
      in if length s > 0 \<and> length s < remain then Some (take full_oidlen hex @ s) else None)"

subsection \<open>Gathered writes\<close>

text \<open>\<open>wv i n\<close> is what the \<open>i\<close>-th call of \<open>writev\<close> does when it is given \<open>n\<close> bytes.\<close>

datatype wv_ret = Wrote nat | WvErr int

text \<open>The vectors that are left after \<open>w\<close> bytes were written.\<close>

fun vec_advance :: "nat \<Rightarrow> string list \<Rightarrow> string list" where
  "vec_advance w [] = []"
| "vec_advance w (v # vs) = (if w \<ge> length v then vec_advance (w - length v) vs else drop w v # vs)"

text \<open>The loop: the error, or zero, and what was written.  It has no result when it does not end.\<close>

partial_function (option) cat_writev :: "(nat \<Rightarrow> nat \<Rightarrow> wv_ret) \<Rightarrow> nat \<Rightarrow> string list \<Rightarrow> string \<Rightarrow> (int \<times> string) option" where
  "cat_writev wv i vec out =
     (if vec = [] then Some (0, out)
      else case wv i (length (concat vec)) of
             Wrote w \<Rightarrow>
               if w > 0 then cat_writev wv (Suc i) (vec_advance w vec) (out @ take w (concat vec))
               else Some (ENOSPC, out)
           | WvErr e \<Rightarrow>
               let err = (if e = EAGAIN \<or> e = EINTR then 0 else e)
               in if err = 0 then cat_writev wv (Suc i) vec out else Some (err, out))"

text \<open>The value of \<open>cat_oid\<close> or its \<open>croak\<close>, and what was written to the descriptor.\<close>

definition cat_oid :: "libgit2 \<Rightarrow> (nat \<Rightarrow> nat \<Rightarrow> wv_ret) \<Rightarrow> string \<Rightarrow> ((croak + bool) \<times> string) option" where
  "cat_oid lg wv oidstr =
     (case my_oid_fromstrn lg oidstr of
        Inl e \<Rightarrow> Some (Inl e, [])
      | Inr (oid, full_oidlen) \<Rightarrow>
          (case Option.bind oid (lg_read lg) of
             None \<Rightarrow> Some (Inr False, [])
           | Some obj \<Rightarrow>
               (case lg_fmt lg obj of
                  None \<Rightarrow> Some (Inr False, [])
                | Some hex \<Rightarrow>
                    (case cat_hdr lg full_oidlen hex obj of
                       None \<Rightarrow> Some (Inl SnprintfError, [])
                     | Some hdr \<Rightarrow>
                         map_option (\<lambda>(err, out). (if err \<noteq> 0 then Inl (WritevError err) else Inr True, out))
                           (cat_writev wv 0 [hdr, go_data obj, [CHR 0x0A]] [])))))"

subsection \<open>Configuration files\<close>

record 'c git_config =
  set_multivar :: "'c \<Rightarrow> string \<Rightarrow> string \<Rightarrow> string \<Rightarrow> int \<times> 'c"
  delete_multivar :: "'c \<Rightarrow> string \<Rightarrow> string \<Rightarrow> int \<times> 'c"
  set_string :: "'c \<Rightarrow> string \<Rightarrow> string \<Rightarrow> int \<times> 'c"

definition GIT_OK :: int where
  "GIT_OK = 0"

definition GIT_ENOTFOUND :: int where
  "GIT_ENOTFOUND = -3"

datatype cfg_croak = BugNull string nat | ConfigError int

definition FETCH_CSTR :: "string \<Rightarrow> string list \<Rightarrow> nat \<Rightarrow> cfg_croak + string" where
  "FETCH_CSTR var ary i = (if i < length ary then Inr (ary ! i) else Inl (BugNull var i))"

text \<open>One command of the list: the return code and the new contents of the file.\<close>

definition cfg_cmd :: "'c git_config \<Rightarrow> string list \<Rightarrow> 'c \<Rightarrow> cfg_croak + int \<times> 'c" where
  "cfg_cmd lib cmd cfg =
     sum_bind (FETCH_CSTR ''cmd0'' cmd 0) (\<lambda>cmd0.
       if cmd0 = ''--add'' then
         sum_bind (FETCH_CSTR ''name'' cmd 1) (\<lambda>name. sum_bind (FETCH_CSTR ''val'' cmd 2) (\<lambda>val.
           Inr (set_multivar lib cfg name ''$^'' val)))
       else if cmd0 = ''--unset-all'' then
         sum_bind (FETCH_CSTR ''name'' cmd 1) (\<lambda>name.
           let (rc, cfg) = delete_multivar lib cfg name ''.*''
           in Inr (if rc = GIT_ENOTFOUND then GIT_OK else rc, cfg))
       else if cmd0 = ''--replace-all'' then
         sum_bind (FETCH_CSTR ''name'' cmd 1) (\<lambda>name. sum_bind (FETCH_CSTR ''val'' cmd 2) (\<lambda>val.
           sum_bind (FETCH_CSTR ''re'' cmd 3) (\<lambda>re. Inr (set_multivar lib cfg name re val))))
       else
         sum_bind (FETCH_CSTR ''val'' cmd 1) (\<lambda>val. Inr (set_string lib cfg cmd0 val)))"

text \<open>The loop, and the contents of the file with how the function ends.\<close>

fun cfg_loop :: "'c git_config \<Rightarrow> string list list \<Rightarrow> int \<Rightarrow> 'c \<Rightarrow> 'c \<times> (cfg_croak + int)" where
  "cfg_loop lib [] rc cfg = (cfg, Inr rc)"
| "cfg_loop lib (cmd # todo) rc cfg =
     (if rc = GIT_OK then
        (case cfg_cmd lib cmd cfg of
           Inl e \<Rightarrow> (cfg, Inl e)
         | Inr (rc, cfg) \<Rightarrow> cfg_loop lib todo rc cfg)
      else (cfg, Inr rc))"

definition cfgwr_commit :: "'c git_config \<Rightarrow> int \<Rightarrow> string list list \<Rightarrow> 'c \<Rightarrow> 'c \<times> (cfg_croak + unit)" where
  "cfgwr_commit lib open_rc todo cfg =
     (case cfg_loop lib todo open_rc cfg of
        (cfg, Inl e) \<Rightarrow> (cfg, Inl e)
      | (cfg, Inr rc) \<Rightarrow> (cfg, if rc \<noteq> GIT_OK then Inl (ConfigError rc) else Inr ()))"

text \<open>A list of changes is applied in order, up to the first that fails.\<close>

lemma cfg_loop_failed: "rc \<noteq> GIT_OK \<Longrightarrow> cfg_loop lib todo rc cfg = (cfg, Inr rc)"
  by (cases todo) simp_all

lemma cfgwr_commit_append:
  "cfgwr_commit lib rc (xs @ ys) cfg =
    (case cfgwr_commit lib rc xs cfg of (cfg, Inl e) \<Rightarrow> (cfg, Inl e) | (cfg, Inr ok) \<Rightarrow> cfgwr_commit lib GIT_OK ys cfg)"
proof (induction xs arbitrary: rc cfg)
  case Nil
  show ?case by (cases "rc = GIT_OK") (simp_all add: cfgwr_commit_def cfg_loop_failed)
next
  case (Cons cmd xs)
  show ?case
  proof (cases "rc = GIT_OK")
    case True
    then show ?thesis using Cons by (auto simp: cfgwr_commit_def split: sum.splits)
  qed (simp add: cfgwr_commit_def cfg_loop_failed)
qed

subsection \<open>What is written\<close>

lemma concat_vec_advance: "concat (vec_advance w vec) = drop w (concat vec)"
  by (induction vec arbitrary: w) auto

text \<open>
  \<open>writev\<close> never reports more than it was given, and errors have a number; interruptions and a full
  pipe do not last for ever.
\<close>

definition wv_retry :: "wv_ret \<Rightarrow> bool" where
  "wv_retry r \<longleftrightarrow> r = WvErr EAGAIN \<or> r = WvErr EINTR"

definition wv_contract :: "(nat \<Rightarrow> nat \<Rightarrow> wv_ret) \<Rightarrow> bool" where
  "wv_contract wv \<longleftrightarrow> (\<forall>i n. case wv i n of Wrote w \<Rightarrow> w \<le> n | WvErr e \<Rightarrow> 0 < e)
     \<and> (\<forall>i. \<exists>j\<ge>i. \<forall>n. \<not> wv_retry (wv j n))"

lemma cat_writev_wait:
  assumes "wv_contract wv" "vec \<noteq> []"
  shows "\<exists>j. \<not> wv_retry (wv j (length (concat vec))) \<and> cat_writev wv i vec out = cat_writev wv j vec out"
proof -
  obtain k where k: "\<not> wv_retry (wv (i + k) (length (concat vec)))"
    using assms(1) unfolding wv_contract_def by (metis le_add_diff_inverse)
  then show ?thesis
  proof (induction k arbitrary: i)
    case (Suc k)
    show ?case
    proof (cases "wv_retry (wv i (length (concat vec)))")
      case True
      then have "cat_writev wv i vec out = cat_writev wv (Suc i) vec out"
        using assms(2) by (subst cat_writev.simps) (auto simp: wv_retry_def)
      then show ?thesis using Suc.IH [of "Suc i"] Suc.prems by simp
    qed auto
  qed auto
qed

text \<open>What a reported error comes from.\<close>

definition wv_failed :: "(nat \<Rightarrow> nat \<Rightarrow> wv_ret) \<Rightarrow> int \<Rightarrow> bool" where
  "wv_failed wv e \<longleftrightarrow> (\<exists>j n. 0 < n \<and> (wv j n = WvErr e \<and> \<not> wv_retry (WvErr e) \<or> wv j n = Wrote 0 \<and> e = ENOSPC))"

lemma vec_advance_last: "vec = [] \<or> last vec \<noteq> [] \<Longrightarrow> vec_advance w vec = [] \<or> last (vec_advance w vec) \<noteq> []"
  by (induction vec arbitrary: w) (auto split: if_splits)

lemma cat_writev_result:
  assumes "wv_contract wv" "vec = [] \<or> last vec \<noteq> []"
  shows "\<exists>err out'. cat_writev wv i vec out = Some (err, out')
    \<and> (if err = 0 then out' = out @ concat vec else prefix out' (out @ concat vec) \<and> wv_failed wv err)"
  using assms(2)
proof (induction "length (concat vec)" arbitrary: i vec out rule: less_induct)
  case less
  let ?n = "length (concat vec)"
  show ?case
  proof (cases "vec = []")
    case True
    then show ?thesis by (simp add: cat_writev.simps)
  next
    case False
    then have n: "0 < ?n" using less.prems by (auto simp: last_in_set)
    obtain j where j: "\<not> wv_retry (wv j ?n)" "cat_writev wv i vec out = cat_writev wv j vec out"
      using cat_writev_wait [OF assms(1) False] by blast
    show ?thesis
    proof (cases "wv j ?n")
      case (WvErr e)
      then have "0 < e" using assms(1) by (auto simp: wv_contract_def split: wv_ret.splits)
      then have "cat_writev wv j vec out = Some (e, out)"
        using False j(1) WvErr by (subst cat_writev.simps) (auto simp: wv_retry_def)
      moreover have "wv_failed wv e" unfolding wv_failed_def
        by (intro exI [of _ j] exI [of _ ?n]) (use n WvErr j(1) in simp)
      ultimately show ?thesis using j(2) \<open>0 < e\<close> by simp
    next
      case (Wrote w)
      show ?thesis
      proof (cases "w = 0")
        case True
        then have "cat_writev wv j vec out = Some (ENOSPC, out)" using False Wrote by (subst cat_writev.simps) simp
        moreover have "wv_failed wv ENOSPC" unfolding wv_failed_def
          by (intro exI [of _ j] exI [of _ ?n]) (use n Wrote True in simp)
        ultimately show ?thesis using j(2) by (simp add: ENOSPC_def)
      next
        case w: False
        have "w \<le> ?n" using assms(1) Wrote unfolding wv_contract_def by (metis wv_ret.simps(5))
        then have "length (concat (vec_advance w vec)) < ?n" using w by (simp add: concat_vec_advance)
        from less.hyps [OF this vec_advance_last [OF less.prems], of "Suc j" "out @ take w (concat vec)"] obtain err out' where r: "cat_writev wv (Suc j) (vec_advance w vec) (out @ take w (concat vec)) = Some (err, out')"
          "if err = 0 then out' = (out @ take w (concat vec)) @ drop w (concat vec)
           else prefix out' ((out @ take w (concat vec)) @ drop w (concat vec)) \<and> wv_failed wv err"
          unfolding concat_vec_advance by blast
        have "cat_writev wv j vec out = Some (err, out')" using False Wrote w r(1) by (subst cat_writev.simps) simp
        moreover have "if err = 0 then out' = out @ concat vec else prefix out' (out @ concat vec) \<and> wv_failed wv err"
          using r(2) by (simp only: append_assoc append_take_drop_id)
        ultimately show ?thesis using j(2) by metis
      qed
    qed
  qed
qed

text \<open>
  C21: an object that can be read is written as its name, type, size and data with a line feed, however
  \<open>writev\<close> splits it up, interrupts it or makes it wait; the header fits its buffer for every type and
  size of git; and the function returns, with an error only when a call of \<open>writev\<close> failed or wrote nothing, after a prefix of that.
\<close>

theorem cat_oid_output:
  assumes "wv_contract wv" "my_oid_fromstrn lg oidstr = Inr (Some oid, full_oidlen)" "lg_read lg oid = Some obj"
    "lg_fmt lg obj = Some hex" "length hex = full_oidlen"
    "go_type obj \<in> {''commit'', ''tree'', ''blob'', ''tag''}" "length (go_data obj) < 10 ^ 19"
  shows "\<exists>r out. cat_oid lg wv oidstr = Some (r, out)
    \<and> (let all = hex @ '' '' @ go_type obj @ '' '' @ dec_str (length (go_data obj)) @ [CHR 0x0A] @ go_data obj @ [CHR 0x0A]
       in r = Inr True \<and> out = all \<or> (\<exists>e. r = Inl (WritevError e) \<and> wv_failed wv e) \<and> prefix out all)"
proof -
  let ?hdr = "hex @ '' '' @ go_type obj @ '' '' @ dec_str (length (go_data obj)) @ [CHR 0x0A]"
  have "full_oidlen \<le> MY_OID_MAX_HEXSIZE lg"
    using assms(2) by (auto simp: my_oid_fromstrn_def MY_OID_MAX_HEXSIZE_def GIT_OID_SHA1_HEXSIZE_def GIT_OID_SHA256_HEXSIZE_def
        split: if_splits)
  moreover have "length (dec_str (length (go_data obj))) \<le> 19" using length_dec_str [OF assms(7)] by simp
  moreover have "length (go_type obj) \<le> 6" using assms(6) by auto
  ultimately have hdr: "cat_hdr lg full_oidlen hex obj = Some ?hdr" using assms(5) by (simp add: cat_hdr_def)
  obtain err out where w: "cat_writev wv 0 [?hdr, go_data obj, [CHR 0x0A]] [] = Some (err, out)"
    "if err = 0 then out = [] @ concat [?hdr, go_data obj, [CHR 0x0A]] else prefix out ([] @ concat [?hdr, go_data obj, [CHR 0x0A]]) \<and> wv_failed wv err"
    using cat_writev_result [OF assms(1), of "[?hdr, go_data obj, [CHR 0x0A]]" 0 "[]"] by auto
  have "cat_oid lg wv oidstr = Some (if err \<noteq> 0 then Inl (WritevError err) else Inr True, out)"
    using assms(2-4) hdr w(1) by (simp add: cat_oid_def)
  then show ?thesis using w(2) by (cases "err = 0") (simp_all add: Let_def)
qed

text \<open>A blob, with an interruption and a write that splits the data.\<close>

definition lg2_sample :: libgit2 where
  "lg2_sample = \<lparr>lg_experimental = False, lg_fromstrn = (\<lambda>n s. if length s = n then Some s else None),
     lg_read = (\<lambda>oid. Some \<lparr>go_type = ''blob'', go_data = ''hello''\<rparr>), lg_fmt = (\<lambda>obj. Some (replicate 40 CHR ''a''))\<rparr>"

definition wv_sample :: "nat \<Rightarrow> nat \<Rightarrow> wv_ret" where
  "wv_sample i n = (if i = 0 then WvErr EINTR else if i = 1 then Wrote (min n 50) else Wrote n)"

theorem cat_oid_output_witness:
  "cat_oid lg2_sample wv_sample (replicate 40 CHR ''a'') = Some (Inr True, replicate 40 CHR ''a'' @ '' blob 5'' @
     [CHR 0x0A] @ ''hello'' @ [CHR 0x0A])"
proof -
  have c: "wv_contract wv_sample"
    unfolding wv_contract_def
  proof (intro conjI allI)
    fix i
    have "\<not> wv_retry (wv_sample (i + 2) n)" for n by (simp add: wv_sample_def wv_retry_def)
    then show "\<exists>j\<ge>i. \<forall>n. \<not> wv_retry (wv_sample j n)" by (metis le_add1)
  qed (simp add: wv_sample_def EINTR_def)
  have "\<not> wv_failed wv_sample e" for e by (auto simp: wv_failed_def wv_retry_def wv_sample_def split: if_splits)
  moreover have "dec_str (Suc (Suc (Suc (Suc (Suc 0))))) = ''5''" by code_simp
  ultimately show ?thesis
    using cat_oid_output [OF c, of lg2_sample "replicate 40 CHR ''a''" "replicate 40 CHR ''a''" 40
        "\<lparr>go_type = ''blob'', go_data = ''hello''\<rparr>" "replicate 40 CHR ''a''"]
    by (auto simp: lg2_sample_def my_oid_fromstrn_def GIT_OID_SHA1_HEXSIZE_def Let_def)
qed

end
