(* ===== verification/Khashl_Plain.thy ===== *)
theory Khashl_Plain
  imports Khashl_Map
begin

text \<open>
  The interfaces \<open>KHASHL_SET_INIT\<close> and \<open>KHASHL_MAP_INIT\<close> of \<open>khashl.h\<close>, whose buckets do not
  cache the hash of their key, and \<open>kh_foreach\<close>.  A map is a finite map: what \<open>kh_foreach\<close> lists
  is what the insertions before it put there.
\<close>

subsection \<open>Sets and maps that do not cache the hash\<close>

record 'k s_bucket =
  s_key :: 'k

definition s_hash :: "('k \<Rightarrow> khint) \<Rightarrow> 'k s_bucket \<Rightarrow> khint" where
  "s_hash hash_fn x = hash_fn (s_key x)"

definition s_eq :: "('k \<Rightarrow> 'k \<Rightarrow> bool) \<Rightarrow> 'k s_bucket \<Rightarrow> 'k s_bucket \<Rightarrow> bool" where
  "s_eq eqk x y \<longleftrightarrow> eqk (s_key x) (s_key y)"

definition kset_get :: "('k \<Rightarrow> khint) \<Rightarrow> ('k \<Rightarrow> 'k \<Rightarrow> bool) \<Rightarrow> 'k s_bucket khtab \<Rightarrow> 'k \<Rightarrow> khint" where
  "kset_get hash_fn eqk h key = kh_getp (s_hash hash_fn) (s_eq eqk) h \<lparr>s_key = key\<rparr>"

definition kset_put ::
  "('k \<Rightarrow> khint) \<Rightarrow> ('k \<Rightarrow> 'k \<Rightarrow> bool) \<Rightarrow> 'k s_bucket \<Rightarrow> 'k s_bucket khtab \<Rightarrow> 'k
     \<Rightarrow> ('k s_bucket khtab \<times> khint \<times> int) option"
where
  "kset_put hash_fn eqk junk h key = kh_putp (s_hash hash_fn) (s_eq eqk) junk h \<lparr>s_key = key\<rparr>"

definition kset_del :: "('k \<Rightarrow> khint) \<Rightarrow> 'k s_bucket khtab \<Rightarrow> khint \<Rightarrow> ('k s_bucket khtab \<times> int) option" where
  "kset_del hash_fn h k = kh_del (s_hash hash_fn) h k"

record ('k, 'v) m_bucket =
  m_key :: 'k
  m_val :: 'v

definition m_hash :: "('k \<Rightarrow> khint) \<Rightarrow> ('k, 'v) m_bucket \<Rightarrow> khint" where
  "m_hash hash_fn x = hash_fn (m_key x)"

definition m_eq :: "('k \<Rightarrow> 'k \<Rightarrow> bool) \<Rightarrow> ('k, 'v) m_bucket \<Rightarrow> ('k, 'v) m_bucket \<Rightarrow> bool" where
  "m_eq eqk x y \<longleftrightarrow> eqk (m_key x) (m_key y)"

definition kmap_get ::
  "('k \<Rightarrow> khint) \<Rightarrow> ('k \<Rightarrow> 'k \<Rightarrow> bool) \<Rightarrow> ('k, 'v) m_bucket \<Rightarrow> ('k, 'v) m_bucket khtab \<Rightarrow> 'k \<Rightarrow> khint"
where
  "kmap_get hash_fn eqk junk h key = kh_getp (m_hash hash_fn) (m_eq eqk) h (junk\<lparr>m_key := key\<rparr>)"

definition kmap_put ::
  "('k \<Rightarrow> khint) \<Rightarrow> ('k \<Rightarrow> 'k \<Rightarrow> bool) \<Rightarrow> ('k, 'v) m_bucket \<Rightarrow> ('k, 'v) m_bucket khtab \<Rightarrow> 'k
     \<Rightarrow> (('k, 'v) m_bucket khtab \<times> khint \<times> int) option"
where
  "kmap_put hash_fn eqk junk h key = kh_putp (m_hash hash_fn) (m_eq eqk) junk h (junk\<lparr>m_key := key\<rparr>)"

definition kmap_del ::
  "('k \<Rightarrow> khint) \<Rightarrow> ('k, 'v) m_bucket khtab \<Rightarrow> khint \<Rightarrow> (('k, 'v) m_bucket khtab \<times> int) option"
where
  "kmap_del hash_fn h k = kh_del (m_hash hash_fn) h k"

interpretation ps: kh_keying "s_hash hash_fn" "s_eq (=)" for hash_fn :: "'k \<Rightarrow> khint"
  by unfold_locales (auto simp: s_eq_def s_hash_def)

interpretation pm: kh_map_buckets "m_hash hash_fn" "m_eq (=)" m_key m_val "\<lambda>b v. b\<lparr>m_val := v\<rparr>"
  "\<lambda>b. True" "\<lambda>k. junk\<lparr>m_key := k\<rparr>"
  for hash_fn :: "'k \<Rightarrow> khint" and junk :: "('k, 'v) m_bucket"
  by unfold_locales (auto simp: m_eq_def m_hash_def)

text \<open>\<open>kh_foreach_value\<close>: the values in the order of the slots.\<close>

definition kh_foreach_value :: "('b \<Rightarrow> 'v) \<Rightarrow> 'b khtab \<Rightarrow> 'v list" where
  "kh_foreach_value val h =
     map (\<lambda>i. val (kh_bucket h (of_nat i))) (filter (\<lambda>i. kh_exist h (of_nat i)) [0..<unat (kh_end h)])"

subsection \<open>Maps as finite maps\<close>

definition kmap_val :: "('k, 'v) m_bucket khtab \<Rightarrow> khint \<Rightarrow> 'v" where
  "kmap_val h x = m_val (kh_keys h ! unat x)"

definition kmap_set_val :: "('k, 'v) m_bucket khtab \<Rightarrow> khint \<Rightarrow> 'v \<Rightarrow> ('k, 'v) m_bucket khtab" where
  "kmap_set_val h x v = h\<lparr>kh_keys := (kh_keys h)[unat x := (kh_keys h ! unat x)\<lparr>m_val := v\<rparr>]\<rparr>"

text \<open>How a client looks a key up and stores a value under it: \<open>kh_val(h, kmap_put(h, key, &absent)) = v\<close>.\<close>

definition kmap_lookup ::
  "('k \<Rightarrow> khint) \<Rightarrow> ('k \<Rightarrow> 'k \<Rightarrow> bool) \<Rightarrow> ('k, 'v) m_bucket \<Rightarrow> ('k, 'v) m_bucket khtab \<Rightarrow> 'k \<Rightarrow> 'v option"
where
  "kmap_lookup hash_fn eqk junk h key =
     (let i = kmap_get hash_fn eqk junk h key in if i \<ge> kh_end h then None else Some (kmap_val h i))"

definition kmap_insert ::
  "('k \<Rightarrow> khint) \<Rightarrow> ('k \<Rightarrow> 'k \<Rightarrow> bool) \<Rightarrow> ('k, 'v) m_bucket \<Rightarrow> ('k, 'v) m_bucket khtab \<Rightarrow> 'k \<Rightarrow> 'v
     \<Rightarrow> ('k, 'v) m_bucket khtab option"
where
  "kmap_insert hash_fn eqk junk h key v =
     do { (h, i, absent) \<leftarrow> kmap_put hash_fn eqk junk h key; Some (kmap_set_val h i v) }"

abbreviation kmap_wf :: "('k \<Rightarrow> khint) \<Rightarrow> ('k, 'v) m_bucket khtab \<Rightarrow> bool" where
  "kmap_wf hash_fn \<equiv> bkt_wf (m_hash hash_fn) (m_eq (=)) (\<lambda>b. True)"

lemma kmap_wf_init: "kmap_wf hash_fn kh_init"
  by (simp add: bkt_wf_def)

lemma kmap_bkt:
  "kmap_lookup hash_fn eqk junk = bkt_lookup (m_hash hash_fn) (m_eq eqk) (\<lambda>k. junk\<lparr>m_key := k\<rparr>) m_val"
  "kmap_insert hash_fn eqk junk h k v =
     map_option fst (bkt_insert (m_hash hash_fn) (m_eq eqk) (\<lambda>k. junk\<lparr>m_key := k\<rparr>) (\<lambda>b v. b\<lparr>m_val := v\<rparr>) junk h k v)"
  by (intro ext; simp add: kmap_lookup_def bkt_lookup_def kmap_get_def kmap_val_def kh_bucket_def Let_def)
    (simp add: kmap_set_val_def bkt_set_def kh_bucket_def kmap_insert_def bkt_insert_def kmap_put_def
      map_option_case split: bind_splits option.splits prod.splits)

lemma kmap_lookup_iff:
  "kmap_wf hash_fn h \<Longrightarrow> kmap_lookup hash_fn (=) junk h k = Some v \<longleftrightarrow> (\<exists>b\<in>kh_elems h. m_key b = k \<and> m_val b = v)"
  unfolding kmap_bkt by (rule pm.bkt_lookup_iff)

lemma kmap_insert_law:
  assumes "kmap_wf hash_fn h" "unat (kh_count h) < 3 * 2 ^ 29"
  shows "\<exists>h'. kmap_insert hash_fn (=) junk h k v = Some h' \<and> kmap_wf hash_fn h'
     \<and> kmap_lookup hash_fn (=) junk h' = (kmap_lookup hash_fn (=) junk h)(k \<mapsto> v)
     \<and> unat (kh_count h') \<le> Suc (unat (kh_count h))"
proof -
  have "\<exists>h' absent. bkt_insert (m_hash hash_fn) (m_eq (=)) (\<lambda>k. junk\<lparr>m_key := k\<rparr>) (\<lambda>b v. b\<lparr>m_val := v\<rparr>) junk h k v
        = Some (h', absent) \<and> kmap_wf hash_fn h'
     \<and> kmap_lookup hash_fn (=) junk h' = (kmap_lookup hash_fn (=) junk h)(k \<mapsto> v)
     \<and> absent = (if kmap_lookup hash_fn (=) junk h k = None then 1 else 0)
     \<and> unat (kh_count h') \<le> Suc (unat (kh_count h))"
    using assms unfolding kmap_bkt by (rule pm.bkt_insert_correct)
  then show ?thesis unfolding kmap_bkt by auto
qed

interpretation km: finite_map_impl kh_init "kmap_lookup hash_fn (=) junk" "kmap_insert hash_fn (=) junk"
  "\<lambda>h. unat (kh_count h)" "kmap_wf hash_fn" "3 * 2 ^ 29"
  for hash_fn :: "'k \<Rightarrow> khint" and junk :: "('k, 'v) m_bucket"
proof
  show "kmap_lookup hash_fn (=) junk kh_init = Map.empty"
    by (rule ext) (simp add: kmap_lookup_def kmap_get_def kh_getp_def kh_getp_core_def kh_init_def kh_end_def kh_capacity_def)
qed (rule kmap_wf_init, simp add: kh_init_def, rule kmap_insert_law)

text \<open>
  In a map without cached hashes, any sequence of at most \<open>3 * 2\<^sup>2\<^sup>9\<close> insertions into a fresh
  table returns; looking up then finds the value stored last under each key, and \<open>kh_foreach\<close>
  visits every key exactly once, with that value.
\<close>

theorem kmap_foreach_correct:
  assumes "length kvs \<le> 3 * 2 ^ 29"
  shows "\<exists>h. foldl (\<lambda>h (k, v). Option.bind h (\<lambda>h. kmap_insert hash_fn (=) junk h k v)) (Some kh_init) kvs = Some h
    \<and> kmap_lookup hash_fn (=) junk h = map_of (rev kvs)
    \<and> distinct (map fst (kh_foreach m_key m_val h)) \<and> map_of (kh_foreach m_key m_val h) = map_of (rev kvs)"
proof -
  obtain h where h: "km.ins_all hash_fn junk kh_init kvs = Some h" "kmap_wf hash_fn h"
    "kmap_lookup hash_fn (=) junk h = map_of (rev kvs)"
    using km.ins_all_correct [OF kmap_wf_init, of kvs hash_fn junk] assms
    by (auto simp: km.lookup_empty km.entries_empty)
  then show ?thesis using pm.foreach_lookup [OF h(2), folded kmap_bkt(1)] by (auto simp: km.ins_all_foldl)
qed

theorem kmap_foreach_correct_witness:
  "\<exists>h. foldl (\<lambda>h (k, v). Option.bind h (\<lambda>h. kmap_insert kh_hash_uint32 (=) \<lparr>m_key = 0, m_val = ''''\<rparr> h k v)) (Some kh_init)
      [(7, ''a''), (9, ''b''), (7, ''c'')] = Some h
    \<and> map_of (kh_foreach m_key m_val h) = [7 \<mapsto> ''c'', 9 \<mapsto> ''b'']"
  using kmap_foreach_correct [of "[(7, ''a''), (9, ''b''), (7, ''c'')]" kh_hash_uint32 "\<lparr>m_key = 0, m_val = ''''\<rparr>"]
  by (auto simp: fun_upd_twist)

end
