(* ===== verification/Khashl_Ens.thy ===== *)
theory Khashl_Ens
  imports Khashl_Plain Khashl_Spec
begin

text \<open>
  The ensemble of hash tables of \<open>khashl.h\<close> (\<open>KHASHE_INIT\<close> and \<open>KHASHE_MAP_INIT\<close>): \<open>2\<^sup>b\<^sup>i\<^sup>t\<^sup>s\<close>
  tables, of which the low bits of a hash choose one, so that a resize moves a part of the
  buckets only.  Every operation works on one table; the lemmas lift what the tables promise to
  the whole.  No file of the program instantiates the ensemble.
\<close>

subsection \<open>State and operations\<close>

record 'b khens =
  en_count :: "54 word"
  en_bits :: u8
  en_sub :: "'b khtab list"

text \<open>
  \<open>kh_ensitr_t\<close>, which no file declares: a table and a slot of it, where the slot
  \<open>(khint_t)-1\<close> says that there is none.
\<close>

record kh_ensitr =
  it_sub :: khint
  it_pos :: khint

definition kh_ens_is_end :: "kh_ensitr \<Rightarrow> bool" where
  "kh_ens_is_end x \<longleftrightarrow> it_pos x = - 1"

definition kh_ens_size :: "'b khens \<Rightarrow> 54 word" where
  "kh_ens_size g = en_count g"

definition kh_ens_exist :: "'b khens \<Rightarrow> kh_ensitr \<Rightarrow> bool" where
  "kh_ens_exist g x \<longleftrightarrow> kh_exist (en_sub g ! unat (it_sub x)) (it_pos x)"

text \<open>The shift \<open>1U << bits\<close>, the number of tables, and the mask \<open>(1U << bits) - 1\<close> on a hash.\<close>

definition en_pow :: "nat \<Rightarrow> khint" where
  "en_pow bits = push_bit bits 1"

definition en_low :: "'b khens \<Rightarrow> khint \<Rightarrow> khint" where
  "en_low g hash = hash AND (en_pow (unat (en_bits g)) - 1)"

definition ens_init_sub :: "'b khens \<Rightarrow> u64 \<Rightarrow> 'b khens" where
  "ens_init_sub g bits =
     g\<lparr>en_bits := ucast bits, en_sub := replicate (unat (en_pow (unat bits))) kh_init\<rparr>"

definition ens_init :: "'b khens" where
  "ens_init = ens_init_sub \<lparr>en_count = 0, en_bits = 0, en_sub = []\<rparr> 0"

definition ens_clear :: "'b khens \<Rightarrow> 'b khens" where
  "ens_clear g =
     g\<lparr>en_sub := foldl (\<lambda>sub t. sub[t := kh_clear (sub ! t)]) (en_sub g) [0..<unat (en_pow (unat (en_bits g)))]\<rparr>"

definition ens_getp :: "('b \<Rightarrow> khint) \<Rightarrow> ('b \<Rightarrow> 'b \<Rightarrow> bool) \<Rightarrow> 'b khens \<Rightarrow> 'b \<Rightarrow> kh_ensitr" where
  "ens_getp hf eq g key =
     (let hash = hf key;
          low = en_low g hash;
          h = en_sub g ! unat low;
          ret = kh_getp_core eq h key hash
      in if ret \<ge> kh_end h then \<lparr>it_sub = low, it_pos = - 1\<rparr> else \<lparr>it_sub = low, it_pos = ret\<rparr>)"

definition ens_putp ::
  "('b \<Rightarrow> khint) \<Rightarrow> ('b \<Rightarrow> 'b \<Rightarrow> bool) \<Rightarrow> 'b \<Rightarrow> 'b khens \<Rightarrow> 'b \<Rightarrow> ('b khens \<times> kh_ensitr \<times> int) option"
where
  "ens_putp hf eq junk g key =
     (let hash = hf key; low = en_low g hash
      in do {
        (h, ret, absent) \<leftarrow> kh_putp_core hf eq junk (en_sub g ! unat low) key hash;
        let g = g\<lparr>en_sub := (en_sub g)[unat low := h]\<rparr>;
        let g = (if absent \<noteq> 0 then g\<lparr>en_count := en_count g + 1\<rparr> else g);
        Some (g, if ret = kh_pow (kh_bits h) then \<lparr>it_sub = low, it_pos = - 1\<rparr> else \<lparr>it_sub = low, it_pos = ret\<rparr>, absent)
      })"

definition ens_del :: "('b \<Rightarrow> khint) \<Rightarrow> 'b khens \<Rightarrow> kh_ensitr \<Rightarrow> ('b khens \<times> int) option" where
  "ens_del hf g itr =
     do {
       (h, ret) \<leftarrow> kh_del hf (en_sub g ! unat (it_sub itr)) (it_pos itr);
       let g = g\<lparr>en_sub := (en_sub g)[unat (it_sub itr) := h]\<rparr>;
       Some (if ret \<noteq> 0 then g\<lparr>en_count := en_count g - 1\<rparr> else g, ret)
     }"

text \<open>The iteration over all tables, and the same over the values alone.\<close>

definition kh_ens_foreach :: "('b \<Rightarrow> 'k) \<Rightarrow> ('b \<Rightarrow> 'v) \<Rightarrow> 'b khens \<Rightarrow> ('k \<times> 'v) list" where
  "kh_ens_foreach key val g =
     concat (map (\<lambda>t. kh_foreach key val (en_sub g ! t)) [0..<unat (en_pow (unat (en_bits g)))])"

definition kh_ens_foreach_value :: "('b \<Rightarrow> 'v) \<Rightarrow> 'b khens \<Rightarrow> 'v list" where
  "kh_ens_foreach_value val g =
     concat (map (\<lambda>t. kh_foreach_value val (en_sub g ! t)) [0..<unat (en_pow (unat (en_bits g)))])"

subsection \<open>What an ensemble holds\<close>

definition ens_wf :: "('b \<Rightarrow> khint) \<Rightarrow> ('b \<Rightarrow> 'b \<Rightarrow> bool) \<Rightarrow> 'b khens \<Rightarrow> bool" where
  "ens_wf hf eq g \<longleftrightarrow> unat (en_bits g) \<le> 30 \<and> length (en_sub g) = 2 ^ unat (en_bits g)
     \<and> (\<forall>t<length (en_sub g). kh_wf hf eq (en_sub g ! t)
         \<and> (\<forall>b\<in>kh_elems (en_sub g ! t). unat (en_low g (hf b)) = t))"

definition ens_elems :: "'b khens \<Rightarrow> 'b set" where
  "ens_elems g = (\<Union>t<length (en_sub g). kh_elems (en_sub g ! t))"

definition ens_bucket :: "'b khens \<Rightarrow> kh_ensitr \<Rightarrow> 'b" where
  "ens_bucket g x = kh_bucket (en_sub g ! unat (it_sub x)) (it_pos x)"

text \<open>The iterator points at a bucket in use.\<close>

definition ens_at :: "'b khens \<Rightarrow> kh_ensitr \<Rightarrow> bool" where
  "ens_at g x \<longleftrightarrow> unat (it_sub x) < length (en_sub g) \<and> it_pos x < kh_end (en_sub g ! unat (it_sub x)) \<and> kh_ens_exist g x"

lemma unat_en_pow: "ens_wf hf eq g \<Longrightarrow> unat (en_pow (unat (en_bits g))) = length (en_sub g)"
  using unat_kh_pow [of "ucast (en_bits g)"] 
  by (auto simp: ens_wf_def en_pow_def kh_pow_def unsigned_ucast_eq take_bit_nat_eq_self)

lemma unat_en_low: "unat (en_low g hash) = take_bit (unat (en_bits g)) (unat hash)"
  unfolding en_low_def en_pow_def push_bit_one_minus_one
  by (simp only: take_bit_eq_mask [symmetric] unsigned_take_bit_eq)

lemma en_low_less: "ens_wf hf eq g \<Longrightarrow> unat (en_low g hash) < length (en_sub g)"
  by (simp add: ens_wf_def unat_en_low)

lemma en_low_update [simp]: "en_low (g\<lparr>en_sub := s\<rparr>) = en_low g" "en_low (g\<lparr>en_count := c\<rparr>) = en_low g"
  by (simp_all add: en_low_def fun_eq_iff)

lemma ens_count_update [simp]:
  "ens_wf hf eq (g\<lparr>en_count := c\<rparr>) = ens_wf hf eq g" "ens_elems (g\<lparr>en_count := c\<rparr>) = ens_elems g"
  by (simp_all add: ens_wf_def ens_elems_def)

lemma sub_elems:
  assumes "ens_wf hf eq g" "t < length (en_sub g)"
  shows "kh_elems (en_sub g ! t) = {b \<in> ens_elems g. unat (en_low g (hf b)) = t}"
  using assms by (auto simp: ens_wf_def ens_elems_def)

lemma finite_ens_elems [simp]: "finite (ens_elems g)"
  by (simp add: ens_elems_def kh_elems_def)

text \<open>Replacing one table by another whose buckets belong there.\<close>

lemma ens_sub_update:
  assumes wf: "ens_wf hf eq g" and t: "t < length (en_sub g)" and h: "kh_wf hf eq h"
    "\<forall>b\<in>kh_elems h. unat (en_low g (hf b)) = t"
  shows "ens_wf hf eq (g\<lparr>en_sub := (en_sub g)[t := h]\<rparr>)"
    and "ens_elems (g\<lparr>en_sub := (en_sub g)[t := h]\<rparr>) = {b \<in> ens_elems g. unat (en_low g (hf b)) \<noteq> t} \<union> kh_elems h"
proof -
  show "ens_wf hf eq (g\<lparr>en_sub := (en_sub g)[t := h]\<rparr>)"
    using assms by (auto simp: ens_wf_def nth_list_update)
  have *: "kh_elems ((en_sub g)[t := h] ! s) = (if s = t then kh_elems h else {b \<in> ens_elems g. unat (en_low g (hf b)) = s})"
    if "s < length (en_sub g)" for s
    using that t sub_elems [OF wf that] by (simp add: nth_list_update)
  have "ens_elems (g\<lparr>en_sub := (en_sub g)[t := h]\<rparr>)
      = (\<Union>s<length (en_sub g). if s = t then kh_elems h else {b \<in> ens_elems g. unat (en_low g (hf b)) = s})"
    using * by (simp add: ens_elems_def)
  also have "\<dots> = {b \<in> ens_elems g. unat (en_low g (hf b)) \<noteq> t} \<union> kh_elems h"
    using t en_low_less [OF wf] by (auto split: if_splits)
  finally show "ens_elems (g\<lparr>en_sub := (en_sub g)[t := h]\<rparr>) = {b \<in> ens_elems g. unat (en_low g (hf b)) \<noteq> t} \<union> kh_elems h" .
qed

lemma foldl_update_map:
  "n \<le> length xs \<Longrightarrow> foldl (\<lambda>xs i. xs[i := f (xs ! i)]) xs [0..<n] = map f (take n xs) @ drop n xs"
proof (induction n)
  case (Suc n)
  then have "foldl (\<lambda>xs i. xs[i := f (xs ! i)]) xs [0..<Suc n] = (map f (take n xs) @ drop n xs)[n := f ((map f (take n xs) @ drop n xs) ! n)]"
    by simp
  also have "\<dots> = map f (take (Suc n) xs) @ drop (Suc n) xs"
    using Suc.prems by (simp add: nth_append list_update_append take_Suc_conv_app_nth Cons_nth_drop_Suc [symmetric])
  finally show ?case .
qed simp

subsection \<open>The operations\<close>

context kh_keying
begin

lemma low_same: "eq a b \<Longrightarrow> unat (en_low g (hf a)) = unat (en_low g (hf b))"
  using eq_hash by simp

lemma ens_present_iff:
  assumes wf: "ens_wf hf eq g"
  shows "(\<exists>b\<in>kh_elems (en_sub g ! unat (en_low g (hf key))). eq b key) \<longleftrightarrow> (\<exists>b\<in>ens_elems g. eq b key)"
  unfolding sub_elems [OF wf en_low_less [OF wf]] using low_same by blast

lemma sub_count:
  assumes wf: "ens_wf hf eq g" and t: "t < length (en_sub g)" and small: "card (ens_elems g) < n"
  shows "unat (kh_count (en_sub g ! t)) < n"
proof -
  have "kh_wf hf eq (en_sub g ! t)" using wf t by (simp add: ens_wf_def)
  then have "unat (kh_count (en_sub g ! t)) = card (kh_elems (en_sub g ! t))" by (rule count_card)
  also have "\<dots> \<le> card (ens_elems g)" using t by (intro card_mono) (use finite_ens_elems in \<open>auto simp: ens_elems_def\<close>)
  finally show ?thesis using small by simp
qed

lemma ens_getp_correct:
  assumes wf: "ens_wf hf eq g"
  shows "kh_ens_is_end (ens_getp hf eq g key) \<longleftrightarrow> \<not> (\<exists>b\<in>ens_elems g. eq b key)"
    and "\<exists>b\<in>ens_elems g. eq b key \<Longrightarrow> ens_at g (ens_getp hf eq g key) \<and> eq (ens_bucket g (ens_getp hf eq g key)) key"
proof -
  let ?t = "unat (en_low g (hf key))" and ?i = "kh_getp_core eq (en_sub g ! unat (en_low g (hf key))) key (hf key)"
  have sub: "kh_wf hf eq (en_sub g ! ?t)" using wf en_low_less [OF wf] by (auto simp: ens_wf_def)
  note get = getp_correct [OF sub, of key, unfolded ens_present_iff [OF wf], unfolded kh_getp_def]
  show "kh_ens_is_end (ens_getp hf eq g key) \<longleftrightarrow> \<not> (\<exists>b\<in>ens_elems g. eq b key)"
  proof (cases "\<exists>b\<in>ens_elems g. eq b key")
    case True
    then have "?i < kh_end (en_sub g ! ?t)" using get by simp
    then have "?i \<noteq> - 1" using word_order.extremum_strict by auto
    with True \<open>?i < _\<close> show ?thesis by (simp add: kh_ens_is_end_def ens_getp_def Let_def)
  next
    case False
    then show ?thesis using get by (simp add: kh_ens_is_end_def ens_getp_def Let_def)
  qed
  assume "\<exists>b\<in>ens_elems g. eq b key"
  then show "ens_at g (ens_getp hf eq g key) \<and> eq (ens_bucket g (ens_getp hf eq g key)) key"
    using get en_low_less [OF wf] by (simp add: ens_at_def ens_bucket_def kh_ens_exist_def ens_getp_def Let_def linorder_not_le)
qed

lemma ens_putp_correct:
  assumes wf: "ens_wf hf eq g" and small: "card (ens_elems g) < 3 * 2 ^ 29"
  shows "\<exists>g' r. ens_putp hf eq junk g key = Some (g', r, if \<exists>b\<in>ens_elems g. eq b key then 0 else 1)
     \<and> ens_wf hf eq g' \<and> \<not> kh_ens_is_end r \<and> ens_at g' r \<and> eq (ens_bucket g' r) key
     \<and> ens_elems g' = (if \<exists>b\<in>ens_elems g. eq b key then ens_elems g else insert key (ens_elems g))
     \<and> en_count g' = en_count g + (if \<exists>b\<in>ens_elems g. eq b key then 0 else 1)"
proof -
  let ?low = "en_low g (hf key)" and ?old = "\<exists>b\<in>ens_elems g. eq b key"
  let ?h = "en_sub g ! unat ?low"
  have t: "unat ?low < length (en_sub g)" by (rule en_low_less [OF wf])
  have sub: "kh_wf hf eq ?h" using wf t by (auto simp: ens_wf_def)
  note el = sub_elems [OF wf t]
  obtain h i where put: "kh_putp_core hf eq junk ?h key (hf key) = Some (h, i, if ?old then 0 else 1)"
    and h: "kh_wf hf eq h" "i < kh_end h" "kh_exist h i"
      "kh_elems h = (if ?old then kh_elems ?h else insert key (kh_elems ?h))" "eq (kh_bucket h i) key"
    using putp_correct [OF sub sub_count [OF wf t small], of junk key, unfolded ens_present_iff [OF wf] kh_putp_def]
      eq_refl by (auto split: if_splits)
  let ?g = "g\<lparr>en_sub := (en_sub g)[unat ?low := h]\<rparr>"
  have "\<forall>b\<in>kh_elems h. unat (en_low g (hf b)) = unat ?low"
    by (auto simp: h(4) el split: if_splits)
  note g = ens_sub_update [OF wf t h(1) this]
  have elems: "ens_elems ?g = (if ?old then ens_elems g else insert key (ens_elems g))"
    unfolding g(2) h(4) el by auto
  have "i \<noteq> - 1" using h(2) word_order.extremum_strict by auto
  moreover have "i \<noteq> kh_pow (kh_bits h)" using h(2) by (auto simp: kh_end_def kh_capacity_def split: if_splits)
  ultimately show ?thesis
    using put h(2,3,5) g(1) elems t
    by (auto simp: ens_putp_def Let_def kh_ens_is_end_def ens_at_def ens_bucket_def kh_ens_exist_def)
qed

lemma ens_del_correct:
  assumes wf: "ens_wf hf eq g" and at: "ens_at g r"
  shows "\<exists>g'. ens_del hf g r = Some (g', 1) \<and> ens_wf hf eq g'
     \<and> ens_elems g' = ens_elems g - {ens_bucket g r} \<and> en_count g' = en_count g - 1"
proof -
  let ?t = "unat (it_sub r)"
  let ?h = "en_sub g ! ?t"
  have t: "?t < length (en_sub g)" and i: "it_pos r < kh_end ?h" "kh_exist ?h (it_pos r)"
    using at by (simp_all add: ens_at_def kh_ens_exist_def)
  have sub: "kh_wf hf eq ?h" using wf t by (auto simp: ens_wf_def)
  note el = sub_elems [OF wf t]
  obtain h where del: "kh_del hf ?h (it_pos r) = Some (h, 1)" and h: "kh_wf hf eq h" "kh_elems h = kh_elems ?h - {ens_bucket g r}"
    using del_correct [OF sub i] by (auto simp: ens_bucket_def)
  have "ens_bucket g r \<in> kh_elems ?h"
    using i by (auto simp: ens_bucket_def kh_elems_slots [OF sub] word_less_nat_alt intro!: exI [of _ "unat (it_pos r)"])
  then have b: "unat (en_low g (hf (ens_bucket g r))) = ?t" by (simp add: el)
  have "\<forall>b\<in>kh_elems h. unat (en_low g (hf b)) = ?t" by (auto simp: h(2) el)
  note g = ens_sub_update [OF wf t h(1) this]
  have "ens_elems (g\<lparr>en_sub := (en_sub g)[?t := h]\<rparr>) = ens_elems g - {ens_bucket g r}"
    using b by (auto simp: g(2) h(2) el)
  then show ?thesis using del g(1) by (simp add: ens_del_def Let_def)
qed

lemma ens_clear_correct:
  assumes wf: "ens_wf hf eq g"
  shows "ens_wf hf eq (ens_clear g)" and "ens_elems (ens_clear g) = {}" and "en_count (ens_clear g) = en_count g"
proof -
  have sub: "en_sub (ens_clear g) = map kh_clear (en_sub g)"
    by (simp add: ens_clear_def unat_en_pow [OF wf] foldl_update_map)
  have *: "kh_wf hf eq (kh_clear (en_sub g ! t)) \<and> kh_elems (kh_clear (en_sub g ! t)) = {}" if "t < length (en_sub g)" for t
    using that wf clear_correct by (auto simp: ens_wf_def)
  show "ens_wf hf eq (ens_clear g)" using wf * by (auto simp: ens_wf_def sub) (simp_all add: ens_clear_def)
  show "ens_elems (ens_clear g) = {}" using * by (simp add: ens_elems_def sub)
  show "en_count (ens_clear g) = en_count g" by (simp add: ens_clear_def)
qed

end

lemma ens_init_wf:
  assumes "unat bits \<le> 30"
  shows "ens_wf hf eq (ens_init_sub g bits)" and "ens_elems (ens_init_sub g bits) = {}"
    and "en_count (ens_init_sub g bits) = en_count g"
proof -
  have bits: "unat (ucast bits :: u8) = unat bits" using assms by (simp add: unsigned_ucast_eq take_bit_nat_eq_self)
  have "unat (en_pow (unat bits)) = 2 ^ unat bits"
    using unat_kh_pow [of "of_nat (unat bits)"] assms by (auto simp: en_pow_def kh_pow_def unsigned_ucast_eq take_bit_nat_eq_self)
  then show "ens_wf hf eq (ens_init_sub g bits)" "ens_elems (ens_init_sub g bits) = {}"
    "en_count (ens_init_sub g bits) = en_count g"
    using assms by (simp_all add: ens_wf_def ens_elems_def ens_init_sub_def bits)
qed

subsection \<open>Sequences of operations\<close>

text \<open>The operations of a table on an ensemble; a resize is a no-op (\<open>KHASHE_MAP_INIT\<close>).\<close>

fun ens_exec ::
  "('b \<Rightarrow> khint) \<Rightarrow> ('b \<Rightarrow> 'b \<Rightarrow> bool) \<Rightarrow> 'b \<Rightarrow> 'b khens \<Rightarrow> 'b kh_op \<Rightarrow> 'b khens option"
where
  "ens_exec hf eq junk g (KhPut b) = map_option fst (ens_putp hf eq junk g b)"
| "ens_exec hf eq junk g (KhDel b) =
     (let r = ens_getp hf eq g b in if kh_ens_is_end r then Some g else map_option fst (ens_del hf g r))"
| "ens_exec hf eq junk g KhClear = Some (ens_clear g)"
| "ens_exec hf eq junk g (KhResize m) = Some g"

fun ens_exec_all ::
  "('b \<Rightarrow> khint) \<Rightarrow> ('b \<Rightarrow> 'b \<Rightarrow> bool) \<Rightarrow> 'b \<Rightarrow> 'b khens \<Rightarrow> 'b kh_op list \<Rightarrow> 'b khens option"
where
  "ens_exec_all hf eq junk g [] = Some g"
| "ens_exec_all hf eq junk g (x # xs) =
     Option.bind (ens_exec hf eq junk g x) (\<lambda>g. ens_exec_all hf eq junk g xs)"

text \<open>The count is right: the number of buckets, in its 54 bits.\<close>

definition ens_counted :: "'b khens \<Rightarrow> bool" where
  "ens_counted g \<longleftrightarrow> en_count g = of_nat (card (ens_elems g))"

context kh_keying
begin

lemma ens_unique:
  assumes wf: "ens_wf hf eq g" and "a \<in> ens_elems g" "b \<in> ens_elems g" "eq a b"
  shows "a = b"
proof -
  let ?t = "unat (en_low g (hf b))"
  have t: "?t < length (en_sub g)" by (rule en_low_less [OF wf])
  have "a \<in> kh_elems (en_sub g ! ?t)" "b \<in> kh_elems (en_sub g ! ?t)"
    using assms(2,3) low_same [OF assms(4), of g] by (simp_all add: sub_elems [OF wf t])
  moreover have "kh_wf hf eq (en_sub g ! ?t)" using wf t by (auto simp: ens_wf_def)
  ultimately show ?thesis using elem_unique assms(4) by blast
qed

lemma ens_at_elem:
  assumes wf: "ens_wf hf eq g" and at: "ens_at g r"
  shows "ens_bucket g r \<in> ens_elems g"
proof -
  have "kh_wf hf eq (en_sub g ! unat (it_sub r))" using wf at by (auto simp: ens_wf_def ens_at_def)
  then have "ens_bucket g r \<in> kh_elems (en_sub g ! unat (it_sub r))"
    using at by (auto simp: ens_bucket_def ens_at_def kh_ens_exist_def kh_elems_slots word_less_nat_alt
        intro!: exI [of _ "unat (it_pos r)"])
  then show ?thesis using at by (auto simp: ens_elems_def ens_at_def)
qed

lemma ens_exec_correct:
  assumes wf: "ens_wf hf eq g" and small: "card (ens_elems g) < 3 * 2 ^ 29"
  shows "\<exists>g'. ens_exec hf eq junk g x = Some g' \<and> ens_wf hf eq g' \<and> ens_elems g' = set_exec eq x (ens_elems g)
     \<and> (ens_counted g \<longrightarrow> x \<noteq> KhClear \<longrightarrow> ens_counted g')"
proof (cases x)
  case (KhPut b)
  obtain g' r where g': "ens_putp hf eq junk g b = Some (g', r, if \<exists>x\<in>ens_elems g. eq x b then 0 else 1)" "ens_wf hf eq g'"
    "ens_elems g' = (if \<exists>x\<in>ens_elems g. eq x b then ens_elems g else insert b (ens_elems g))"
    "en_count g' = en_count g + (if \<exists>x\<in>ens_elems g. eq x b then 0 else 1)"
    using ens_putp_correct [OF wf small, of junk b] by blast
  moreover have "ens_counted g \<longrightarrow> ens_counted g'"
    using eq_refl by (auto simp: ens_counted_def g'(3,4) card_insert_if)
  ultimately show ?thesis using KhPut by simp
next
  case (KhDel b)
  let ?r = "ens_getp hf eq g b"
  show ?thesis
  proof (cases "\<exists>x\<in>ens_elems g. eq x b")
    case True
    then have r: "\<not> kh_ens_is_end ?r" "ens_at g ?r" "eq (ens_bucket g ?r) b" using ens_getp_correct [OF wf, of b] by auto
    note el = ens_at_elem [OF wf r(2)]
    obtain g' where g': "ens_del hf g ?r = Some (g', 1)" "ens_wf hf eq g'" "ens_elems g' = ens_elems g - {ens_bucket g ?r}"
      "en_count g' = en_count g - 1"
      using ens_del_correct [OF wf r(2)] by blast
    have "x = ens_bucket g ?r" if "x \<in> ens_elems g" "eq x b" for x
      using ens_unique [OF wf that(1) el] that(2) r(3) eq_sym eq_trans by blast
    then have "ens_elems g' = set_exec eq x (ens_elems g)" using r(3) KhDel by (auto simp: g'(3))
    moreover have "ens_counted g \<longrightarrow> ens_counted g'"
      using el card_Suc_Diff1 [OF finite_ens_elems el, symmetric] by (simp add: ens_counted_def g'(3,4))
    ultimately show ?thesis using KhDel r(1) g'(1,2) by simp
  next
    case False
    then show ?thesis using KhDel wf ens_getp_correct(1) [OF wf, of b] by auto
  qed
qed (use wf ens_clear_correct [OF wf] in simp_all)

lemma card_set_exec: "finite S \<Longrightarrow> card (set_exec eq x S) \<le> Suc (card S)"
  by (cases x) (auto simp: card_insert_if intro: le_SucI card_mono)

lemma ens_exec_all_correct:
  assumes "ens_wf hf eq g" and "card (ens_elems g) + length xs \<le> 3 * 2 ^ 29"
  shows "\<exists>g'. ens_exec_all hf eq junk g xs = Some g' \<and> ens_wf hf eq g' \<and> ens_elems g' = fold (set_exec eq) xs (ens_elems g)
     \<and> (ens_counted g \<longrightarrow> KhClear \<notin> set xs \<longrightarrow> ens_counted g')"
  using assms
proof (induction xs arbitrary: g)
  case (Cons x xs)
  then obtain g1 where g1: "ens_exec hf eq junk g x = Some g1" "ens_wf hf eq g1"
    "ens_elems g1 = set_exec eq x (ens_elems g)" "ens_counted g \<longrightarrow> x \<noteq> KhClear \<longrightarrow> ens_counted g1"
    using ens_exec_correct [of g junk x] by auto
  moreover have "card (ens_elems g1) + length xs \<le> 3 * 2 ^ 29"
    using Cons.prems(2) card_set_exec [OF finite_ens_elems, of x g] by (simp add: g1(3))
  ultimately obtain g' where "ens_exec_all hf eq junk g1 xs = Some g'" "ens_wf hf eq g'"
    "ens_elems g' = fold (set_exec eq) xs (ens_elems g1)" "ens_counted g1 \<longrightarrow> KhClear \<notin> set xs \<longrightarrow> ens_counted g'"
    using Cons.IH [OF g1(2)] by blast
  with g1 show ?case by auto
qed simp

end

subsection \<open>Maps on an ensemble\<close>

definition kh_ens_key :: "('k, 'v) m_bucket khens \<Rightarrow> kh_ensitr \<Rightarrow> 'k" where
  "kh_ens_key g x = m_key (kh_keys (en_sub g ! unat (it_sub x)) ! unat (it_pos x))"

definition kh_ens_val :: "('k, 'v) m_bucket khens \<Rightarrow> kh_ensitr \<Rightarrow> 'v" where
  "kh_ens_val g x = kmap_val (en_sub g ! unat (it_sub x)) (it_pos x)"

definition kh_ens_set_val :: "('k, 'v) m_bucket khens \<Rightarrow> kh_ensitr \<Rightarrow> 'v \<Rightarrow> ('k, 'v) m_bucket khens" where
  "kh_ens_set_val g x v =
     g\<lparr>en_sub := (en_sub g)[unat (it_sub x) := kmap_set_val (en_sub g ! unat (it_sub x)) (it_pos x) v]\<rparr>"

definition emap_get ::
  "('k \<Rightarrow> khint) \<Rightarrow> ('k \<Rightarrow> 'k \<Rightarrow> bool) \<Rightarrow> ('k, 'v) m_bucket \<Rightarrow> ('k, 'v) m_bucket khens \<Rightarrow> 'k \<Rightarrow> kh_ensitr"
where
  "emap_get hash_fn eqk junk g key = ens_getp (m_hash hash_fn) (m_eq eqk) g (junk\<lparr>m_key := key\<rparr>)"

definition emap_put ::
  "('k \<Rightarrow> khint) \<Rightarrow> ('k \<Rightarrow> 'k \<Rightarrow> bool) \<Rightarrow> ('k, 'v) m_bucket \<Rightarrow> ('k, 'v) m_bucket khens \<Rightarrow> 'k
     \<Rightarrow> (('k, 'v) m_bucket khens \<times> kh_ensitr \<times> int) option"
where
  "emap_put hash_fn eqk junk g key = ens_putp (m_hash hash_fn) (m_eq eqk) junk g (junk\<lparr>m_key := key\<rparr>)"

definition emap_del ::
  "('k \<Rightarrow> khint) \<Rightarrow> ('k, 'v) m_bucket khens \<Rightarrow> kh_ensitr \<Rightarrow> (('k, 'v) m_bucket khens \<times> int) option"
where
  "emap_del hash_fn g x = ens_del (m_hash hash_fn) g x"

text \<open>How a client looks a key up and stores a value under it.\<close>

definition emap_lookup ::
  "('k \<Rightarrow> khint) \<Rightarrow> ('k \<Rightarrow> 'k \<Rightarrow> bool) \<Rightarrow> ('k, 'v) m_bucket \<Rightarrow> ('k, 'v) m_bucket khens \<Rightarrow> 'k \<Rightarrow> 'v option"
where
  "emap_lookup hash_fn eqk junk g key =
     (let r = emap_get hash_fn eqk junk g key in if kh_ens_is_end r then None else Some (kh_ens_val g r))"

definition emap_insert ::
  "('k \<Rightarrow> khint) \<Rightarrow> ('k \<Rightarrow> 'k \<Rightarrow> bool) \<Rightarrow> ('k, 'v) m_bucket \<Rightarrow> ('k, 'v) m_bucket khens \<Rightarrow> 'k \<Rightarrow> 'v
     \<Rightarrow> ('k, 'v) m_bucket khens option"
where
  "emap_insert hash_fn eqk junk g key v =
     do { (g, r, absent) \<leftarrow> emap_put hash_fn eqk junk g key; Some (kh_ens_set_val g r v) }"

abbreviation emap_wf :: "('k \<Rightarrow> khint) \<Rightarrow> ('k, 'v) m_bucket khens \<Rightarrow> bool" where
  "emap_wf hash_fn \<equiv> ens_wf (m_hash hash_fn) (m_eq (=))"

text \<open>The table of a key, the entries of all tables, and the two operations on the table of a key.\<close>

abbreviation emap_sub :: "('k \<Rightarrow> khint) \<Rightarrow> ('k, 'v) m_bucket khens \<Rightarrow> 'k \<Rightarrow> nat" where
  "emap_sub hash_fn g k \<equiv> unat (en_low g (hash_fn k))"

definition en_entries :: "'b khens \<Rightarrow> nat" where
  "en_entries g = sum_list (map (\<lambda>h. unat (kh_count h)) (en_sub g))"

lemma sub_kmap_wf: "emap_wf hash_fn g \<Longrightarrow> t < length (en_sub g) \<Longrightarrow> kmap_wf hash_fn (en_sub g ! t)"
  by (simp add: ens_wf_def bkt_wf_def)

lemma emap_lookup_sub:
  assumes wf: "emap_wf hash_fn g"
  shows "emap_lookup hash_fn (=) junk g k = kmap_lookup hash_fn (=) junk (en_sub g ! emap_sub hash_fn g k) k"
proof -
  let ?h = "en_sub g ! emap_sub hash_fn g k"
  let ?i = "kmap_get hash_fn (=) junk ?h k"
  have "?i < kh_end ?h \<Longrightarrow> ?i \<noteq> - 1" using word_order.extremum_strict by auto
  then show ?thesis
    by (auto simp: emap_lookup_def kmap_lookup_def emap_get_def ens_getp_def Let_def kh_ens_is_end_def kh_ens_val_def
        kmap_get_def kh_getp_def m_hash_def linorder_not_le)
qed

lemma kmap_low:
  assumes wf: "emap_wf hash_fn g" and t: "t < length (en_sub g)"
    and k: "kmap_lookup hash_fn (=) junk (en_sub g ! t) k \<noteq> None"
  shows "t = emap_sub hash_fn g k"
proof -
  obtain b where "b \<in> kh_elems (en_sub g ! t)" "m_key b = k"
    using k kmap_lookup_iff [OF sub_kmap_wf [OF wf t]] by blast
  then show ?thesis using wf t by (auto simp: ens_wf_def m_hash_def)
qed

lemma emap_insert_law:
  assumes wf: "emap_wf hash_fn g" and small: "en_entries g < 3 * 2 ^ 29"
  shows "\<exists>g'. emap_insert hash_fn (=) junk g k v = Some g' \<and> emap_wf hash_fn g'
     \<and> emap_lookup hash_fn (=) junk g' = (emap_lookup hash_fn (=) junk g)(k \<mapsto> v) \<and> en_entries g' \<le> Suc (en_entries g)"
proof -
  let ?t = "emap_sub hash_fn g k"
  let ?h = "en_sub g ! ?t"
  have t: "?t < length (en_sub g)" by (rule en_low_less [OF wf])
  have kwf: "kmap_wf hash_fn ?h" by (rule sub_kmap_wf [OF wf t])
  have le: "unat (kh_count ?h) \<le> en_entries g" using t by (auto simp: en_entries_def intro!: member_le_sum_list)
  obtain h where h: "kmap_insert hash_fn (=) junk ?h k v = Some h" "kmap_wf hash_fn h"
    "kmap_lookup hash_fn (=) junk h = (kmap_lookup hash_fn (=) junk ?h)(k \<mapsto> v)" "unat (kh_count h) \<le> Suc (unat (kh_count ?h))"
    using kmap_insert_law [OF kwf, of junk k v] le small by auto
  then obtain h0 i absent where put: "kmap_put hash_fn (=) junk ?h k = Some (h0, i, absent)" "h = kmap_set_val h0 i v"
    by (auto simp: kmap_insert_def split: bind_splits)
  obtain c where g': "emap_insert hash_fn (=) junk g k v = Some (g\<lparr>en_sub := (en_sub g)[?t := h], en_count := c\<rparr>)"
  proof
    have "i < kh_end h0"
      using pm.putp_correct [of hash_fn ?h junk "junk\<lparr>m_key := k\<rparr>"] kwf le small put(1)
      by (auto simp: bkt_wf_def kmap_put_def split: if_splits)
    then have "i \<noteq> kh_pow (kh_bits h0)" by (auto simp: kh_end_def kh_capacity_def split: if_splits)
    then show "emap_insert hash_fn (=) junk g k v = Some (g\<lparr>en_sub := (en_sub g)[?t := h],
        en_count := en_count g + (if absent \<noteq> 0 then 1 else 0)\<rparr>)"
      using put t by (simp add: emap_insert_def emap_put_def ens_putp_def kmap_put_def kh_putp_def m_hash_def Let_def kh_ens_set_val_def)
  qed
  have low: "\<forall>b\<in>kh_elems h. unat (en_low g (m_hash hash_fn b)) = ?t"
  proof
    fix b assume "b \<in> kh_elems h"
    then have "kmap_lookup hash_fn (=) junk h (m_key b) = Some (m_val b)"
      unfolding kmap_lookup_iff [OF h(2)] by blast
    then have "m_key b = k \<or> kmap_lookup hash_fn (=) junk ?h (m_key b) \<noteq> None" by (auto simp: h(3) split: if_splits)
    then have "?t = emap_sub hash_fn g (m_key b)" using kmap_low [OF wf t, of junk "m_key b"] by auto
    then show "unat (en_low g (m_hash hash_fn b)) = ?t" by (simp add: m_hash_def)
  qed
  have "kh_wf (m_hash hash_fn) (m_eq (=)) h" using h(2) by (simp add: bkt_wf_def)
  note wf' = ens_sub_update(1) [OF wf t this low]
  let ?g = "g\<lparr>en_sub := (en_sub g)[?t := h], en_count := c\<rparr>"
  have "emap_lookup hash_fn (=) junk ?g k' = ((emap_lookup hash_fn (=) junk g)(k \<mapsto> v)) k'" for k'
    using wf' t en_low_less [OF wf, of "hash_fn k'"] by (auto simp: emap_lookup_sub [OF wf] emap_lookup_sub nth_list_update h(3))
  moreover have "en_entries ?g \<le> Suc (en_entries g)"
    using t h(4) le by (simp add: en_entries_def map_update sum_list_update)
  ultimately show ?thesis using g' wf' by auto
qed

text \<open>The key-value pairs that the iteration over the tables visits.\<close>

lemma fst_set_concat_map: "k \<in> fst ` set (concat (map f [0..<n])) \<longleftrightarrow> (\<exists>t<n. k \<in> fst ` set (f t))" for f :: "nat \<Rightarrow> ('k \<times> 'v) list"
  by force

lemma distinct_concat_map:
  fixes f :: "nat \<Rightarrow> ('k \<times> 'v) list"
  assumes "\<And>t. t < n \<Longrightarrow> distinct (map fst (f t))"
    and "\<And>s t k. s < n \<Longrightarrow> t < n \<Longrightarrow> k \<in> fst ` set (f s) \<Longrightarrow> k \<in> fst ` set (f t) \<Longrightarrow> s = t"
  shows "distinct (map fst (concat (map f [0..<n])))"
  using assms
proof (induction n)
  case (Suc n)
  have IH: "distinct (map fst (concat (map f [0..<n])))" using Suc.prems by (intro Suc.IH) (auto intro: less_SucI)
  have False if "k \<in> fst ` set (f n)" "t < n" "k \<in> fst ` set (f t)" for k t
    using Suc.prems(2) [of n t k] that by simp
  then have "fst ` set (concat (map f [0..<n])) \<inter> fst ` set (f n) = {}"
    unfolding disjoint_iff by (metis (no_types, lifting) fst_set_concat_map)
  then show ?case using IH Suc.prems(1) [of n] by simp
qed simp

lemma emap_foreach:
  assumes wf: "emap_wf hash_fn g"
  shows "distinct (map fst (kh_ens_foreach m_key m_val g))"
    and "map_of (kh_ens_foreach m_key m_val g) = emap_lookup hash_fn (=) junk g"
proof -
  let ?f = "\<lambda>t. kh_foreach m_key m_val (en_sub g ! t)" and ?n = "length (en_sub g)"
  have fe: "kh_ens_foreach m_key m_val g = concat (map ?f [0..<?n])"
    by (simp add: kh_ens_foreach_def unat_en_pow [OF wf])
  have dist: "distinct (map fst (?f t))" and lk: "map_of (?f t) = kmap_lookup hash_fn (=) junk (en_sub g ! t)" if "t < ?n" for t
    using pm.foreach_lookup [OF sub_kmap_wf [OF wf that], folded kmap_bkt(1)] by blast+
  have low: "t = emap_sub hash_fn g k" if "t < ?n" "k \<in> fst ` set (?f t)" for t k
    using that(2) kmap_low [OF wf that(1), of junk k] unfolding lk [OF that(1), symmetric] map_of_eq_None_iff by blast
  show d: "distinct (map fst (kh_ens_foreach m_key m_val g))"
    unfolding fe
  proof (rule distinct_concat_map)
    show "s = t" if "s < ?n" "t < ?n" "k \<in> fst ` set (?f s)" "k \<in> fst ` set (?f t)" for s t k
      using low [OF that(1,3)] low [OF that(2,4)] by simp
  qed (rule dist)
  have "map_of (kh_ens_foreach m_key m_val g) k = Some v \<longleftrightarrow> emap_lookup hash_fn (=) junk g k = Some v" for k v
  proof -
    have "(k, v) \<in> set (kh_ens_foreach m_key m_val g) \<longleftrightarrow> (\<exists>t<?n. (k, v) \<in> set (?f t))" by (auto simp: fe)
    also have "\<dots> \<longleftrightarrow> (\<exists>t<?n. kmap_lookup hash_fn (=) junk (en_sub g ! t) k = Some v)"
    proof -
      have "(k, v) \<in> set (?f t) \<longleftrightarrow> kmap_lookup hash_fn (=) junk (en_sub g ! t) k = Some v" if "t < ?n" for t
        unfolding lk [OF that, symmetric] map_of_eq_Some_iff [OF dist [OF that]] ..
      then show ?thesis by blast
    qed
    also have "\<dots> \<longleftrightarrow> emap_lookup hash_fn (=) junk g k = Some v"
    proof
      assume "\<exists>t<?n. kmap_lookup hash_fn (=) junk (en_sub g ! t) k = Some v"
      then obtain t where t: "t < ?n" "kmap_lookup hash_fn (=) junk (en_sub g ! t) k = Some v" by blast
      then have "t = emap_sub hash_fn g k" using kmap_low [OF wf t(1), of junk k] by simp
      then show "emap_lookup hash_fn (=) junk g k = Some v" using t(2) by (simp add: emap_lookup_sub [OF wf])
    next
      assume "emap_lookup hash_fn (=) junk g k = Some v"
      then show "\<exists>t<?n. kmap_lookup hash_fn (=) junk (en_sub g ! t) k = Some v"
        using en_low_less [OF wf, of "hash_fn k"] by (auto simp: emap_lookup_sub [OF wf])
    qed
    finally show ?thesis by (simp add: map_of_eq_Some_iff [OF d])
  qed
  then show "map_of (kh_ens_foreach m_key m_val g) = emap_lookup hash_fn (=) junk g"
    by (intro ext option.expand) (metis not_Some_eq)+
qed

lemma ens_init_simps: "emap_wf hash_fn ens_init" "en_entries ens_init = 0" "ens_counted ens_init"
  by (simp_all add: ens_init_def ens_init_wf ens_counted_def) (simp add: en_entries_def ens_init_sub_def en_pow_def kh_init_def)

interpretation em: finite_map_impl ens_init "emap_lookup hash_fn (=) junk" "emap_insert hash_fn (=) junk"
  en_entries "emap_wf hash_fn" "3 * 2 ^ 29"
  for hash_fn :: "'k \<Rightarrow> khint" and junk :: "('k, 'v) m_bucket"
proof
  show "emap_lookup hash_fn (=) junk ens_init = Map.empty"
    by (rule ext, subst emap_lookup_sub [OF ens_init_simps(1)])
      (simp add: ens_init_def ens_init_sub_def en_low_def en_pow_def km.lookup_empty)
qed (rule ens_init_simps, rule ens_init_simps, rule emap_insert_law)

lemma kh_foreach_snd: "kh_foreach_value val h = map snd (kh_foreach key val h)"
  by (simp add: kh_foreach_def kh_foreach_value_def)

lemma kh_ens_foreach_snd: "kh_ens_foreach_value val g = map snd (kh_ens_foreach key val g)"
  by (simp add: kh_ens_foreach_value_def kh_ens_foreach_def map_concat comp_def kh_foreach_snd [of _ _ key])

subsection \<open>Properties\<close>

text \<open>The memory that \<open>kcalloc\<close> returns.\<close>

definition ens_zero :: "'b khens" where
  "ens_zero = \<lparr>en_count = 0, en_bits = 0, en_sub = []\<rparr>"

lemma ens_zero_init:
  assumes "unat bits \<le> 30"
  shows "ens_counted (ens_init_sub ens_zero bits)"
  by (simp add: ens_counted_def ens_init_wf [OF assms]) (simp add: ens_zero_def)

lemma emap_lookup_zero:
  assumes "unat bits \<le> 30"
  shows "emap_lookup hash_fn (=) junk (ens_init_sub ens_zero bits) = Map.empty" "en_entries (ens_init_sub ens_zero bits) = 0"
proof -
  let ?g = "ens_init_sub ens_zero bits :: ('a, 'b) m_bucket khens"
  have wf: "emap_wf hash_fn ?g" by (rule ens_init_wf(1) [OF assms])
  have "en_sub ?g ! emap_sub hash_fn ?g k = kh_init" for k
    using en_low_less [OF wf, of "hash_fn k"] by (simp add: ens_init_sub_def)
  then show "emap_lookup hash_fn (=) junk ?g = Map.empty"
    by (intro ext) (simp add: emap_lookup_sub [OF wf] km.lookup_empty)
  show "en_entries (ens_init_sub ens_zero bits) = 0"
    by (simp add: en_entries_def ens_init_sub_def kh_init_def)
qed

text \<open>
  C15: every operation of an ensemble but clear keeps it well typed.  From an ensemble whose
  tables are well-formed, hold only buckets whose hash has their index as its low bits, and
  number their buckets in the 54-bit count, insertion, deletion and resize return such an
  ensemble; an iterator that insertion or a successful lookup returns points at a used slot of
  one of its tables.
\<close>

theorem kh_ens_typed:
  assumes "kh_keying hf eq" "ens_wf hf eq g" "ens_counted g" "card (ens_elems g) < 3 * 2 ^ 29"
  shows "(x \<noteq> KhClear \<longrightarrow> (\<exists>g'. ens_exec hf eq junk g x = Some g' \<and> ens_wf hf eq g' \<and> ens_counted g'))
    \<and> (\<exists>g' r absent. ens_putp hf eq junk g b = Some (g', r, absent) \<and> ens_at g' r \<and> \<not> kh_ens_is_end r
      \<and> eq (kh_bucket (en_sub g' ! unat (it_sub r)) (it_pos r)) b)
    \<and> (\<not> kh_ens_is_end (ens_getp hf eq g b) \<longrightarrow> ens_at g (ens_getp hf eq g b))"
  using kh_keying.ens_exec_correct [OF assms(1,2,4), of junk x] assms(3)
    kh_keying.ens_putp_correct [OF assms(1,2,4), of junk b] kh_keying.ens_getp_correct [OF assms(1,2), of b]
  by (auto simp: ens_bucket_def)

theorem kh_ens_typed_witness:
  "\<exists>g. ens_exec kh_hash_uint32 (=) 0 (ens_init_sub ens_zero 2) (KhPut 7) = Some g
     \<and> ens_wf kh_hash_uint32 (=) g \<and> ens_counted g"
  using kh_ens_typed [OF uint32_keying ens_init_wf(1) ens_zero_init, of 2 "KhPut 7" 0] by (simp add: ens_init_wf)

text \<open>
  C14: an ensemble is one hash table.  Any sequence of at most \<open>3 * 2\<^sup>2\<^sup>9\<close> insertions, deletions,
  resizes and clears on a fresh ensemble of \<open>2\<^sup>b\<^sup>i\<^sup>t\<^sup>s\<close> tables returns and leaves the buckets that the
  same sequence leaves in a single fresh table; without a clear, it also reports the same
  number of them.
\<close>

theorem kh_ens_refines_table:
  assumes "kh_keying hf eq" "unat bits \<le> 30" "length xs \<le> 3 * 2 ^ 29" "list_all kh_op_ok xs"
  shows "\<exists>g h. ens_exec_all hf eq junk (ens_init_sub ens_zero bits) xs = Some g
    \<and> kh_exec_all hf eq junk kh_init xs = Some h \<and> ens_elems g = kh_elems h
    \<and> (KhClear \<notin> set xs \<longrightarrow> unat (kh_ens_size g) = unat (kh_count h))"
proof -
  let ?g = "ens_init_sub ens_zero bits :: 'a khens"
  obtain h where h: "kh_exec_all hf eq junk kh_init xs = Some h" "kh_wf hf eq h" "kh_elems h = fold (set_exec eq) xs {}"
    using kh_keying.exec_all_correct [OF assms(1) kh_wf_init, of xs junk] assms(3,4) by (auto simp: kh_init_def simp flip: kh_elems_init)
  obtain g where g: "ens_exec_all hf eq junk ?g xs = Some g" "ens_elems g = fold (set_exec eq) xs {}"
    "KhClear \<notin> set xs \<longrightarrow> ens_counted g"
    using kh_keying.ens_exec_all_correct [OF assms(1) ens_init_wf(1) [OF assms(2)], of ens_zero xs junk] assms(3)
      ens_zero_init [OF assms(2)] by (auto simp: ens_init_wf [OF assms(2)])
  have "unat (kh_count h) = card (ens_elems g)" using kh_keying.count_card [OF assms(1) h(2)] h(3) g(2) by simp
  moreover from this have "card (ens_elems g) < 2 ^ 32" using unsigned_less [of "kh_count h", where 'a = nat] by simp
  ultimately have "KhClear \<notin> set xs \<longrightarrow> unat (kh_ens_size g) = unat (kh_count h)"
    using g(3) by (auto simp: ens_counted_def kh_ens_size_def unat_of_nat take_bit_nat_eq_self)
  then show ?thesis using h g(1,2) by auto
qed

theorem kh_ens_refines_table_witness:
  "kh_keying kh_hash_uint32 (=) \<and> (\<exists>g. ens_exec_all kh_hash_uint32 (=) 0 (ens_init_sub ens_zero 3)
       [KhPut 7, KhPut 9, KhDel 7, KhPut 9] = Some g \<and> (\<exists>h. ens_elems g = kh_elems h \<and>
     kh_exec_all kh_hash_uint32 (=) 0 kh_init [KhPut 7, KhPut 9, KhDel 7, KhPut 9] = Some h))"
  using kh_ens_refines_table [OF uint32_keying, of 3 "[KhPut 7, KhPut 9, KhDel 7, KhPut 9]" 0] uint32_keying by auto

text \<open>
  C40: clearing an ensemble drops every bucket and keeps it well-formed, but leaves its count as
  it was: \<open>kh_ens_size\<close> goes on reporting the buckets that are gone.
\<close>

theorem kh_ens_clear_keeps_count:
  assumes "kh_keying hf eq" "ens_wf hf eq g"
  shows "ens_wf hf eq (ens_clear g) \<and> ens_elems (ens_clear g) = {} \<and> kh_ens_size (ens_clear g) = kh_ens_size g"
  using kh_keying.ens_clear_correct [OF assms] by (simp add: kh_ens_size_def)

theorem kh_ens_clear_keeps_count_witness:
  "\<exists>g. ens_exec kh_hash_uint32 (=) 0 (ens_init_sub ens_zero 2) (KhPut 7) = Some g
     \<and> ens_elems (ens_clear g) = {} \<and> kh_ens_size (ens_clear g) = 1"
proof -
  obtain g where g: "ens_exec kh_hash_uint32 (=) 0 (ens_init_sub ens_zero 2) (KhPut 7) = Some g"
    "ens_wf kh_hash_uint32 (=) g" "ens_elems g = {7}" "ens_counted g"
    using kh_keying.ens_exec_correct [OF uint32_keying ens_init_wf(1), of 2 ens_zero 0 "KhPut 7"] ens_zero_init [of 2]
    by (auto simp: ens_init_wf)
  have "kh_ens_size g = 1" using g(3,4) by (simp add: ens_counted_def kh_ens_size_def)
  then show ?thesis using kh_ens_clear_keeps_count [OF uint32_keying g(2)] g(1) by (intro exI [of _ g]) simp
qed

text \<open>
  C33: a map on an ensemble is a finite map.  Any sequence of at most \<open>3 * 2\<^sup>2\<^sup>9\<close> insertions into
  a fresh ensemble returns; looking up finds the value stored last under each key, and
  \<open>kh_ens_foreach\<close> visits every key exactly once, with that value, over all tables;
  \<open>kh_ens_foreach_value\<close> visits the same values.
\<close>

theorem emap_foreach_correct:
  assumes "unat bits \<le> 30" "length kvs \<le> 3 * 2 ^ 29"
  shows "\<exists>g. foldl (\<lambda>g (k, v). Option.bind g (\<lambda>g. emap_insert hash_fn (=) junk g k v)) (Some (ens_init_sub ens_zero bits)) kvs = Some g
    \<and> emap_lookup hash_fn (=) junk g = map_of (rev kvs)
    \<and> distinct (map fst (kh_ens_foreach m_key m_val g)) \<and> map_of (kh_ens_foreach m_key m_val g) = map_of (rev kvs)
    \<and> kh_ens_foreach_value m_val g = map snd (kh_ens_foreach m_key m_val g)"
proof -
  obtain g where g: "em.ins_all hash_fn junk (ens_init_sub ens_zero bits) kvs = Some g" "emap_wf hash_fn g"
    "emap_lookup hash_fn (=) junk g = map_of (rev kvs)"
    using em.ins_all_correct [OF ens_init_wf(1) [OF assms(1)], of ens_zero kvs hash_fn junk] assms(2)
    by (auto simp: emap_lookup_zero [OF assms(1)])
  then show ?thesis
    using emap_foreach [OF g(2)] by (auto simp: em.ins_all_foldl kh_ens_foreach_snd [of _ _ m_key])
qed

theorem emap_foreach_correct_witness:
  "\<exists>g. foldl (\<lambda>g (k, v). Option.bind g (\<lambda>g. emap_insert kh_hash_uint32 (=) \<lparr>m_key = 0, m_val = ''''\<rparr> g k v))
        (Some (ens_init_sub ens_zero 4)) [(7, ''a''), (9, ''b''), (7, ''c'')] = Some g
    \<and> map_of (kh_ens_foreach m_key m_val g) = [7 \<mapsto> ''c'', 9 \<mapsto> ''b'']"
  using emap_foreach_correct [of 4 "[(7, ''a''), (9, ''b''), (7, ''c'')]" kh_hash_uint32 "\<lparr>m_key = 0, m_val = ''''\<rparr>"]
  by (auto simp: fun_upd_twist)

end
