(* ===== verification/Xh_Main.thy ===== *)
theory Xh_Main
  imports Recv
begin

text \<open>
  Start-up and end of the process in \<open>xap_helper.h\<close>: \<open>main\<close> with its options and signal masks, the
  redirection of standard error for the duration of a request, and \<open>cleanup_all\<close>.  The results of
  the system calls \<open>main\<close> makes are an argument.  Setting up the query parsers' prefixes (generated code),
  the names of the log files (in \<open>world\<close>) and freeing \<open>worker_pids\<close> are left out.
\<close>

subsection \<open>Signal sets\<close>

abbreviation SIGABRT :: signal where "SIGABRT \<equiv> SIGOTHER 6"
abbreviation SIGBUS :: signal where "SIGBUS \<equiv> SIGOTHER 7"
abbreviation SIGFPE :: signal where "SIGFPE \<equiv> SIGOTHER 8"
abbreviation SIGILL :: signal where "SIGILL \<equiv> SIGOTHER 4"
abbreviation SIGSEGV :: signal where "SIGSEGV \<equiv> SIGOTHER 11"
abbreviation SIGXCPU :: signal where "SIGXCPU \<equiv> SIGOTHER 24"
abbreviation SIGXFSZ :: signal where "SIGXFSZ \<equiv> SIGOTHER 25"
abbreviation SIGALRM :: signal where "SIGALRM \<equiv> SIGOTHER 14"

type_synonym sigset = "signal \<Rightarrow> bool"

definition sigfillset :: sigset where
  "sigfillset = (\<lambda>sig. True)"

definition sigdelset :: "signal \<Rightarrow> sigset \<Rightarrow> sigset" where
  "sigdelset sig s = s(sig := False)"

record sigsets =
  fullset :: sigset
  workerset :: sigset
  pset :: sigset

definition DELSET :: "signal \<Rightarrow> sigsets \<Rightarrow> sigsets" where
  "DELSET sig s =
     s\<lparr>fullset := sigdelset sig (fullset s), workerset := sigdelset sig (workerset s), pset := sigdelset sig (pset s)\<rparr>"

text \<open>The sets \<open>main\<close> makes, those for workers only when there are any.\<close>

definition main_sets :: "int \<Rightarrow> sigsets" where
  "main_sets nw =
     (let s = fold DELSET [SIGABRT, SIGBUS, SIGFPE, SIGILL, SIGSEGV, SIGXCPU, SIGXFSZ]
            \<lparr>fullset = sigfillset, workerset = sigfillset, pset = sigfillset\<rparr>;
          s = s\<lparr>workerset := sigdelset SIGUSR1 (workerset s)\<rparr>;
          s = s\<lparr>fullset := sigdelset SIGALRM (fullset s)\<rparr>
      in if nw = 0 then s
         else s\<lparr>workerset := sigdelset SIGCHLD (sigdelset SIGTERM (workerset s)),
                pset := fold sigdelset [SIGCHLD, SIGTTIN, SIGTTOU, SIGUSR1] (pset s)\<rparr>)"

subsection \<open>main\<close>

text \<open>\<open>errx\<close> and \<open>err\<close> end the process with status 1; a bad option is told apart for its message.\<close>

definition main_opt :: "char \<times> string \<Rightarrow> int \<times> bool \<Rightarrow> abort + int \<times> bool" where
  "main_opt ev st =
     (let (c, optarg) = ev; (nw, l) = st
      in if c = CHR ''j'' then
           let (nw, n) = strtoul optarg
           in if chr_at optarg n \<noteq> NUL \<or> nw > int WORKER_MAX then Inl (BadOption c optarg) else Inr (nw, l)
         else if c = CHR ''l'' then Inr (nw, True)
         else Inl (BadSwitch c))"

fun main_opts :: "(char \<times> string) list \<Rightarrow> int \<times> bool \<Rightarrow> abort + int \<times> bool" where
  "main_opts [] st = Inr st"
| "main_opts (ev # evs) st = sum_bind (main_opt ev st) (main_opts evs)"

text \<open>
  The results of \<open>getsockopt\<close>, \<open>dup\<close>, \<open>setvbuf\<close>, \<open>pipe\<close> and \<open>fcntl\<close>, and whether the C library allows
  an assignment to \<open>stderr\<close>.
\<close>

record main_env =
  so_type :: "int option"
  assignable :: bool
  dup_ret :: int
  setlinebuf_ok :: bool
  pipe_ok :: bool
  getfl_ret :: "int option"
  setfl_ok :: "int \<Rightarrow> bool"

definition SOCK_SEQPACKET :: int where
  "SOCK_SEQPACKET = 5"

definition O_NONBLOCK :: int where
  "O_NONBLOCK = 2048"

definition xsetfl :: "int option \<Rightarrow> (int \<Rightarrow> bool) \<Rightarrow> int \<Rightarrow> abort + unit" where
  "xsetfl getfl setfl newflags =
     (case getfl of
        None \<Rightarrow> Inl (Exited 1)
      | Some fl \<Rightarrow> if setfl (or fl newflags) then Inr () else Inl (Exited 1))"

datatype mode = WorkerLoop | DynforkLoop | PreforkLoop

text \<open>What \<open>main\<close> has set up when it enters a loop; \<open>handled\<close> are the signals whose handler is \<open>sigp\<close>.\<close>

record started =
  st_mode :: mode
  st_nworker :: int
  st_lei :: bool
  st_sets :: sigsets
  st_mask :: "sigset option"
  st_handled :: "signal list"

definition main :: "main_env \<Rightarrow> string list \<Rightarrow> abort + started" where
  "main env args =
     (if so_type env \<noteq> Some SOCK_SEQPACKET then Inl (Exited 1)
      else if \<not> assignable env \<and> dup_ret env < 0 then Inl (Exited 1)
      else if \<not> setlinebuf_ok env then Inl (Exited 1)
      else
        let (evs, used, rest) = getopt_go ''lj:'' [] (drop 1 args)
        in sum_bind (main_opts evs (1, False)) (\<lambda>(nw, l).
             let sets = main_sets nw
             in if nw = 0 then
                  Inr \<lparr>st_mode = WorkerLoop, st_nworker = nw, st_lei = l, st_sets = sets, st_mask = None, st_handled = []\<rparr>
                else if \<not> pipe_ok env then Inl (Exited 1)
                else sum_bind (xsetfl (getfl_ret env) (setfl_ok env) O_NONBLOCK) (\<lambda>_.
                  Inr \<lparr>st_mode = (if l then DynforkLoop else PreforkLoop), st_nworker = nw, st_lei = l,
                    st_sets = sets, st_mask = Some (pset sets), st_handled = [SIGUSR1, SIGTTIN, SIGTTOU, SIGCHLD]\<rparr>)))"

text \<open>The loop that follows, from the initial values of the static variables.\<close>

definition main_pool :: "int \<Rightarrow> pool" where
  "main_pool n = \<lparr>worker_pids = [], nworker = nat n, nworker_hwm = 0, alive = True, my_fd_max = 0,
     nforks = 0, nreallocs = 0, acts = []\<rparr>"

definition main_srch :: "bool \<Rightarrow> srch_state" where
  "main_srch l = \<lparr>srch_cache = kh_init, srch_heap = Map.empty, next_ptr = 0, shard_nfd = 0, my_fd_max = 0, lei = l, lock_log = []\<rparr>"

datatype main_end = MainExit abort | MainWorker "(wact list \<times> (abort + unit) \<times> srch_state) option"
  | MainPrefork pool_res | MainDynfork pool_res

definition run_main ::
  "main_env \<Rightarrow> world \<Rightarrow> kernel \<Rightarrow> revent list \<Rightarrow> poll_ret list \<Rightarrow> (read_ret \<times> wait_ret list) list \<Rightarrow> string list \<Rightarrow> main_end"
where
  "run_main env wd K evs ps rs args =
     (case main env args of
        Inl a \<Rightarrow> MainExit a
      | Inr s \<Rightarrow>
          (case st_mode s of
             WorkerLoop \<Rightarrow> MainWorker (recv_loop wd 0 \<lparr>sock_fd = 0, needs_reopen = False\<rparr> (main_srch (st_lei s)) evs)
           | DynforkLoop \<Rightarrow> MainDynfork (dynfork_loop K ps (main_pool (st_nworker s)))
           | PreforkLoop \<Rightarrow> MainPrefork (prefork_loop K rs (main_pool (st_nworker s)))))"

subsection \<open>The end of the process\<close>

text \<open>\<open>srch_cache_renew(NULL)\<close> frees every object; \<open>cleanup_all\<close> is what \<open>atexit\<close> runs.\<close>

definition renew_free_all :: "srch_set \<Rightarrow> (nat \<rightharpoonup> srch) \<Rightarrow> (nat \<rightharpoonup> srch)" where
  "renew_free_all h heap =
     fold (\<lambda>k heap. if kh_exist h (of_nat k) then srch_free (sk_ptr (cset_key h (of_nat k))) heap else heap)
       [0..<unat (kh_end h)] heap"

definition srch_cache_renew_null :: "srch_state \<Rightarrow> srch_state" where
  "srch_cache_renew_null st =
     st\<lparr>srch_heap := renew_free_all (srch_cache st) (srch_heap st), srch_cache := kh_clear (srch_cache st)\<rparr>"

definition cleanup_all :: "srch_state \<Rightarrow> srch_state" where
  "cleanup_all st = (srch_cache_renew_null st)\<lparr>srch_cache := kh_init\<rparr>"

subsection \<open>Standard error\<close>

text \<open>
  Where \<open>stderr\<close> and the descriptor 2 lead, and where they led at the start.  \<open>dup2\<close> is tried until it
  is not interrupted; its results are error numbers, zero for success.
\<close>

record 'f stderrs =
  stderr_fp :: 'f
  stderr_fd :: 'f
  orig_err :: 'f

fun dup2_loop :: "int list \<Rightarrow> abort + unit" where
  "dup2_loop [] = Inl Waiting"
| "dup2_loop (errno # es) =
     (if errno = 0 then Inr () else if errno \<noteq> EINTR then Inl (Exited 1) else dup2_loop es)"

definition stderr_set :: "bool \<Rightarrow> int list \<Rightarrow> bool \<Rightarrow> 'f \<Rightarrow> 'f stderrs \<Rightarrow> abort + 'f stderrs" where
  "stderr_set asg dups fileno_ok tmp_err s =
     (if asg then Inr (s\<lparr>stderr_fp := tmp_err\<rparr>)
      else if \<not> fileno_ok then Inl (Exited 1)
      else sum_bind (dup2_loop dups) (\<lambda>_. Inr (s\<lparr>stderr_fd := tmp_err\<rparr>)))"

definition stderr_restore :: "bool \<Rightarrow> int list \<Rightarrow> bool \<Rightarrow> 'f stderrs \<Rightarrow> abort + 'f stderrs" where
  "stderr_restore asg dups flush_ok s =
     (if asg then Inr (s\<lparr>stderr_fp := orig_err s\<rparr>)
      else if \<not> flush_ok then Inl (Exited 1)
      else sum_bind (dup2_loop dups) (\<lambda>_. Inr (s\<lparr>stderr_fd := orig_err s\<rparr>)))"

end
