(* ===== verification/Xh_Main_Spec.thy ===== *)
theory Xh_Main_Spec
  imports Xh_Main Recv_Spec
begin

text \<open>
  Properties of start-up: which numbers of workers are accepted and which loop follows, which signals
  are let in while the parent and the workers wait and while a request is served, what becomes of
  the cache of a process without workers, and the redirection of standard error.
\<close>

subsection \<open>Options\<close>

text \<open>The system calls of \<open>main\<close> succeed.\<close>

definition env_ok :: "main_env \<Rightarrow> bool" where
  "env_ok env \<longleftrightarrow> so_type env = Some SOCK_SEQPACKET \<and> (assignable env \<or> dup_ret env \<ge> 0) \<and> setlinebuf_ok env \<and> pipe_ok env
     \<and> (\<exists>fl. getfl_ret env = Some fl \<and> setfl_ok env (or fl O_NONBLOCK))"

lemma main_opt_j:
  assumes "ds \<noteq> []" "list_all c_isdigit ds"
  shows "main_opt (CHR ''j'', ds) (nw, l) =
    (if dec_val 0 ds \<le> int WORKER_MAX then Inr (dec_val 0 ds, l) else Inl (BadOption CHR ''j'' ds))"
proof -
  have "strto_scan ds = (False, dec_val 0 ds, length ds)" using strto_scan_digits [OF assms, of "[]"] by simp
  then show ?thesis by (simp add: main_opt_def strtoul_def chr_at_def NUL_def ULONG_MAX_def WORKER_MAX_def)
qed

lemma main_getopt:
  "getopt_go ''lj:'' [] [''-j'', ds] = ([(CHR ''j'', ds)], [''-j'', ds], [])"
  "getopt_go ''lj:'' [] [''-l'', ''-j'', ds] = ([(CHR ''l'', []), (CHR ''j'', ds)], [''-l'', ''-j'', ds], [])"
  by (simp_all add: getopt_go.simps)

text \<open>
  C34: a decimal number after \<open>-j\<close> is accepted exactly when it is at most \<open>USHRT_MAX\<close>, and is the number of
  workers; with 0 the process serves requests itself, otherwise it becomes the parent of that
  many workers, or forks for each request when \<open>-l\<close> was given.  A larger number, however many
  digits it has, ends the process with a message.
\<close>

theorem main_workers:
  assumes "env_ok env" "ds \<noteq> []" "list_all c_isdigit ds"
  shows "case main env (prog # (if l then [''-l''] else []) @ [''-j'', ds]) of
      Inr s \<Rightarrow> dec_val 0 ds \<le> 65535 \<and> st_nworker s = dec_val 0 ds \<and> st_lei s = l
        \<and> st_mode s = (if dec_val 0 ds = 0 then WorkerLoop else if l then DynforkLoop else PreforkLoop)
    | Inl a \<Rightarrow> dec_val 0 ds > 65535 \<and> a = BadOption CHR ''j'' ds"
  using assms(1) main_opt_j [OF assms(2,3)]
  by (auto simp: main_def env_ok_def main_getopt main_opt_def Let_def xsetfl_def WORKER_MAX_def)

definition env1 :: main_env where
  "env1 = \<lparr>so_type = Some 5, assignable = True, dup_ret = -1, setlinebuf_ok = True, pipe_ok = True, getfl_ret = Some 1,
     setfl_ok = (\<lambda>fl. True)\<rparr>"

lemma env1_ok: "env_ok env1"
  by (simp add: env_ok_def env1_def SOCK_SEQPACKET_def)

theorem main_workers_witness:
  "(case main env1 [''xap_helper'', ''-l'', ''-j'', ''2''] of
      Inr s \<Rightarrow> st_nworker s = 2 \<and> st_mode s = DynforkLoop | Inl a \<Rightarrow> False)
   \<and> (case main env1 [''xap_helper'', ''-j'', ''65536''] of Inr s \<Rightarrow> False | Inl a \<Rightarrow> a = BadOption CHR ''j'' ''65536'')"
proof -
  have d: "list_all c_isdigit ''2''" "list_all c_isdigit ''65536''" "dec_val 0 ''2'' = 2" "dec_val 0 ''65536'' = 65536"
    by code_simp+
  show ?thesis
    using main_workers [OF env1_ok _ d(1), where prog = "''xap_helper''" and l = True]
      main_workers [OF env1_ok _ d(2), where prog = "''xap_helper''" and l = False] d(3,4)
    by (auto split: sum.splits)
qed

subsection \<open>Signals\<close>

text \<open>The signals of a fault or an exhausted limit, which are never blocked.\<close>

definition fatal :: "signal set" where
  "fatal = {SIGABRT, SIGBUS, SIGFPE, SIGILL, SIGSEGV, SIGXCPU, SIGXFSZ}"

lemma main_sets_blocked:
  "fullset (main_sets n) sig \<longleftrightarrow> sig \<notin> fatal \<union> {SIGALRM}"
  "workerset (main_sets n) sig \<longleftrightarrow> sig \<notin> fatal \<union> {SIGUSR1} \<union> (if n = 0 then {} else {SIGTERM, SIGCHLD})"
  "n \<noteq> 0 \<Longrightarrow> pset (main_sets n) sig \<longleftrightarrow> sig \<notin> fatal \<union> {SIGCHLD, SIGTTIN, SIGTTOU, SIGUSR1}"
  by (auto simp: main_sets_def Let_def DELSET_def sigdelset_def sigfillset_def fatal_def)

lemma main_started:
  assumes "main env args = Inr s"
  shows "st_sets s = main_sets (st_nworker s)" "st_mode s = WorkerLoop \<longleftrightarrow> st_nworker s = 0"
    "st_nworker s \<noteq> 0 \<Longrightarrow> st_mask s = Some (pset (st_sets s)) \<and> st_handled s = [SIGUSR1, SIGTTIN, SIGTTOU, SIGCHLD]"
  using assms by (auto simp: main_def Let_def sum_bind_Inr_iff split: if_splits prod.splits)



subsection \<open>The cache\<close>

lemma cleanup_all_frees:
  assumes "srch_reach fd_max l st" "fd_max \<le> 2 ^ 32"
  shows "srch_heap (cleanup_all st) = Map.empty"
proof
  fix p
  have ok: "kh_wf cs_hash (cs_eq srch_eq) (srch_cache st)" "dom (srch_heap st) = bptr ` kh_elems (srch_cache st)"
    using srch_reach_ok [OF assms] by (auto simp: srch_pre_def)
  have "p \<in> dom (srch_heap st) \<longleftrightarrow>
      (\<exists>k<unat (kh_end (srch_cache st)). kh_exist (srch_cache st) (of_nat k) \<and> sk_ptr (cset_key (srch_cache st) (of_nat k)) = p)"
    unfolding ok(2) image_iff Bex_def kh_elems_slots [OF ok(1)] by (auto simp: cset_key_def)
  then show "srch_heap (cleanup_all st) p = None"
    by (auto simp: cleanup_all_def srch_cache_renew_null_def renew_free_all_def renew_free_upto domIff)
qed


definition kernel1 :: kernel where
  "kernel1 = \<lparr>fork_ret = (\<lambda>k. 101 + int k), realloc_ok = (\<lambda>k. True), rlimit_nofile = Some 1024\<rparr>"

lemma run_main_j0:
  "run_main env1 wd K evs ps rs [''xap_helper'', ''-j'', ''0''] =
     MainWorker (recv_loop wd 0 \<lparr>sock_fd = 0, needs_reopen = False\<rparr> (main_srch False) evs)"
proof -
  have "list_all c_isdigit ''0''" "dec_val 0 ''0'' = 0" by code_simp+
  then have "main_opt (CHR ''j'', ''0'') (1, False) = Inr (0, False)" using main_opt_j [of "''0''"] by simp
  then show ?thesis by (simp add: run_main_def main_def env1_def SOCK_SEQPACKET_def main_getopt Let_def)
qed

definition two_requests :: "revent list" where
  "two_requests = [Received (join_args inspect_args) False (Some [1]), Received ''x'' False (Some [1])]"


subsection \<open>Standard error\<close>

text \<open>Where messages go.\<close>

definition err_dest :: "bool \<Rightarrow> 'f stderrs \<Rightarrow> 'f" where
  "err_dest asg s = (if asg then stderr_fp s else stderr_fd s)"

lemma dup2_loop_retries: "errno \<noteq> EINTR \<Longrightarrow>
  dup2_loop (replicate n EINTR @ errno # es) = (if errno = 0 then Inr () else Inl (Exited 1))"
  by (induction n) (simp_all add: EINTR_def)

text \<open>
  With either kind of C library and however often \<open>dup2\<close> is interrupted, messages go to the
  descriptor of the request while it is served, and where they went at the start afterwards.
\<close>

theorem stderr_redirected:
  assumes "err_dest asg s = orig_err s" "d1 = replicate n EINTR @ 0 # e1" "d2 = replicate k EINTR @ 0 # e2"
  shows "\<exists>s1 s2. stderr_set asg d1 True tmp_err s = Inr s1 \<and> err_dest asg s1 = tmp_err
    \<and> stderr_restore asg d2 True s1 = Inr s2 \<and> err_dest asg s2 = err_dest asg s"
  using assms dup2_loop_retries [of 0] by (auto simp: stderr_set_def stderr_restore_def err_dest_def EINTR_def)

theorem stderr_redirected_witness:
  "\<exists>s1 s2. stderr_set False [4, 4, 0] True ''req'' \<lparr>stderr_fp = ''2'', stderr_fd = ''log'', orig_err = ''log''\<rparr> = Inr s1
    \<and> err_dest False s1 = ''req'' \<and> stderr_restore False [0] True s1 = Inr s2 \<and> err_dest False s2 = ''log''"
  using stderr_redirected [of False "\<lparr>stderr_fp = ''2'', stderr_fd = ''log'', orig_err = ''log''\<rparr>" "[4, 4, 0]" 2 "[]" "[0]" 0 "[]" "''req''"]
  by (simp add: err_dest_def EINTR_def numeral_2_eq_2)

end
